(* ===== verification/Prelude.thy ===== *)
theory Prelude
  imports Main "HOL-Library.Word"
begin

unbundle bit_operations_syntax

text \<open>
  Shared vocabulary of the development: the machine integer types of the C sources, the
  ways a C function can stop without returning, and the generic facts on words and lists
  that the component theories use.  Machine integers are words (\<open>+\<close>, \<open>-\<close> and \<open>*\<close>
  wrap); buffers are byte lists.
\<close>

section \<open>Machine integers\<close>

type_synonym u8 = "8 word"
type_synonym u16 = "16 word"
type_synonym u32 = "32 word"
type_synonym u64 = "64 word"

text \<open>The unsigned maximum that the sources spell \<open>UINT32_MAX\<close> or \<open>-1U\<close>.\<close>

abbreviation UINT32_MAX :: u32 where
  "UINT32_MAX \<equiv> 0xFFFFFFFF"

section \<open>Ways to stop\<close>

text \<open>
  \<open>abort()\<close>, a failed \<open>assert\<close>, a division by zero and an access outside of a buffer end the
  process (or leave the C semantics), and a loop may not end (\<open>Diverge\<close>); a function
  that can do so returns \<open>Inl\<close> of the reason.
\<close>

datatype c_err = Abort | Assert_fail | Div_zero | Oob | Diverge

type_synonym 'a res = "c_err + 'a"

definition bind_res :: "'a res \<Rightarrow> ('a \<Rightarrow> 'b res) \<Rightarrow> 'b res" where
  "bind_res r k = (case r of Inl e \<Rightarrow> Inl e | Inr x \<Rightarrow> k x)"

lemma bind_res_simps [simp]:
  "bind_res (Inl e) k = Inl e"
  "bind_res (Inr x) k = k x"
  by (simp_all add: bind_res_def)

lemma bind_res_Inr_iff: "bind_res r k = Inr y \<longleftrightarrow> (\<exists>x. r = Inr x \<and> k x = Inr y)"
  by (cases r) (auto simp: bind_res_def)

text \<open>What holds of the result of a computation that succeeds.\<close>

definition post :: "'a res \<Rightarrow> ('a \<Rightarrow> bool) \<Rightarrow> bool" where
  "post m Q = (case m of Inl _ \<Rightarrow> True | Inr y \<Rightarrow> Q y)"

lemma post_simps [simp]: "post (Inl x) Q" "post (Inr y) Q = Q y" "post (bind_res m f) Q = post m (\<lambda>x. post (f x) Q)"
  by (simp_all add: post_def split: sum.splits)

lemma postI: "(\<And>y. m = Inr y \<Longrightarrow> Q y) \<Longrightarrow> post m Q"
  by (simp add: post_def split: sum.splits)

lemma postD: "post m Q \<Longrightarrow> m = Inr y \<Longrightarrow> Q y"
  by (simp add: post_def)

lemma post_mono: "post m P \<Longrightarrow> (\<And>y. P y \<Longrightarrow> Q y) \<Longrightarrow> post m Q"
  by (simp add: post_def split: sum.splits)

lemma post_any: "(\<And>y. Q y) \<Longrightarrow> post m Q"
  by (simp add: post_def split: sum.splits)

lemma post_seq: "post m P \<Longrightarrow> (\<And>x. P x \<Longrightarrow> post (f x) Q) \<Longrightarrow> post (bind_res m f) Q"
  by (cases m) auto

lemma post_seq2: "post m (\<lambda>(a, b). P a b) \<Longrightarrow> (\<And>a b. P a b \<Longrightarrow> post (f (a, b)) Q) \<Longrightarrow> post (bind_res m f) Q"
  by (cases m) auto

lemma post_skip: "(\<And>x. post (f x) Q) \<Longrightarrow> post (bind_res m f) Q"
  by (cases m) auto

lemma post_if: "(b \<Longrightarrow> post x Q) \<Longrightarrow> (\<not> b \<Longrightarrow> post y Q) \<Longrightarrow> post (if b then x else y) Q"
  by simp

lemma post_option: "(x = None \<Longrightarrow> post a Q) \<Longrightarrow> (\<And>y. x = Some y \<Longrightarrow> post (f y) Q) \<Longrightarrow> post (case x of None \<Rightarrow> a | Some y \<Rightarrow> f y) Q"
  by (cases x) simp_all

lemma post_pair: "(\<And>a b. x = (a, b) \<Longrightarrow> post (f a b) Q) \<Longrightarrow> post (case x of (a, b) \<Rightarrow> f a b) Q"
  by (cases x) simp

lemmas post_split = post_if post_option post_pair

section \<open>Words\<close>

text \<open>
  A sequence-number interval \<open>[a, b]\<close> on the 32-bit circle, the way the sources test it:
  a plain range when it does not wrap, two half-lines when it does.  It is the set of
  points at distance at most \<open>b - a\<close> from \<open>a\<close>.
\<close>

lemma word_interval_iff:
  fixes a b x :: "'a::len word"
  shows "(if a \<le> b then a \<le> x \<and> x \<le> b else a \<le> x \<or> x \<le> b) \<longleftrightarrow> x - a \<le> b - a"
proof -
  define M where "M = (2 :: nat) ^ LENGTH('a)"
  have "unat a < M" "unat b < M" "unat x < M"
    by (simp_all add: M_def)
  then show ?thesis
    by (auto simp: word_le_nat_alt unat_sub_if' M_def [symmetric])
qed

text \<open>Reading sums, differences and conversions of 32-bit values as naturals.\<close>

lemma unat_u32_add: "unat (x + y :: u32) =
    (if unat x + unat y < 4294967296 then unat x + unat y else unat x + unat y - 4294967296)"
  by (simp add: unat_plus_if')

lemma unat_u32_sub: "unat (x - y :: u32) =
    (if unat y \<le> unat x then unat x - unat y else unat x + 4294967296 - unat y)"
  by (simp add: unat_sub_if')

lemma unat_u16_u32 [simp]: "unat (ucast (x :: u16) :: u32) = unat x"
proof -
  have "unat x < 2 ^ 32"
    using unsigned_less [of x, where 'a = nat] by simp
  then show ?thesis
    by (simp add: unsigned_ucast_eq take_bit_nat_eq_self)
qed

lemma unat_u16_u64 [simp]: "unat (ucast (x :: u16) :: u64) = unat x"
proof -
  have "unat x < 2 ^ 64" using unsigned_less [of x, where 'a = nat] by simp
  then show ?thesis by (simp add: unsigned_ucast_eq take_bit_nat_eq_self)
qed

lemma unat_u32_u64 [simp]: "unat (ucast (x :: u32) :: u64) = unat x"
proof -
  have "unat x < 2 ^ 64" using unsigned_less [of x, where 'a = nat] by simp
  then show ?thesis by (simp add: unsigned_ucast_eq take_bit_nat_eq_self)
qed

lemma unat_u64_u32: "unat (ucast (x :: u64) :: u32) = unat x mod 4294967296"
  by (simp add: unsigned_ucast_eq take_bit_eq_mod)

lemma unat_u64_add: "unat (x :: u64) + unat y < 2 ^ 64 \<Longrightarrow> unat (x + y) = unat x + unat y"
  by (simp add: unat_plus_if')

lemma unat_u64_mul: "unat (x :: u64) * unat y < 2 ^ 64 \<Longrightarrow> unat (x * y) = unat x * unat y"
  by (simp add: unat_mult_lem [THEN iffD1])

lemma unat_u32_u16: "unat (ucast (x :: u32) :: u16) = unat x mod 65536"
  by (simp add: unsigned_ucast_eq take_bit_eq_mod)

lemma unat_u32_bound: "unat (x :: u32) < 4294967296"
  using unsigned_less [of x, where 'a = nat] by simp

lemma unat_u64_bound: "unat (x :: u64) < 18446744073709551616"
  using unsigned_less [of x, where 'a = nat] by simp

lemma unat_u16_bound: "unat (x :: u16) < 65536"
  using unsigned_less [of x, where 'a = nat] by simp

lemmas u32_nat = unat_u32_add unat_u32_sub unat_u32_u16 word_le_nat_alt word_less_nat_alt

end
