(* ===== verification/Chains.thy ===== *)
theory Chains
  imports Main "HOL-Library.Sublist"
begin

text \<open>
  Singly linked lists threaded through an array or heap.  \<open>seg nil n h xs e\<close> says that starting at
  the reference \<open>h\<close> and following the link function \<open>n\<close> one meets exactly the cells \<open>xs\<close>
  and then the reference \<open>e\<close>; no cell is the null reference \<open>nil\<close>.  The queue manager's lists, the
  packet memory's free list and the timer lists are all read through it.
\<close>

fun seg :: "'a \<Rightarrow> ('a \<Rightarrow> 'a) \<Rightarrow> 'a \<Rightarrow> 'a list \<Rightarrow> 'a \<Rightarrow> bool" where
  "seg nil n h [] e \<longleftrightarrow> h = e"
| "seg nil n h (x # xs) e \<longleftrightarrow> h = x \<and> x \<noteq> nil \<and> seg nil n (n x) xs e"

abbreviation chain :: "'a \<Rightarrow> ('a \<Rightarrow> 'a) \<Rightarrow> 'a \<Rightarrow> 'a list \<Rightarrow> bool" where
  "chain nil n h xs \<equiv> seg nil n h xs nil"

lemma seg_append: "seg nil n h (xs @ ys) e \<longleftrightarrow> (\<exists>m. seg nil n h xs m \<and> seg nil n m ys e)"
  by (induction xs arbitrary: h) auto

lemma seg_cong: "(\<And>x. x \<in> set xs \<Longrightarrow> n x = n' x) \<Longrightarrow> seg nil n h xs e = seg nil n' h xs e"
  by (induction xs arbitrary: h) auto

lemma seg_upd_notin [simp]: "y \<notin> set xs \<Longrightarrow> seg nil (n(y := v)) h xs e = seg nil n h xs e"
  by (rule seg_cong) auto

lemma seg_nil_notin: "seg nil n h xs e \<Longrightarrow> nil \<notin> set xs"
  by (induction xs arbitrary: h) auto

lemma chain_nil_iff: "chain nil n nil xs \<longleftrightarrow> xs = []"
  by (cases xs) auto

lemma chain_head: "chain nil n h xs \<Longrightarrow> h = (if xs = [] then nil else hd xs)"
  by (cases xs) auto

lemma chain_unique: "chain nil n h xs \<Longrightarrow> chain nil n h ys \<Longrightarrow> xs = ys"
  by (induction xs arbitrary: h ys) (auto simp: chain_nil_iff elim: seg.elims)

text \<open>Linking a fresh cell \<open>q\<close> behind the last cell of the first part (\<open>nil\<close> when it is empty).\<close>

lemma seg_insert_after:
  assumes "seg nil n h (A @ p # B) e" "distinct (A @ p # B)" "q \<notin> set (A @ p # B)" "q \<noteq> nil"
  shows "seg nil (n(q := n p, p := q)) h (A @ p # q # B) e"
  using assms by (auto simp: seg_append)

lemma seg_append_end:
  assumes "seg nil n h (A @ [p]) nil" "distinct (A @ [p])" "q \<notin> set (A @ [p])" "q \<noteq> nil"
  shows "seg nil (n(q := nil, p := q)) h (A @ [p, q]) nil"
  using assms by (auto simp: seg_append)

section \<open>Queues\<close>

text \<open>
  The contract of a first-in first-out queue: \<open>rep\<close> relates a state to the elements waiting in it,
  \<open>ok s x\<close> says that \<open>x\<close> may be enqueued in \<open>s\<close>.
\<close>

fun drain :: "('s \<Rightarrow> 'a option) \<Rightarrow> ('s \<Rightarrow> 's) \<Rightarrow> nat \<Rightarrow> 's \<Rightarrow> 'a list" where
  "drain front pop 0 s = []"
| "drain front pop (Suc n) s = (case front s of None \<Rightarrow> [] | Some x \<Rightarrow> x # drain front pop n (pop s))"

locale fifo =
  fixes rep :: "'s \<Rightarrow> 'a list \<Rightarrow> bool" and push :: "'s \<Rightarrow> 'a \<Rightarrow> 's" and pop :: "'s \<Rightarrow> 's"
    and front :: "'s \<Rightarrow> 'a option" and ok :: "'s \<Rightarrow> 'a \<Rightarrow> bool"
  assumes push_rep: "rep s xs \<Longrightarrow> ok s x \<Longrightarrow> rep (push s x) (xs @ [x])"
    and push_ok: "rep s xs \<Longrightarrow> ok s x \<Longrightarrow> ok s y \<Longrightarrow> x \<noteq> y \<Longrightarrow> ok (push s x) y"
    and pop_rep: "rep s (x # xs) \<Longrightarrow> rep (pop s) xs"
    and front_empty: "rep s [] \<Longrightarrow> front s = None"
    and front_hd: "rep s (x # xs) \<Longrightarrow> front s = Some x"
begin

lemma drain_rep: "rep s xs \<Longrightarrow> drain front pop n s = take n xs"
proof (induction n arbitrary: s xs)
  case (Suc n)
  then show ?case
    by (cases xs) (simp_all add: front_empty front_hd pop_rep)
qed simp

lemma pushes_rep:
  "rep s xs \<Longrightarrow> \<forall>y \<in> set ys. ok s y \<Longrightarrow> distinct ys \<Longrightarrow> rep (fold (\<lambda>y s. push s y) ys s) (xs @ ys)"
proof (induction ys arbitrary: s xs)
  case (Cons y ys)
  then have "rep (push s y) (xs @ [y])" "\<forall>z \<in> set ys. ok (push s y) z"
    by (auto intro: push_rep push_ok)
  with Cons show ?case by fastforce
qed simp

text \<open>Elements leave in the order in which they entered, behind those already waiting.\<close>

lemma fifo_order:
  assumes "rep s xs" "\<forall>y \<in> set ys. ok s y" "distinct ys"
  shows "drain front pop (length xs + length ys) (fold (\<lambda>y s. push s y) ys s) = xs @ ys"
  using drain_rep [OF pushes_rep [OF assms], of "length xs + length ys"] by simp

end

section \<open>Subsequences\<close>

text \<open>Facts on subsequences used for the levels of a skip list.\<close>

lemma subseq_set: "subseq xs ys \<Longrightarrow> set xs \<subseteq> set ys"
  by (blast elim: list_emb_set)

lemma subseq_distinct: "subseq xs ys \<Longrightarrow> distinct ys \<Longrightarrow> distinct xs"
  by (induction rule: list_emb.induct) (auto dest: subseq_set)

lemma subseq_drop_prefix:
  "subseq (b # bs) (T @ D) \<Longrightarrow> b \<notin> set T \<Longrightarrow> subseq (b # bs) D"
  by (induction T) (auto simp: subseq_Cons2_neq)

lemma subseq_split_at:
  assumes "subseq (A @ p # B) S"
  obtains X W where "S = X @ p # W" "subseq A X" "subseq B W"
proof -
  obtain X R where R: "S = X @ R" "subseq A X" "subseq (p # B) R"
    using assms by (auto dest: list_emb_appendD)
  then obtain Z W where "R = Z @ p # W" "subseq B W"
    by (auto dest: list_emb_ConsD)
  then show ?thesis
    using R that [of "X @ Z" W] by (auto intro: subseq_rev_drop_many)
qed

lemma subseq_insert_both: "subseq A A' \<Longrightarrow> subseq B B' \<Longrightarrow> subseq (A @ q # B) (A' @ q # B')"
  by (simp add: list_emb_append_mono)

lemma subseq_insert_right: "subseq S (A @ B) \<Longrightarrow> subseq S (A @ q # B)"
  by (erule subseq_order.order_trans) (auto simp: subseq_append')

end
