(* ===== verification/Buffers.thy ===== *)
theory Buffers
  imports Prelude
begin

text \<open>
  Byte memories and circular buffers.  The locale \<open>byte_store\<close> is the interface between a flat
  byte memory and the code that lays a ring buffer over a range of it; its client lemmas say what
  a transfer that wraps around the end of the ring reads and writes.  It is interpreted on plain
  memory (\<open>memcpy\<close>, used by include/utils_circ.h) and on the NIC's DMA memory (flexnic/dma.c).
\<close>

section \<open>The interface of a byte memory\<close>

text \<open>A position of the memory lies in the written part of the ring, and at which offset.\<close>

definition ring_idx :: "nat \<Rightarrow> nat \<Rightarrow> nat \<Rightarrow> nat \<Rightarrow> nat" where
  "ring_idx base blen pos j = (if base + pos \<le> j then j - (base + pos) else j + (blen - pos) - base)"

definition ring_hit :: "nat \<Rightarrow> nat \<Rightarrow> nat \<Rightarrow> nat \<Rightarrow> nat \<Rightarrow> bool" where
  "ring_hit base blen pos n j \<longleftrightarrow> base \<le> j \<and> j < base + blen \<and> ring_idx base blen pos j < n"

lemma ring_idx_mod:
  assumes "pos < blen" "i < blen"
  shows "ring_idx base blen pos (base + (pos + i) mod blen) = i"
  using assms by (auto simp: ring_idx_def mod_if)

locale byte_store =
  fixes contents :: "'m \<Rightarrow> u8 list"
    and rd :: "'m \<Rightarrow> nat \<Rightarrow> nat \<Rightarrow> u8 list option"
    and wr :: "'m \<Rightarrow> nat \<Rightarrow> u8 list \<Rightarrow> 'm option"
    and lim :: nat
  assumes rd_ok: "a + n \<le> length (contents m) \<Longrightarrow> length (contents m) < lim \<Longrightarrow>
      rd m a n = Some (take n (drop a (contents m)))"
    and wr_ok: "a + length xs \<le> length (contents m) \<Longrightarrow> length (contents m) < lim \<Longrightarrow>
      \<exists>m'. wr m a xs = Some m' \<and>
        contents m' = take a (contents m) @ xs @ drop (a + length xs) (contents m)"
begin

text \<open>The bytes of a ring of \<open>blen\<close> bytes at \<open>base\<close>, from position \<open>pos\<close> on.\<close>

definition ring_bytes :: "'m \<Rightarrow> nat \<Rightarrow> nat \<Rightarrow> nat \<Rightarrow> nat \<Rightarrow> u8 list" where
  "ring_bytes m base blen pos n = map (\<lambda>i. contents m ! (base + (pos + i) mod blen)) [0..<n]"

lemma rd_flat:
  assumes "base + blen \<le> length (contents m)" "length (contents m) < lim" "pos + n \<le> blen" "pos < blen"
  shows "rd m (base + pos) n = Some (ring_bytes m base blen pos n)"
  using assms rd_ok [of "base + pos" n m]
  by (auto simp: ring_bytes_def add.assoc intro!: nth_equalityI)

lemma rd_wrapped:
  assumes "base + blen \<le> length (contents m)" "length (contents m) < lim"
    and "pos < blen" "blen < pos + n" "n \<le> blen"
  shows "\<exists>x y. rd m (base + pos) (blen - pos) = Some x \<and> rd m base (n - (blen - pos)) = Some y \<and>
    x @ y = ring_bytes m base blen pos n"
proof -
  have "rd m (base + pos) (blen - pos) = Some (ring_bytes m base blen pos (blen - pos))"
    using assms by (intro rd_flat) auto
  moreover have "rd m base (n - (blen - pos)) = Some (ring_bytes m base blen 0 (n - (blen - pos)))"
    using assms rd_flat [of base blen m 0 "n - (blen - pos)"] by simp
  moreover have "ring_bytes m base blen pos (blen - pos) @ ring_bytes m base blen 0 (n - (blen - pos))
      = ring_bytes m base blen pos n"
    using assms
    by (intro nth_equalityI) (auto simp: ring_bytes_def nth_append mod_if ac_simps)
  ultimately show ?thesis by blast
qed

lemma wr_flat:
  assumes "base + blen \<le> length (contents m)" "length (contents m) < lim"
    and "pos < blen" "pos + length xs \<le> blen"
  shows "\<exists>m'. wr m (base + pos) xs = Some m' \<and> length (contents m') = length (contents m) \<and>
    (\<forall>j < length (contents m). contents m' ! j =
       (if ring_hit base blen pos (length xs) j then xs ! (ring_idx base blen pos j)
        else contents m ! j))"
proof -
  obtain m' where m': "wr m (base + pos) xs = Some m'"
    "contents m' = take (base + pos) (contents m) @ xs @ drop (base + pos + length xs) (contents m)"
    using wr_ok [of "base + pos" xs m] assms by auto
  have "contents m' ! j = (if ring_hit base blen pos (length xs) j
      then xs ! (ring_idx base blen pos j) else contents m ! j)"
    if "j < length (contents m)" for j
  proof (cases "ring_hit base blen pos (length xs) j")
    case True
    then have "base + pos \<le> j" "j < base + pos + length xs" "base \<le> j" "j < base + blen"
      using assms by (auto simp: ring_hit_def ring_idx_def split: if_splits)
    then show ?thesis
      using True assms that by (auto simp: m'(2) nth_append ring_idx_def)
  next
    case False
    then have "j < base + pos \<or> base + pos + length xs \<le> j"
      using assms by (auto simp: ring_hit_def ring_idx_def split: if_splits)
    then show ?thesis
      using False assms that by (auto simp: m'(2) nth_append)
  qed
  then show ?thesis using m' assms by (intro exI [of _ m']) auto
qed

lemma wr_wrapped:
  assumes "base + blen \<le> length (contents m)" "length (contents m) < lim"
    and "pos < blen" "blen < pos + length xs" "length xs \<le> blen"
  shows "\<exists>m1 m'. wr m (base + pos) (take (blen - pos) xs) = Some m1 \<and>
    wr m1 base (drop (blen - pos) xs) = Some m' \<and> length (contents m') = length (contents m) \<and>
    (\<forall>j < length (contents m). contents m' ! j =
       (if ring_hit base blen pos (length xs) j then xs ! (ring_idx base blen pos j)
        else contents m ! j))"
proof -
  obtain m1 where m1: "wr m (base + pos) (take (blen - pos) xs) = Some m1"
    "contents m1 = take (base + pos) (contents m) @ take (blen - pos) xs @ drop (base + blen) (contents m)"
    using wr_ok [of "base + pos" "take (blen - pos) xs" m] assms by auto
  then have len1: "length (contents m1) = length (contents m)" using assms by auto
  let ?k = "length xs - (blen - pos)"
  have k: "base + ?k \<le> length (contents m1)" using assms len1 by linarith
  obtain m' where m': "wr m1 base (drop (blen - pos) xs) = Some m'"
    "contents m' = take base (contents m1) @ drop (blen - pos) xs @
       drop (base + ?k) (contents m1)"
    using wr_ok [of base "drop (blen - pos) xs" m1] k assms(2) len1
    by (auto simp del: drop_drop)
  have "contents m' ! j = (if ring_hit base blen pos (length xs) j
      then xs ! (ring_idx base blen pos j) else contents m ! j)"
    if "j < length (contents m)" for j
  proof -
    consider "base \<le> j" "j < base + ?k" | "base + pos \<le> j" "j < base + blen"
      | "j < base" | "base + ?k \<le> j" "j < base + pos" | "base + blen \<le> j"
      using assms by linarith
    then show ?thesis
      by cases (use assms that in \<open>auto simp: m'(2) m1(2) nth_append ring_idx_def ring_hit_def ac_simps\<close>)
  qed
  then show ?thesis using m1 m' assms len1 by (intro exI [of _ m1] exI [of _ m']) auto
qed

text \<open>What was written to the ring is read back.\<close>

lemma ring_bytes_written:
  assumes "base + blen \<le> length (contents m)" "pos < blen" "length xs \<le> blen"
    and "\<forall>j < length (contents m). contents m' ! j =
       (if ring_hit base blen pos (length xs) j then xs ! (ring_idx base blen pos j)
        else contents m ! j)"
  shows "ring_bytes m' base blen pos (length xs) = xs"
proof (intro nth_equalityI)
  fix i assume "i < length (ring_bytes m' base blen pos (length xs))"
  then have i: "i < length xs" by (simp add: ring_bytes_def)
  let ?j = "base + (pos + i) mod blen"
  have "?j < length (contents m)"
    using assms by (intro less_le_trans [OF _ assms(1)]) simp
  then show "ring_bytes m' base blen pos (length xs) ! i = xs ! i"
    using assms i ring_idx_mod [of pos blen i base] by (simp add: ring_bytes_def ring_hit_def)
qed (simp add: ring_bytes_def)

end

section \<open>Plain memory and include/utils_circ.h\<close>

text \<open>\<open>memcpy\<close> from and to a buffer; \<open>None\<close> is an access outside of it.\<close>

definition memread :: "u8 list \<Rightarrow> nat \<Rightarrow> nat \<Rightarrow> u8 list option" where
  "memread b a n = (if a + n \<le> length b then Some (take n (drop a b)) else None)"

definition memwrite :: "u8 list \<Rightarrow> nat \<Rightarrow> u8 list \<Rightarrow> u8 list option" where
  "memwrite b a xs =
    (if a + length xs \<le> length b then Some (take a b @ xs @ drop (a + length xs) b) else None)"

interpretation ram: byte_store "\<lambda>b. b" memread memwrite "2 ^ 64"
  by unfold_locales (simp_all add: memread_def memwrite_def)

text \<open>
  \<open>circ_range\<close> returns the offsets (from \<open>b_base\<close>) of the first and, if the range wraps, the
  second part, with the length of the first.  \<open>size_t\<close> is 64 bits wide.
\<close>

definition circ_range :: "u64 \<Rightarrow> u64 \<Rightarrow> u64 \<Rightarrow> u64 \<times> u64 \<times> u64 option" where
  "circ_range b_len pos len =
    (if pos + len \<le> b_len then (pos, len, None) else (pos, b_len - pos, Some 0))"

definition circ_offset :: "u64 \<Rightarrow> u64 \<Rightarrow> u64 \<Rightarrow> u64" where
  "circ_offset pos len off = (let pos = pos + off in if pos \<ge> len then pos - len else pos)"

definition circ_in_interval :: "u64 \<Rightarrow> u64 \<Rightarrow> u64 \<Rightarrow> u64 \<Rightarrow> bool" where
  "circ_in_interval start fin len pos =
    (if start < fin then pos \<ge> start \<and> pos \<le> fin else pos \<ge> start \<or> pos \<le> fin)"

definition circ_read :: "u8 list \<Rightarrow> u64 \<Rightarrow> u64 \<Rightarrow> u64 \<Rightarrow> u8 list option" where
  "circ_read b b_len pos len =
    (case circ_range b_len pos len of
       (b1, l, None) \<Rightarrow> memread b (unat b1) (unat l)
     | (b1, l, Some b2) \<Rightarrow>
         (case memread b (unat b1) (unat l) of None \<Rightarrow> None
          | Some x \<Rightarrow> (case memread b (unat b2) (unat (len - l)) of None \<Rightarrow> None
            | Some y \<Rightarrow> Some (x @ y))))"

text \<open>\<open>len\<close> bytes of \<open>d\<close> are written.\<close>

definition circ_write :: "u8 list \<Rightarrow> u8 list \<Rightarrow> u64 \<Rightarrow> u64 \<Rightarrow> u64 \<Rightarrow> u8 list option" where
  "circ_write d b b_len pos len =
    (case circ_range b_len pos len of
       (b1, l, None) \<Rightarrow> memwrite b (unat b1) (take (unat l) d)
     | (b1, l, Some b2) \<Rightarrow>
         (case memwrite b (unat b1) (take (unat l) d) of None \<Rightarrow> None
          | Some b' \<Rightarrow> memwrite b' (unat b2) (take (unat (len - l)) (drop (unat l) d))))"

text \<open>
  The two halves handed out by \<open>circ_range\<close> as one object: \<open>split_write\<close> and \<open>split_read\<close>
  address them with one offset.  The \<open>assert\<close> is the first test.
\<close>

definition split_write :: "u8 list \<Rightarrow> u64 \<Rightarrow> u8 list \<Rightarrow> u64 \<Rightarrow> u8 list \<Rightarrow> u64 \<Rightarrow> u64
    \<Rightarrow> (u8 list \<times> u8 list) option res" where
  "split_write src len buf_1 len_1 buf_2 len_2 off =
    (if \<not> (len + off \<le> len_1 + len_2) then Inl Assert_fail
     else Inr (
       if off + len \<le> len_1 then
         map_option (\<lambda>b. (b, buf_2)) (memwrite buf_1 (unat off) (take (unat len) src))
       else if off \<ge> len_1 then
         map_option (\<lambda>b. (buf_1, b)) (memwrite buf_2 (unat (off - len_1)) (take (unat len) src))
       else
         let l = len_1 - off in
         (case memwrite buf_1 (unat off) (take (unat l) src) of None \<Rightarrow> None
          | Some b1 \<Rightarrow> map_option (\<lambda>b. (b1, b))
              (memwrite buf_2 0 (take (unat (len - l)) (drop (unat l) src))))))"

definition split_read :: "u64 \<Rightarrow> u8 list \<Rightarrow> u64 \<Rightarrow> u8 list \<Rightarrow> u64 \<Rightarrow> u64 \<Rightarrow> u8 list option res" where
  "split_read len buf_1 len_1 buf_2 len_2 off =
    (if \<not> (len + off \<le> len_1 + len_2) then Inl Assert_fail
     else Inr (
       if off + len \<le> len_1 then memread buf_1 (unat off) (unat len)
       else if off \<ge> len_1 then memread buf_2 (unat (off - len_1)) (unat len)
       else
         let l = len_1 - off in
         (case memread buf_1 (unat off) (unat l) of None \<Rightarrow> None
          | Some x \<Rightarrow> map_option (\<lambda>y. x @ y) (memread buf_2 0 (unat (len - l))))))"

section \<open>DMA memory (flexnic/dma.c)\<close>

text \<open>
  The shared region has \<open>FLEXNIC_DMA_MEM_SIZE\<close> bytes; here its size is the length of the byte
  list.  \<open>None\<close> is the \<open>return -1\<close> of an address range outside of the region or past \<open>2^64\<close>.
\<close>

definition dma_valid :: "u8 list \<Rightarrow> u64 \<Rightarrow> u64 \<Rightarrow> bool" where
  "dma_valid mem addr len \<longleftrightarrow> \<not> (addr + len < addr \<or> unat (addr + len) > length mem)"

definition dma_read :: "u8 list \<Rightarrow> u64 \<Rightarrow> u64 \<Rightarrow> u8 list option" where
  "dma_read mem addr len =
    (if \<not> dma_valid mem addr len then None else Some (take (unat len) (drop (unat addr) mem)))"

definition dma_write :: "u8 list \<Rightarrow> u64 \<Rightarrow> u64 \<Rightarrow> u8 list \<Rightarrow> u8 list option" where
  "dma_write mem addr len buf =
    (if \<not> dma_valid mem addr len then None
     else Some (take (unat addr) mem @ take (unat len) buf @ drop (unat addr + unat len) mem))"

definition dma_pointer :: "u8 list \<Rightarrow> u64 \<Rightarrow> u64 \<Rightarrow> u64 option" where
  "dma_pointer mem addr len = (if \<not> dma_valid mem addr len then None else Some addr)"

lemma dma_valid_nat:
  assumes "a + n \<le> length mem" and "length mem < 2 ^ 64"
  shows "dma_valid mem (of_nat a) (of_nat n)" "unat (of_nat a :: u64) = a" "unat (of_nat n :: u64) = n"
proof -
  from assms show a: "unat (of_nat a :: u64) = a" and n: "unat (of_nat n :: u64) = n"
    by (simp_all add: unat_of_nat)
  have "unat (of_nat a + of_nat n :: u64) = a + n"
    using assms by (simp add: a n unat_plus_if')
  with assms show "dma_valid mem (of_nat a) (of_nat n)"
    by (simp add: dma_valid_def word_less_nat_alt a)
qed

interpretation dma: byte_store "\<lambda>m. m" "\<lambda>m a n. dma_read m (of_nat a) (of_nat n)"
  "\<lambda>m a xs. dma_write m (of_nat a) (of_nat (length xs)) xs" "2 ^ 64"
  by unfold_locales (simp_all add: dma_read_def dma_write_def dma_valid_nat)

section \<open>Properties of the circular buffers\<close>

lemma circ_range_wraps:
  assumes "unat pos < unat b_len" "unat len \<le> unat b_len" "unat b_len < 2 ^ 63"
  shows "circ_range b_len pos len =
    (if unat pos + unat len \<le> unat b_len then (pos, len, None) else (pos, b_len - pos, Some 0))"
    and "\<not> unat pos + unat len \<le> unat b_len \<Longrightarrow> unat (b_len - pos) = unat b_len - unat pos"
    and "\<not> unat pos + unat len \<le> unat b_len \<Longrightarrow>
      unat (len - (b_len - pos)) = unat len - (unat b_len - unat pos)"
  using assms by (simp_all add: circ_range_def word_le_nat_alt unat_plus_if' unat_sub_if')

lemma circ_read_ring:
  assumes "length b = unat b_len" "unat pos < unat b_len" "unat len \<le> unat b_len" "unat b_len < 2 ^ 63"
  shows "circ_read b b_len pos len = Some (ram.ring_bytes b 0 (unat b_len) (unat pos) (unat len))"
proof (cases "unat pos + unat len \<le> unat b_len")
  case True
  then show ?thesis
    using assms ram.rd_flat [of 0 "unat b_len" b "unat pos" "unat len"]
    by (simp add: circ_read_def circ_range_wraps)
next
  case False
  then show ?thesis
    using assms ram.rd_wrapped [of 0 "unat b_len" b "unat pos" "unat len"]
    by (auto simp: circ_read_def circ_range_wraps)
qed

lemma circ_write_ring:
  assumes "length b = unat b_len" "unat pos < unat b_len" "unat len \<le> unat b_len" "unat b_len < 2 ^ 63"
    and "unat len \<le> length d"
  obtains b' where "circ_write d b b_len pos len = Some b'" "length b' = length b"
    "\<forall>j < length b. b' ! j = (if ring_hit 0 (unat b_len) (unat pos) (unat len) j
       then d ! ring_idx 0 (unat b_len) (unat pos) j else b ! j)"
proof (cases "unat pos + unat len \<le> unat b_len")
  case True
  then show thesis
    using that assms ram.wr_flat [of 0 "unat b_len" b "unat pos" "take (unat len) d"]
    by (auto simp: circ_write_def circ_range_wraps ring_hit_def)
next
  case False
  let ?l = "unat b_len - unat pos"
  have "take (unat len - ?l) (drop ?l d) = drop ?l (take (unat len) d)"
    by (simp add: drop_take)
  moreover have "take ?l (take (unat len) d) = take ?l d"
    using False by (simp add: min_absorb1)
  ultimately show thesis
    using False that assms ram.wr_wrapped [of 0 "unat b_len" b "unat pos" "take (unat len) d"]
    by (auto simp: circ_write_def circ_range_wraps ring_hit_def)
qed

text \<open>
  C6 (roundtrip): writing \<open>len\<close> bytes into a circular buffer stays inside it, and reading them
  back from the same position - across the wrap-around or not - returns them; bytes of the ring
  outside of the written range keep their value.
\<close>

theorem circ_write_read:
  assumes "length b = unat b_len" "unat pos < unat b_len" "unat len \<le> unat b_len" "unat b_len < 2 ^ 63"
    and "unat len \<le> length d"
  shows "\<exists>b'. circ_write d b b_len pos len = Some b' \<and> length b' = length b \<and>
    circ_read b' b_len pos len = Some (take (unat len) d) \<and>
    (\<forall>i. unat len \<le> i \<and> i < unat b_len \<longrightarrow>
       b' ! ((unat pos + i) mod unat b_len) = b ! ((unat pos + i) mod unat b_len))"
proof -
  obtain b' where b': "circ_write d b b_len pos len = Some b'" "length b' = length b"
    "\<forall>j < length b. b' ! j = (if ring_hit 0 (unat b_len) (unat pos) (unat len) j
       then d ! ring_idx 0 (unat b_len) (unat pos) j else b ! j)"
    using circ_write_ring [OF assms] by blast
  have len: "length (take (unat len) d) = unat len"
    using assms(5) by simp
  have "ram.ring_bytes b' 0 (unat b_len) (unat pos) (length (take (unat len) d)) = take (unat len) d"
    by (rule ram.ring_bytes_written [of 0 _ b])
       (use assms b' in \<open>auto simp: ring_hit_def\<close>)
  then have "circ_read b' b_len pos len = Some (take (unat len) d)"
    unfolding len using assms b'(2) by (simp add: circ_read_ring)
  moreover have "b' ! ((unat pos + i) mod unat b_len) = b ! ((unat pos + i) mod unat b_len)"
    if "unat len \<le> i" "i < unat b_len" for i
    using b'(3) assms that ring_idx_mod [of "unat pos" "unat b_len" i 0]
    by (simp add: ring_hit_def)
  ultimately show ?thesis
    using b'(1,2) by blast
qed

theorem circ_write_read_witness:
  "\<exists>b'. circ_write [1, 2, 3] [0, 0, 0, 9] 4 2 3 = Some b' \<and> circ_read b' 4 2 3 = Some [1, 2, 3]"
  using circ_write_read [of "[0, 0, 0, 9]" 4 2 3 "[1, 2, 3]"] by auto

text \<open>
  \<open>split_write\<close> on the two halves of a range is a write at that offset into their
  concatenation, with no access outside of either half; the sizes may not overflow \<open>size_t\<close>.
\<close>

theorem split_write_concat:
  assumes "length b1 = unat l1" "length b2 = unat l2" "unat len + unat off \<le> unat l1 + unat l2"
    and "unat l1 + unat l2 < 2 ^ 64" "unat len \<le> length src"
  shows "\<exists>c1 c2. split_write src len b1 l1 b2 l2 off = Inr (Some (c1, c2)) \<and>
    length c1 = length b1 \<and> length c2 = length b2 \<and>
    memwrite (b1 @ b2) (unat off) (take (unat len) src) = Some (c1 @ c2)"
proof -
  have ok: "len + off \<le> l1 + l2" "unat (off + len) = unat off + unat len"
    using assms by (simp_all add: word_le_nat_alt unat_plus_if')
  consider (fst) "unat off + unat len \<le> unat l1"
    | (snd) "\<not> unat off + unat len \<le> unat l1" "unat l1 \<le> unat off"
    | (both) "\<not> unat off + unat len \<le> unat l1" "\<not> unat l1 \<le> unat off" by blast
  then show ?thesis
  proof cases
    case fst
    then show ?thesis
      using assms ok by (simp add: split_write_def memwrite_def word_le_nat_alt)
  next
    case snd
    then show ?thesis
      using assms ok by (simp add: split_write_def memwrite_def word_le_nat_alt unat_sub_if')
  next
    case both
    let ?l = "unat l1 - unat off"
    have u: "unat (l1 - off) = ?l" "unat (len - (l1 - off)) = unat len - ?l"
      using both by (simp_all add: unat_sub_if')
    define t where "t = take (unat len - ?l) (drop ?l src)"
    have t: "take (unat len) src = take ?l src @ t" "length t = unat len - ?l" "length (take ?l src) = ?l"
      using both assms(5) take_add [of ?l "unat len - ?l" src] by (simp_all add: t_def)
    have t': "take (unat len + unat off - unat l1) (drop ?l src) = t"
      using both by (simp add: t_def)
    have "unat off + unat len \<le> unat l1 + length b2" "length b1 - unat off = ?l" "unat off \<le> length b1" "length t \<le> length b2" "drop (unat l1) b1 = []"
      using both assms t(2) by auto
    then show ?thesis
      using both assms(1) ok t(2,3) unfolding t(1)
      by (simp add: split_write_def memwrite_def word_le_nat_alt u Let_def t' add.commute)
  qed
qed

theorem split_write_concat_witness:
  "\<exists>c1 c2. split_write [5, 6] 2 [0, 0, 0] 3 [0, 0] 2 2 = Inr (Some (c1, c2)) \<and> c1 @ c2 = [0, 0, 5, 6, 0]"
  using split_write_concat [of "[0, 0, 0]" 3 "[0, 0]" 2 2 2 "[5, 6]"]
  by (auto simp: memwrite_def)

end
