(* ===== verification/Packets.thy ===== *)
theory Packets
  imports Prelude
begin

unbundle bit_operations_syntax

text \<open>
  Packets as the fast path sees them (include/packet_defs.h, include/utils.h) and the TCP option
  scan of flexnic/tcp_common.h.  A packet is a record of its fixed Ethernet, IPv4 and TCP header
  fields, with multi-byte fields in host order (what \<open>f_beui16\<close>/\<open>f_beui32\<close> read), followed by
  the bytes of the buffer behind the 54 header bytes (\<open>p + 1\<close> in the code).
\<close>

section \<open>Byte order\<close>

text \<open>A 32-bit big-endian value in a byte list, most significant byte first.\<close>

definition be32_bytes :: "u32 \<Rightarrow> u8 list" where
  "be32_bytes x = [ucast (drop_bit 24 x), ucast (drop_bit 16 x), ucast (drop_bit 8 x), ucast x]"

definition be32_of :: "u8 list \<Rightarrow> u32" where
  "be32_of bs = (case bs of
     [a, b, c, d] \<Rightarrow> push_bit 24 (ucast a) OR push_bit 16 (ucast b) OR push_bit 8 (ucast c) OR ucast d
   | _ \<Rightarrow> 0)"

lemma be32_of_bytes [simp]: "be32_of (be32_bytes x) = x"
proof (rule bit_word_eqI)
  fix n assume "n < LENGTH(32)"
  consider "n < 8" | "8 \<le> n" "n < 16" | "16 \<le> n" "n < 24" | "24 \<le> n" by linarith
  then show "bit (be32_of (be32_bytes x)) n = bit x n"
    using \<open>n < LENGTH(32)\<close>
    by cases (auto simp: be32_of_def be32_bytes_def bit_or_iff bit_push_bit_iff bit_drop_bit_eq
        bit_ucast_iff)
qed

lemma length_be32_bytes [simp]: "length (be32_bytes x) = 4"
  by (simp add: be32_bytes_def)

section \<open>Headers\<close>

record pkt_tcp =
  eth_dest :: "48 word"
  eth_src :: "48 word"
  eth_type :: u16
  ip_v_hl :: u8
  ip_tos :: u8
  ip_len :: u16
  ip_id :: u16
  ip_offset :: u16
  ip_ttl :: u8
  ip_proto :: u8
  ip_chksum :: u16
  ip_src :: u32
  ip_dest :: u32
  tcp_src :: u16
  tcp_dest :: u16
  tcp_seqno :: u32
  tcp_ackno :: u32
  tcp_hdrlen_flags :: u16
  tcp_wnd :: u16
  tcp_chksum :: u16
  tcp_urgp :: u16
  pbody :: "u8 list"

abbreviation ETH_TYPE_IP :: u16 where "ETH_TYPE_IP \<equiv> 0x0800"
abbreviation IP_PROTO_TCP :: u8 where "IP_PROTO_TCP \<equiv> 6"
abbreviation TCP_FIN :: u16 where "TCP_FIN \<equiv> 0x01"
abbreviation TCP_SYN :: u16 where "TCP_SYN \<equiv> 0x02"
abbreviation TCP_RST :: u16 where "TCP_RST \<equiv> 0x04"
abbreviation TCP_PSH :: u16 where "TCP_PSH \<equiv> 0x08"
abbreviation TCP_ACK :: u16 where "TCP_ACK \<equiv> 0x10"
abbreviation TCP_ECE :: u16 where "TCP_ECE \<equiv> 0x40"
abbreviation TCP_CWR :: u16 where "TCP_CWR \<equiv> 0x80"
abbreviation IP_ECN_NONE :: u8 where "IP_ECN_NONE \<equiv> 0"
abbreviation IP_ECN_ECT0 :: u8 where "IP_ECN_ECT0 \<equiv> 2"
abbreviation IP_ECN_CE :: u8 where "IP_ECN_CE \<equiv> 3"

text \<open>\<open>sizeof(struct pkt_tcp)\<close>, \<open>sizeof(struct eth_hdr)\<close> and \<open>sizeof(struct tcp_timestamp_opt)\<close>.\<close>

abbreviation PKT_TCP_SZ :: nat where "PKT_TCP_SZ \<equiv> 54"
abbreviation ETH_HDR_SZ :: nat where "ETH_HDR_SZ \<equiv> 14"
abbreviation TS_OPT_SZ :: nat where "TS_OPT_SZ \<equiv> 10"
abbreviation MSS_OPT_SZ :: nat where "MSS_OPT_SZ \<equiv> 4"

definition IPH_V :: "pkt_tcp \<Rightarrow> u8" where
  "IPH_V p = drop_bit 4 (ip_v_hl p)"

definition IPH_HL :: "pkt_tcp \<Rightarrow> u8" where
  "IPH_HL p = ip_v_hl p AND 0x0f"

definition IPH_ECN :: "pkt_tcp \<Rightarrow> u8" where
  "IPH_ECN p = ip_tos p AND 3"

definition IPH_ECN_SET :: "u8 \<Rightarrow> u8 \<Rightarrow> u8" where
  "IPH_ECN_SET tos e = (tos AND 0xfc) OR e"

definition TCPH_HDRLEN :: "pkt_tcp \<Rightarrow> nat" where
  "TCPH_HDRLEN p = unat (drop_bit 12 (tcp_hdrlen_flags p))"

definition TCPH_FLAGS :: "pkt_tcp \<Rightarrow> u16" where
  "TCPH_FLAGS p = tcp_hdrlen_flags p AND 0x1ff"

definition TCPH_HDRLEN_FLAGS :: "nat \<Rightarrow> u16 \<Rightarrow> u16" where
  "TCPH_HDRLEN_FLAGS len flags = push_bit 12 (of_nat len) OR flags"

lemma TCPH_HDRLEN_bound: "TCPH_HDRLEN p < 16"
  using unsigned_less [of "tcp_hdrlen_flags p", where 'a = nat]
  by (simp add: TCPH_HDRLEN_def drop_bit_eq_div unat_div)

section \<open>TCP options\<close>

text \<open>
  \<open>struct tcp_opts\<close> holds a pointer to the timestamp option; here its offset in the bytes behind
  the fixed headers.  \<open>tcp_parse_opt_loop\<close> is the \<open>while\<close> loop, one unit of fuel per iteration:
  \<open>None\<close> is "still running", \<open>Some None\<close> the \<open>return -1\<close>, \<open>Some (Some ts)\<close> success.
  \<open>off\<close> is a \<open>uint16_t\<close> and \<open>opt_avail\<close> a \<open>uint8_t\<close>; with at most 40 option bytes and option
  lengths below 256 neither wraps, so both are naturals.
\<close>

fun tcp_parse_opt_loop :: "nat \<Rightarrow> u8 list \<Rightarrow> nat \<Rightarrow> nat \<Rightarrow> nat option \<Rightarrow> nat option option option" where
  "tcp_parse_opt_loop 0 opt opts_len off ts = None"
| "tcp_parse_opt_loop (Suc fuel) opt opts_len off ts =
    (if off < opts_len then
       let opt_kind = opt ! off; opt_avail = opts_len - off in
       if opt_kind = 0 then Some (Some ts)
       else if opt_kind = 1 then tcp_parse_opt_loop fuel opt opts_len (off + 1) ts
       else if opt_avail < 2 then Some None
       else
         let opt_len = unat (opt ! (off + 1)) in
         if opt_kind = 8 then
           if opt_len \<noteq> TS_OPT_SZ then Some None
           else tcp_parse_opt_loop fuel opt opts_len (off + opt_len) (Some off)
         else tcp_parse_opt_loop fuel opt opts_len (off + opt_len) ts
     else Some (Some ts))"

definition tcp_parse_options :: "nat \<Rightarrow> pkt_tcp \<Rightarrow> u16 \<Rightarrow> nat option option option" where
  "tcp_parse_options fuel p len =
    (let opts_len = TCPH_HDRLEN p * 4 - 20 in
     if TCPH_HDRLEN p < 5 \<or> of_nat opts_len > (ucast len - of_nat PKT_TCP_SZ :: u64) then Some None
     else tcp_parse_opt_loop fuel (pbody p) opts_len 0 None)"

text \<open>One iteration returns, or advances, or does not move and then repeats forever.\<close>

lemma tcp_parse_opt_loop_step:
  obtains (stop) r where "\<And>f. tcp_parse_opt_loop (Suc f) opt opts_len off ts = Some r"
  | (stall) "\<And>f. tcp_parse_opt_loop (Suc f) opt opts_len off ts = tcp_parse_opt_loop f opt opts_len off ts"
  | (adv) off' ts' where "off < off'" "off < opts_len"
      "\<And>f. tcp_parse_opt_loop (Suc f) opt opts_len off ts = tcp_parse_opt_loop f opt opts_len off' ts'"
proof (cases "off < opts_len \<and> opt ! off \<noteq> 0 \<and> (opt ! off \<noteq> 1 \<longrightarrow> 2 \<le> opts_len - off) \<and>
    (opt ! off = 8 \<longrightarrow> unat (opt ! (off + 1)) = TS_OPT_SZ)")
  case False
  then show thesis
    by (intro stop [of "if off < opts_len \<and> opt ! off \<noteq> 0 then None else Some ts"]) (auto simp: Let_def)
next
  case True
  let ?l = "if opt ! off = 1 then 1 else unat (opt ! (off + 1))"
  let ?ts = "if opt ! off = 8 then Some off else ts"
  have eq: "tcp_parse_opt_loop (Suc f) opt opts_len off ts = tcp_parse_opt_loop f opt opts_len (off + ?l) ?ts" for f
    using True by (auto simp: Let_def)
  show thesis
  proof (cases "?l = 0")
    case True
    with \<open>off < opts_len \<and> _\<close> have "?ts = ts" by auto
    with eq True show thesis by (intro stall) (simp del: tcp_parse_opt_loop.simps)
  next
    case False
    with eq \<open>off < opts_len \<and> _\<close> show thesis by (intro adv [of "off + ?l" ?ts]) auto
  qed
qed

lemma tcp_parse_opt_loop_None:
  assumes "tcp_parse_opt_loop fuel opt opts_len off ts = None" and "opts_len - off < fuel"
  shows "tcp_parse_opt_loop fuel' opt opts_len off ts = None"
  using assms
proof (induction fuel arbitrary: off ts fuel')
  case 0
  then show ?case by simp
next
  case (Suc fuel)
  show ?case
  proof (cases rule: tcp_parse_opt_loop_step [of opt opts_len off ts])
    case (stop r)
    with Suc.prems(1) show ?thesis by (metis option.distinct(1))
  next
    case stall
    show ?thesis
    proof (induction fuel')
      case (Suc f)
      then show ?case unfolding stall .
    qed simp
  next
    case (adv off' ts')
    from Suc.prems(1) have "tcp_parse_opt_loop fuel opt opts_len off' ts' = None"
      unfolding adv(3) .
    moreover have "opts_len - off' < fuel"
      using adv(1,2) Suc.prems(2) by linarith
    ultimately have "tcp_parse_opt_loop f opt opts_len off' ts' = None" for f
      by (rule Suc.IH)
    then show ?thesis
      by (cases fuel') (simp, simp only: adv(3))
  qed
qed

text \<open>
  The option area has at most 40 bytes, so 41 iterations decide the scan: if it
  has not finished by then it never does.
\<close>

lemma tcp_parse_options_fuel:
  "tcp_parse_options 41 p len = None \<longleftrightarrow> (\<forall>fuel. tcp_parse_options fuel p len = None)"
proof
  assume *: "tcp_parse_options 41 p len = None"
  have "TCPH_HDRLEN p * 4 - 20 - 0 < 41"
    using TCPH_HDRLEN_bound [of p] by linarith
  with * show "\<forall>fuel. tcp_parse_options fuel p len = None"
    unfolding tcp_parse_options_def Let_def
    by (auto simp del: tcp_parse_opt_loop.simps intro: tcp_parse_opt_loop_None split: if_splits)
qed simp

lemma tcp_parse_opt_loop_stalled:
  assumes "off < opts_len" and "opt ! off \<notin> {0, 1, 8}" and "2 \<le> opts_len - off" and "opt ! (off + 1) = 0"
  shows "tcp_parse_opt_loop fuel opt opts_len off ts = None"
  using assms by (induction fuel) (auto simp: Let_def)

text \<open>
  C5 (liveness): an option other than end, no-op and timestamp whose length byte is 0 stops the
  scan's progress: \<open>tcp_parse_options\<close> does not return on such a packet, whatever the fuel.
\<close>

theorem tcp_parse_options_hang:
  assumes "6 \<le> TCPH_HDRLEN p" and "PKT_TCP_SZ + 40 \<le> unat len"
    and "pbody p ! 0 \<notin> {0, 1, 8}" and "pbody p ! 1 = 0"
  shows "tcp_parse_options fuel p len = None"
proof -
  have "TCPH_HDRLEN p * 4 - 20 \<le> 40"
    using TCPH_HDRLEN_bound [of p] by linarith
  moreover have "unat (ucast len - 54 :: u64) = unat len - 54"
    using assms(2) by (simp add: unat_sub word_le_nat_alt unsigned_ucast_eq take_bit_nat_eq_self
        less_trans [OF unat_u16_bound])
  ultimately have "\<not> of_nat (TCPH_HDRLEN p * 4 - 20) > (ucast len - of_nat PKT_TCP_SZ :: u64)"
    using assms(2) by (simp add: word_less_nat_alt unat_of_nat)
  with assms show ?thesis
    by (simp add: tcp_parse_options_def Let_def tcp_parse_opt_loop_stalled)
qed

definition pkt_zero :: pkt_tcp where
  "pkt_zero = \<lparr>eth_dest = 0, eth_src = 0, eth_type = 0, ip_v_hl = 0, ip_tos = 0, ip_len = 0, ip_id = 0,
     ip_offset = 0, ip_ttl = 0, ip_proto = 0, ip_chksum = 0, ip_src = 0, ip_dest = 0, tcp_src = 0,
     tcp_dest = 0, tcp_seqno = 0, tcp_ackno = 0, tcp_hdrlen_flags = 0, tcp_wnd = 0, tcp_chksum = 0,
     tcp_urgp = 0, pbody = []\<rparr>"

theorem tcp_parse_options_hang_witness:
  "tcp_parse_options 1000 (pkt_zero\<lparr>tcp_hdrlen_flags := TCPH_HDRLEN_FLAGS 6 TCP_ACK,
     pbody := [2, 0, 0, 0] @ replicate 40 7\<rparr>) 98 = None"
  using tcp_parse_options_hang [of "pkt_zero\<lparr>tcp_hdrlen_flags := TCPH_HDRLEN_FLAGS 6 TCP_ACK,
     pbody := [2, 0, 0, 0] @ replicate 40 7\<rparr>" 98 1000]
  by (simp add: TCPH_HDRLEN_def TCPH_HDRLEN_FLAGS_def pkt_zero_def)

end
