(* ===== verification/TcpCommon.thy ===== *)
theory TcpCommon
  imports Prelude
begin

text \<open>
  The fast path's view of a flow (\<open>struct flextcp_pl_flowst\<close> of include/flextcp_plif.h), the
  packet formats of include/packet_defs.h and the helpers of flexnic/tcp_common.h that decide
  what a segment means for a flow: which payload bytes fit the receive window, whether an
  acknowledgement is acceptable, how much may be sent, and where the TCP options are.
\<close>

section \<open>Flow state\<close>

text \<open>
  \<open>beui16_t\<close>/\<open>beui32_t\<close> fields hold the value that \<open>f_beui16\<close>/\<open>f_beui32\<close> read from them.
  The spin lock word is left out: every operation below is one critical section.
\<close>

record flowst =
  opaque :: u64
  rx_base_sp :: u64
  tx_base :: u64
  rx_len :: u32
  tx_len :: u32
  qman_qid :: u32
  local_ip :: u32
  remote_ip :: u32
  local_port :: u16
  remote_port :: u16
  remote_mac :: "48 word"
  db_id :: u16
  flow_group :: u32
  rx_avail :: u32
  rx_next_pos :: u32
  rx_next_seq :: u32
  rx_remote_avail :: u32
  rx_objrem :: u32
  rx_dupack_cnt :: u32
  rx_ooo_start :: u32
  rx_ooo_len :: u32
  tx_sent :: u32
  tx_next_pos :: u32
  tx_next_seq :: u32
  tx_head :: u32
  tx_objrem :: u32
  tx_next_ts :: u32
  bump_seq :: u32
  tx_rate :: u32
  cnt_tx_drops :: u32
  cnt_rx_acks :: u32
  cnt_rx_ack_bytes :: u32
  cnt_rx_ecn :: u32
  rtt_est :: u32

text \<open>A zeroed flow state: the NIC memory is mapped zero-filled.\<close>

definition flowst_zero :: flowst where
  "flowst_zero = \<lparr>opaque = 0, rx_base_sp = 0, tx_base = 0, rx_len = 0, tx_len = 0, qman_qid = 0,
     local_ip = 0, remote_ip = 0, local_port = 0, remote_port = 0, remote_mac = 0, db_id = 0,
     flow_group = 0, rx_avail = 0, rx_next_pos = 0, rx_next_seq = 0, rx_remote_avail = 0,
     rx_objrem = 0, rx_dupack_cnt = 0, rx_ooo_start = 0, rx_ooo_len = 0, tx_sent = 0,
     tx_next_pos = 0, tx_next_seq = 0, tx_head = 0, tx_objrem = 0, tx_next_ts = 0, bump_seq = 0,
     tx_rate = 0, cnt_tx_drops = 0, cnt_rx_acks = 0, cnt_rx_ack_bytes = 0, cnt_rx_ecn = 0,
     rtt_est = 0\<rparr>"

section \<open>Receive window\<close>

definition tcp_valid_rxseq :: "flowst \<Rightarrow> u32 \<Rightarrow> u16 \<Rightarrow> (u16 \<times> u16) option" where
  "tcp_valid_rxseq fs pkt_seq pkt_bytes =
    (let pseq_a = pkt_seq; pseq_b = pkt_seq + ucast pkt_bytes;
         sseq_a = rx_next_seq fs; sseq_b = rx_next_seq fs + rx_avail fs in
     if pseq_a \<le> pseq_b \<and> sseq_a \<le> sseq_b then
       if pseq_b < sseq_a then None
       else if pseq_a > sseq_a then None
       else Some (ucast (sseq_a - pseq_a), (if pseq_b > sseq_b then ucast (pseq_b - sseq_b) else 0))
     else if pseq_a \<le> pseq_b \<and> sseq_a > sseq_b then
       if pseq_a \<ge> sseq_b \<and> pseq_b < sseq_a then None
       else if pseq_a > sseq_a \<or> pseq_a < sseq_b then None
       else Some (ucast (sseq_a - pseq_a), 0)
     else if pseq_a > pseq_b \<and> sseq_a \<le> sseq_b then
       if pseq_b < sseq_a then None
       else if pseq_a > sseq_a then None
       else Some (ucast (sseq_a - pseq_a), (if pseq_b > sseq_b then ucast (pseq_b - sseq_b) else 0))
     else
       if pseq_a > sseq_a then None
       else Some (ucast (sseq_a - pseq_a), (if pseq_b > sseq_b then ucast (pseq_b - sseq_b) else 0)))"

definition tcp_trim_rxbuf :: "flowst \<Rightarrow> u32 \<Rightarrow> u16 \<Rightarrow> (u16 \<times> u16) option" where
  "tcp_trim_rxbuf fs pkt_seq pkt_bytes =
    (let pseq_a = pkt_seq; pseq_b = pkt_seq + ucast pkt_bytes;
         sseq_a = rx_next_seq fs; sseq_b = rx_next_seq fs + rx_avail fs in
     if pseq_a \<le> pseq_b \<and> sseq_a \<le> sseq_b then
       if pseq_b < sseq_a then None
       else if pseq_a > sseq_b then None
       else Some ((if pseq_a < sseq_a then ucast (sseq_a - pseq_a) else 0),
                  (if pseq_b > sseq_b then ucast (pseq_b - sseq_b) else 0))
     else if pseq_a \<le> pseq_b \<and> sseq_a > sseq_b then
       if pseq_a > sseq_b \<and> pseq_b < sseq_a then None
       else Some ((if pseq_a > sseq_b \<and> pseq_a < sseq_a then ucast (sseq_a - pseq_a) else 0),
                  (if pseq_b \<ge> sseq_b \<and> pseq_b < sseq_a then ucast (pseq_b - sseq_b) else 0))
     else if pseq_a > pseq_b \<and> sseq_a \<le> sseq_b then
       if pseq_a > sseq_b \<and> pseq_b < sseq_a then None
       else Some ((if sseq_a \<le> pseq_b \<or> sseq_a > pseq_a then ucast (sseq_a - pseq_a) else 0),
                  (if pseq_b > sseq_b \<or> sseq_a \<ge> pseq_a then ucast (pseq_b - sseq_b) else 0))
     else
       Some ((if pseq_a < sseq_a then ucast (sseq_a - pseq_a) else 0),
             (if pseq_b > sseq_b then ucast (pseq_b - sseq_b) else 0)))"

section \<open>Acknowledgements and transmit window\<close>

text \<open>\<open>ALLOW_FUTURE_ACKS\<close> is defined, so the unsent bytes of the send buffer count too.\<close>

definition tcp_valid_rxack :: "flowst \<Rightarrow> u32 \<Rightarrow> u32 option" where
  "tcp_valid_rxack fs ack =
    (let fsack_a = tx_next_seq fs - tx_sent fs;
         fsack_b = tx_next_seq fs +
           (if tx_next_pos fs \<le> tx_head fs then tx_head fs - tx_next_pos fs
            else tx_head fs - tx_next_pos fs + tx_len fs) in
     if fsack_a \<le> fsack_b then
       if ack < fsack_a \<or> ack > fsack_b then None else Some (ack - fsack_a)
     else
       if fsack_a > ack \<and> ack > fsack_b then None else Some (ack - fsack_a))"

definition tcp_txavail :: "flowst \<Rightarrow> u32 option \<Rightarrow> u32" where
  "tcp_txavail fs phead =
    (let head = (case phead of Some h \<Rightarrow> h | None \<Rightarrow> tx_head fs);
         buf_avail = (if tx_next_pos fs \<le> head then head - tx_next_pos fs
                      else tx_len fs - tx_next_pos fs + head);
         fc_avail = rx_remote_avail fs - tx_sent fs in
     (if fc_avail < buf_avail then fc_avail else buf_avail))"



definition in_rx_window :: "flowst \<Rightarrow> u32 \<Rightarrow> bool" where
  "in_rx_window fs seq \<longleftrightarrow> seq - rx_next_seq fs < rx_avail fs"

definition trim_rxbuf_defect :: "flowst \<Rightarrow> u32 \<Rightarrow> u16 \<Rightarrow> bool" where
  "trim_rxbuf_defect fs pkt_seq pkt_bytes \<longleftrightarrow>
     pkt_seq + ucast pkt_bytes < pkt_seq \<and> rx_next_seq fs \<le> rx_next_seq fs + rx_avail fs \<and>
     rx_next_seq fs < pkt_seq \<and> pkt_seq \<le> rx_next_seq fs + rx_avail fs"

lemma in_rx_window_nat:
  "in_rx_window fs x \<longleftrightarrow>
    (if unat (rx_next_seq fs) + unat (rx_avail fs) < 4294967296
     then unat (rx_next_seq fs) \<le> unat x \<and> unat x < unat (rx_next_seq fs) + unat (rx_avail fs)
     else unat (rx_next_seq fs) \<le> unat x \<or>
          unat x < unat (rx_next_seq fs) + unat (rx_avail fs) - 4294967296)"
  using unat_u32_bound [of x] unat_u32_bound [of "rx_next_seq fs"] unat_u32_bound [of "rx_avail fs"]
  by (simp only: in_rx_window_def word_less_nat_alt unat_u32_sub split: if_split) linarith

lemmas trim_nat = in_rx_window_nat trim_rxbuf_defect_def tcp_trim_rxbuf_def Let_def u32_nat

text \<open>
  The four combinations of "packet wraps" and "window wraps" are the four branches of the code.
\<close>

lemma trim_rxbuf_byte:
  fixes a n s v i :: nat
  assumes n: "n < 65536" "i < n" and v: "v \<le> 4294901760"
    and lt: "a < 4294967296" "s < 4294967296"
    and u: "unat pkt_seq = a" "unat pkt_bytes = n" "unat (rx_next_seq fs) = s"
      "unat (rx_avail fs) = v" "unat (of_nat i :: u32) = i"
    and ok: "\<not> trim_rxbuf_defect fs pkt_seq pkt_bytes"
  shows "(case tcp_trim_rxbuf fs pkt_seq pkt_bytes of
       None \<Rightarrow> \<not> in_rx_window fs (pkt_seq + of_nat i)
     | Some (ts, te) \<Rightarrow> (unat ts \<le> i \<and> i < unat pkt_bytes - unat te)
         \<longleftrightarrow> in_rx_window fs (pkt_seq + of_nat i))"
proof (cases "a + n < 4294967296"; cases "s + v < 4294967296")
  assume "a + n < 4294967296" "s + v < 4294967296"
  with n u show ?thesis
    by (simp add: trim_nat) linarith
next
  assume "a + n < 4294967296" "\<not> s + v < 4294967296"
  with n v lt u show ?thesis
    by (simp add: trim_nat) linarith
next
  assume c: "\<not> a + n < 4294967296" "s + v < 4294967296"
  consider "s \<le> a + n - 4294967296" | "a + n - 4294967296 < s" "a < s"
    | "a + n - 4294967296 < s" "s \<le> a" by linarith
  then show ?thesis
    by cases (use n v lt u ok c in \<open>simp add: trim_nat, (intro conjI impI; linarith)\<close>)+
next
  assume "\<not> a + n < 4294967296" "\<not> s + v < 4294967296"
  with n v lt u show ?thesis
    by (simp add: trim_nat) linarith
qed

lemma trim_rxbuf_sum:
  fixes a n s v :: nat
  assumes n: "n < 65536" and v: "v \<le> 4294901760"
    and lt: "a < 4294967296" "s < 4294967296"
    and u: "unat pkt_seq = a" "unat pkt_bytes = n" "unat (rx_next_seq fs) = s" "unat (rx_avail fs) = v"
    and r: "tcp_trim_rxbuf fs pkt_seq pkt_bytes = Some (ts, te)"
  shows "unat ts + unat te \<le> unat pkt_bytes"
proof (cases "a + n < 4294967296"; cases "s + v < 4294967296")
  assume "a + n < 4294967296" "s + v < 4294967296"
  with n u r show ?thesis
    by (auto simp: trim_nat split: if_splits)
next
  assume "a + n < 4294967296" "\<not> s + v < 4294967296"
  with n v lt u r show ?thesis
    by (auto simp: trim_nat split: if_splits)
next
  assume c: "\<not> a + n < 4294967296" "s + v < 4294967296"
  consider "s \<le> a + n - 4294967296" | "a + n - 4294967296 < s" "a < s"
    | "a + n - 4294967296 < s" "s \<le> a" by linarith
  then show ?thesis
    by cases (use n v lt u r c in \<open>auto simp: trim_nat split: if_splits\<close>)+
next
  assume "\<not> a + n < 4294967296" "\<not> s + v < 4294967296"
  with n v lt u r show ?thesis
    by (auto simp: trim_nat split: if_splits)
qed

text \<open>
  C1 (functional): on a receive window of at most \<open>2^32 - 2^16\<close> bytes, outside the one defective
  case, \<open>tcp_trim_rxbuf\<close> keeps exactly the payload bytes whose sequence numbers lie in the window:
  a byte survives both trims iff it is in the window, and a segment is dropped only if none is.
\<close>

theorem tcp_trim_rxbuf_exact:
  assumes "rx_avail fs \<le> 0xFFFF0000" and "\<not> trim_rxbuf_defect fs pkt_seq pkt_bytes"
  shows "case tcp_trim_rxbuf fs pkt_seq pkt_bytes of
      None \<Rightarrow> \<forall>i < unat pkt_bytes. \<not> in_rx_window fs (pkt_seq + of_nat i)
    | Some (ts, te) \<Rightarrow> unat ts + unat te \<le> unat pkt_bytes \<and>
        (\<forall>i < unat pkt_bytes. (unat ts \<le> i \<and> i < unat pkt_bytes - unat te)
           \<longleftrightarrow> in_rx_window fs (pkt_seq + of_nat i))"
proof -
  have b: "unat pkt_bytes < 65536" "unat (rx_avail fs) \<le> 4294901760"
    "unat pkt_seq < 4294967296" "unat (rx_next_seq fs) < 4294967296"
    using assms(1) by (simp_all add: word_le_nat_alt unat_u16_bound unat_u32_bound)
  have byte: "case tcp_trim_rxbuf fs pkt_seq pkt_bytes of
       None \<Rightarrow> \<not> in_rx_window fs (pkt_seq + of_nat i)
     | Some (ts, te) \<Rightarrow> (unat ts \<le> i \<and> i < unat pkt_bytes - unat te)
         \<longleftrightarrow> in_rx_window fs (pkt_seq + of_nat i)" if "i < unat pkt_bytes" for i
    using trim_rxbuf_byte [OF b(1) that b(2-4) refl refl refl refl _ assms(2)] that b(1)
    by (simp add: unat_of_nat)
  show ?thesis
    using byte trim_rxbuf_sum [OF b refl refl refl refl] by (fastforce split: option.splits)
qed

theorem tcp_trim_rxbuf_exact_witness:
  "let fs = flowst_zero\<lparr>rx_next_seq := 0xFFFFFFF0, rx_avail := 64\<rparr> in
   tcp_trim_rxbuf fs 0xFFFFFFE6 20 = Some (10, 0) \<and>
   (\<forall>i < 20. (10 \<le> i \<and> i < 20) \<longleftrightarrow> in_rx_window fs (0xFFFFFFE6 + of_nat i))"
  using tcp_trim_rxbuf_exact [of "flowst_zero\<lparr>rx_next_seq := 0xFFFFFFF0, rx_avail := 64\<rparr>" "0xFFFFFFE6" 20]
  by (simp add: tcp_trim_rxbuf_def trim_rxbuf_defect_def flowst_zero_def)

text \<open>
  C2 (safety): in the remaining case - a segment that starts inside a window which ends below
  \<open>2^32\<close> and itself crosses \<open>2^32\<close> - nothing is trimmed although the segment's last byte is
  outside the window, so its payload reaches past the space the application has freed.
\<close>

theorem tcp_trim_rxbuf_overrun:
  assumes "rx_avail fs \<le> 0xFFFF0000" and "trim_rxbuf_defect fs pkt_seq pkt_bytes"
  shows "tcp_trim_rxbuf fs pkt_seq pkt_bytes = Some (0, 0) \<and>
    \<not> in_rx_window fs (pkt_seq + ucast pkt_bytes - 1)"
proof -
  define a where "a = unat pkt_seq"
  define n where "n = unat pkt_bytes"
  define s where "s = unat (rx_next_seq fs)"
  define v where "v = unat (rx_avail fs)"
  note d = a_def [symmetric] n_def [symmetric] s_def [symmetric] v_def [symmetric]
  have b: "a < 4294967296" "s < 4294967296" "n < 65536" "v \<le> 4294901760"
    using assms(1) unat_u32_bound [of pkt_seq] unat_u32_bound [of "rx_next_seq fs"]
      unat_u16_bound [of pkt_bytes] by (simp_all add: d word_le_nat_alt)
  from assms(2) b have w: "\<not> a + n < 4294967296" "s + v < 4294967296" "s < a" "a \<le> s + v"
    by (auto simp: trim_rxbuf_defect_def u32_nat d split: if_splits)
  define x where "x = pkt_seq + ucast pkt_bytes - 1"
  have "unat x = (if a + n = 4294967296 then 4294967295 else a + n - 4294967297)"
    using b w by (auto simp: x_def u32_nat d)
  then have "\<not> in_rx_window fs x"
    using b w by (auto simp: in_rx_window_nat d)
  moreover have "tcp_trim_rxbuf fs pkt_seq pkt_bytes = Some (0, 0)"
    using b w by (auto simp: tcp_trim_rxbuf_def Let_def u32_nat d)
  ultimately show ?thesis
    by (simp add: x_def)
qed

theorem tcp_trim_rxbuf_overrun_witness:
  "let fs = flowst_zero\<lparr>rx_next_seq := 0xFFFFFF00, rx_avail := 0x80\<rparr> in
   tcp_trim_rxbuf fs 0xFFFFFF40 0x100 = Some (0, 0) \<and> \<not> in_rx_window fs (0xFFFFFF40 + 0x100 - 1)"
  using tcp_trim_rxbuf_overrun
    [of "flowst_zero\<lparr>rx_next_seq := 0xFFFFFF00, rx_avail := 0x80\<rparr>" "0xFFFFFF40" "0x100"]
  by (simp add: trim_rxbuf_defect_def flowst_zero_def)

definition tx_unsent :: "flowst \<Rightarrow> u32" where
  "tx_unsent fs = (if tx_next_pos fs \<le> tx_head fs then tx_head fs - tx_next_pos fs
                   else tx_head fs - tx_next_pos fs + tx_len fs)"

lemma valid_rxack_dist:
  "tcp_valid_rxack fs ack =
    (let d = ack - (tx_next_seq fs - tx_sent fs) in if d \<le> tx_sent fs + tx_unsent fs then Some d else None)"
proof -
  let ?a = "tx_next_seq fs - tx_sent fs" and ?b = "tx_next_seq fs + tx_unsent fs"
  have "tcp_valid_rxack fs ack =
      (if (if ?a \<le> ?b then ?a \<le> ack \<and> ack \<le> ?b else ?a \<le> ack \<or> ack \<le> ?b)
       then Some (ack - ?a) else None)"
    by (auto simp: tcp_valid_rxack_def tx_unsent_def Let_def)
  moreover have "?b - ?a = tx_sent fs + tx_unsent fs"
    by (simp add: algebra_simps)
  ultimately show ?thesis
    by (simp add: word_interval_iff)
qed

text \<open>
  C3 (equivalence): the split-interval test of \<open>tcp_valid_rxack\<close> accepts an acknowledgement
  exactly when it lies at most (sent + unsent buffered) bytes after the oldest unacknowledged
  byte, modulo \<open>2^32\<close>, and reports that distance as the bump.
\<close>

theorem tcp_valid_rxack_iff:
  "tcp_valid_rxack fs ack = Some bump \<longleftrightarrow>
     bump = ack - (tx_next_seq fs - tx_sent fs) \<and> bump \<le> tx_sent fs + tx_unsent fs"
  by (auto simp: valid_rxack_dist Let_def)

text \<open>The unsent part of a send ring, from the next position to the head.\<close>

lemma ring_dist_nat:
  fixes pos head len :: u32
  assumes "pos < len" and "head < len"
  shows "unat (if pos \<le> head then head - pos else len - pos + head) =
    (unat head + unat len - unat pos) mod unat len"
  using assms unat_u32_bound [of len]
  by (auto simp: u32_nat mod_if)

lemma unat_tcp_txavail:
  "unat (tcp_txavail fs None) =
    min (unat (if tx_next_pos fs \<le> tx_head fs then tx_head fs - tx_next_pos fs
               else tx_len fs - tx_next_pos fs + tx_head fs))
        (unat (rx_remote_avail fs - tx_sent fs))"
  by (auto simp: tcp_txavail_def Let_def word_less_nat_alt)

text \<open>
  C4 (bounds): with the ring positions inside the send buffer and no more data in flight than
  the peer's window, \<open>tcp_txavail\<close> is the smaller of the unsent ring distance and the unused
  part of the window.
\<close>

theorem tcp_txavail_min:
  assumes "tx_next_pos fs < tx_len fs" and "tx_head fs < tx_len fs"
    and "tx_sent fs \<le> rx_remote_avail fs"
  shows "unat (tcp_txavail fs None) =
    min ((unat (tx_head fs) + unat (tx_len fs) - unat (tx_next_pos fs)) mod unat (tx_len fs))
        (unat (rx_remote_avail fs) - unat (tx_sent fs))"
  unfolding unat_tcp_txavail ring_dist_nat [OF assms(1,2)]
  using assms(3) by (simp add: u32_nat)

theorem tcp_txavail_min_witness:
  "unat (tcp_txavail (flowst_zero\<lparr>tx_len := 16, tx_next_pos := 12, tx_head := 3,
      tx_sent := 2, rx_remote_avail := 100\<rparr>) None) = 7"
  using tcp_txavail_min [of "flowst_zero\<lparr>tx_len := 16, tx_next_pos := 12, tx_head := 3,
      tx_sent := 2, rx_remote_avail := 100\<rparr>"]
  by (simp add: flowst_zero_def)

text \<open>
  The subtraction \<open>rx_remote_avail - tx_sent\<close> is unsigned.  Once the peer has shrunk
  its window below the data in flight, the flow-control term is at least \<open>2^32\<close> minus the data in
  flight, so it no longer limits the sender: the whole ring content becomes sendable.
\<close>

theorem tcp_txavail_window_shrunk:
  assumes "tx_next_pos fs < tx_len fs" and "tx_head fs < tx_len fs"
    and "tx_len fs \<le> 0x80000000" and "tx_sent fs \<le> 0x80000000"
    and "rx_remote_avail fs < tx_sent fs"
  shows "unat (tcp_txavail fs None) =
    (unat (tx_head fs) + unat (tx_len fs) - unat (tx_next_pos fs)) mod unat (tx_len fs)"
proof -
  let ?d = "(unat (tx_head fs) + unat (tx_len fs) - unat (tx_next_pos fs)) mod unat (tx_len fs)"
  have "?d < unat (tx_len fs)"
    using assms(1) by (intro mod_less_divisor) (simp add: word_less_nat_alt)
  moreover have "2147483648 \<le> unat (rx_remote_avail fs - tx_sent fs)"
    using assms(4,5) by (simp add: u32_nat)
  moreover have "unat (tx_len fs) \<le> 2147483648"
    using assms(3) by (simp add: word_le_nat_alt)
  ultimately show ?thesis
    unfolding unat_tcp_txavail ring_dist_nat [OF assms(1,2)] by simp
qed

theorem tcp_txavail_window_shrunk_witness:
  "unat (tcp_txavail (flowst_zero\<lparr>tx_len := 16, tx_next_pos := 12, tx_head := 3,
      tx_sent := 6, rx_remote_avail := 0\<rparr>) None) = 7"
  using tcp_txavail_window_shrunk [of "flowst_zero\<lparr>tx_len := 16, tx_next_pos := 12, tx_head := 3,
      tx_sent := 6, rx_remote_avail := 0\<rparr>"]
  by (simp add: flowst_zero_def)

end
