(* ===== verification/Qman.thy ===== *)
theory Qman
  imports Prelude Chains
begin

unbundle bit_operations_syntax

text \<open>
  The queue manager (flexnic/qman.c): per-flow transmit queues with a byte budget each.  Queues
  without a rate limit wait in a FIFO linked through \<open>next_idxs[0]\<close>; rate-limited queues wait in a
  four-level skip list ordered by the virtual time at which they may send next.  Polling pops due
  queues, hands out at most \<open>max_chunk\<close> bytes of each and re-inserts those with bytes left.
  Also here: the random number generator of utils/rng.c that picks skip-list levels.
\<close>

section \<open>Random numbers (utils/rng.c)\<close>

definition utils_rng_init :: "u64 \<Rightarrow> u64" where
  "utils_rng_init seed = (seed XOR 0x5deece66d) mod 2 ^ 48"

definition utils_rng_gen32 :: "u64 \<Rightarrow> u32 \<times> u64" where
  "utils_rng_gen32 seed = (let next = (0x5deece66d * seed + 0xb) mod 2 ^ 48 in (ucast (drop_bit 16 next), next))"

section \<open>State\<close>

abbreviation IDXLIST_INVAL :: u32 where "IDXLIST_INVAL \<equiv> 0xFFFFFFFF"
abbreviation FLAG_INSKIPLIST :: u8 where "FLAG_INSKIPLIST \<equiv> 1"
abbreviation FLAG_INNOLIMITL :: u8 where "FLAG_INNOLIMITL \<equiv> 2"
abbreviation SKIPLIST_LEVELS :: nat where "SKIPLIST_LEVELS \<equiv> 4"
abbreviation SKIPLIST_BITS :: nat where "SKIPLIST_BITS \<equiv> 3"

abbreviation QMAN_SET_RATE :: u8 where "QMAN_SET_RATE \<equiv> 1"
abbreviation QMAN_SET_MAXCHUNK :: u8 where "QMAN_SET_MAXCHUNK \<equiv> 2"
abbreviation QMAN_SET_OPAQUE :: u8 where "QMAN_SET_OPAQUE \<equiv> 4"
abbreviation QMAN_SET_AVAIL :: u8 where "QMAN_SET_AVAIL \<equiv> 8"
abbreviation QMAN_ADD_AVAIL :: u8 where "QMAN_ADD_AVAIL \<equiv> 16"

record queue =
  next_idxs :: "u32 list"
  next_ts :: u32
  q_rate :: u32
  q_avail :: u32
  max_chunk :: u16
  q_opaque :: u8
  q_flags :: u8

text \<open>\<open>queues\<close> has \<open>FLEXNIC_NUM_QMQUEUES\<close> entries.\<close>

record qman_thread =
  queues :: "queue list"
  head_idx :: "u32 list"
  nolimit_head_idx :: u32
  nolimit_tail_idx :: u32
  ts_real :: u32
  ts_virtual :: u32
  rng :: u64
  nolimit_first :: bool

definition queue_zero :: queue where
  "queue_zero = \<lparr>next_idxs = replicate SKIPLIST_LEVELS 0, next_ts = 0, q_rate = 0, q_avail = 0,
     max_chunk = 0, q_opaque = 0, q_flags = 0\<rparr>"

text \<open>Thread ids are below 8, so the \<open>int\<close> product \<open>RNG_SEED * id\<close> does not overflow.\<close>

definition qman_thread_init :: "nat \<Rightarrow> u16 \<Rightarrow> u32 \<Rightarrow> qman_thread" where
  "qman_thread_init num tid now =
    \<lparr>queues = replicate num queue_zero, head_idx = replicate SKIPLIST_LEVELS IDXLIST_INVAL,
     nolimit_head_idx = IDXLIST_INVAL, nolimit_tail_idx = IDXLIST_INVAL, ts_real = now, ts_virtual = 0,
     rng = utils_rng_init (0x12345678 * ucast tid + ucast tid), nolimit_first = False\<rparr>"

text \<open>\<open>&t->queues[idx]\<close> read and updated.\<close>

abbreviation getq :: "qman_thread \<Rightarrow> u32 \<Rightarrow> queue" where
  "getq t idx \<equiv> queues t ! unat idx"

definition updq :: "qman_thread \<Rightarrow> u32 \<Rightarrow> (queue \<Rightarrow> queue) \<Rightarrow> qman_thread" where
  "updq t idx f = t\<lparr>queues := (queues t)[unat idx := f (getq t idx)]\<rparr>"

section \<open>Time\<close>

text \<open>\<open>freq\<close> and \<open>cycles\<close> are the time stamp counter's frequency and value.\<close>

definition timestamp :: "u64 \<Rightarrow> u64 \<Rightarrow> u32" where
  "timestamp freq cycles = ucast ((cycles * 1000000000) div freq)"

definition qman_timestamp :: "u64 \<Rightarrow> u64 \<Rightarrow> u32" where
  "qman_timestamp freq cycles = ucast ((cycles * 1000000) div freq)"

text \<open>\<open>int64_t\<close> results as integers; intermediate values are 64-bit.\<close>

definition rel_time :: "u32 \<Rightarrow> u32 \<Rightarrow> int" where
  "rel_time cur_ts ts_in =
    (let ts = ucast ts_in :: u64; cur = ucast cur_ts :: u64; middle = 2 ^ 31 :: u64 in
     if cur < middle then
       let start = (cur - middle) AND 0xFFFFFFFF; fin = 2 ^ 32 in
       if start \<le> ts \<and> ts < fin then sint (ts - start - middle) else sint (ts - cur)
     else if cur = middle then sint (ts - cur)
     else
       let start = 0; fin = ((cur + middle) AND 0xFFFFFFFF) + 1 in
       if start \<le> cur \<and> ts < fin then sint (ts + (2 ^ 32 - cur)) else sint (ts - cur))"

definition timestamp_lessthaneq :: "qman_thread \<Rightarrow> u32 \<Rightarrow> u32 \<Rightarrow> bool" where
  "timestamp_lessthaneq t a b \<longleftrightarrow> rel_time (ts_virtual t) a \<le> rel_time (ts_virtual t) b"

text \<open>Called with \<open>q->rate > 0\<close> only.\<close>

definition queue_new_ts :: "qman_thread \<Rightarrow> queue \<Rightarrow> u32 \<Rightarrow> u32" where
  "queue_new_ts t q bytes = ts_virtual t + ucast ((ucast bytes * 8 * 1000000 :: u64) div ucast (q_rate q))"

section \<open>No-limit list\<close>

definition nolimit_push :: "qman_thread \<Rightarrow> u32 \<Rightarrow> qman_thread" where
  "nolimit_push t idx =
    (let t = updq t idx (\<lambda>q. q\<lparr>q_flags := q_flags q OR FLAG_INNOLIMITL,
                               next_idxs := (next_idxs q)[0 := IDXLIST_INVAL]\<rparr>) in
     if nolimit_tail_idx t = IDXLIST_INVAL then t\<lparr>nolimit_head_idx := idx, nolimit_tail_idx := idx\<rparr>
     else (updq t (nolimit_tail_idx t) (\<lambda>q. q\<lparr>next_idxs := (next_idxs q)[0 := idx]\<rparr>))
            \<lparr>nolimit_tail_idx := idx\<rparr>)"

definition queue_activate_nolimit :: "qman_thread \<Rightarrow> u32 \<Rightarrow> qman_thread res" where
  "queue_activate_nolimit t idx =
    (if q_flags (getq t idx) AND (FLAG_INSKIPLIST OR FLAG_INNOLIMITL) \<noteq> 0 then Inl Assert_fail
     else Inr (nolimit_push t idx))"

section \<open>Skip list\<close>

definition ffs32 :: "u32 \<Rightarrow> nat" where
  "ffs32 x = (if x = 0 then 0 else length (takeWhile (\<lambda>n. \<not> bit x n) [0..<32]) + 1)"

text \<open>\<open>(ffs(x) - 1) / 3\<close> truncates towards zero: \<open>x = 0\<close> gives level 0.\<close>

definition queue_level :: "qman_thread \<Rightarrow> nat \<times> qman_thread" where
  "queue_level t =
    (let (r, seed) = utils_rng_gen32 (rng t); x = (ffs32 r - 1) div SKIPLIST_BITS in
     ((if x < SKIPLIST_LEVELS then x else SKIPLIST_LEVELS - 1), t\<lparr>rng := seed\<rparr>))"

text \<open>The inner \<open>while\<close> of the predecessor search; a list of distinct queues needs at most
  \<open>length (queues t)\<close> iterations.\<close>

fun skip_find :: "nat \<Rightarrow> qman_thread \<Rightarrow> nat \<Rightarrow> u32 \<Rightarrow> u32 \<Rightarrow> u32 \<Rightarrow> u32 option" where
  "skip_find 0 t l ts pred idx = None"
| "skip_find (Suc f) t l ts pred idx =
    (if idx \<noteq> IDXLIST_INVAL \<and> timestamp_lessthaneq t (next_ts (getq t idx)) ts
     then skip_find f t l ts idx (next_idxs (getq t idx) ! l)
     else Some pred)"

text \<open>\<open>preds[0..3]\<close>, found top-down; the search of a level starts at the predecessor found above.\<close>

fun skip_preds :: "qman_thread \<Rightarrow> u32 \<Rightarrow> nat \<Rightarrow> u32 \<Rightarrow> u32 list \<Rightarrow> u32 list option" where
  "skip_preds t ts 0 pred acc = Some acc"
| "skip_preds t ts (Suc l) pred acc =
    (let idx = (if pred \<noteq> IDXLIST_INVAL then pred else head_idx t ! l) in
     case skip_find (length (queues t) + 1) t l ts pred idx of
       None \<Rightarrow> None
     | Some p \<Rightarrow> skip_preds t ts l p (p # acc))"

text \<open>The body of the insertion loop at level \<open>l\<close>, and the loop.\<close>

definition skip_link :: "u32 \<Rightarrow> nat \<Rightarrow> u32 list \<Rightarrow> nat \<Rightarrow> qman_thread \<Rightarrow> qman_thread" where
  "skip_link q_idx level preds l t =
    (if l > level then updq t q_idx (\<lambda>q. q\<lparr>next_idxs := (next_idxs q)[l := IDXLIST_INVAL]\<rparr>)
     else
       let idx = preds ! l in
       if idx \<noteq> IDXLIST_INVAL then
         let t = updq t q_idx (\<lambda>q. q\<lparr>next_idxs := (next_idxs q)[l := next_idxs (getq t idx) ! l]\<rparr>) in
         updq t idx (\<lambda>q. q\<lparr>next_idxs := (next_idxs q)[l := q_idx]\<rparr>)
       else
         let t = updq t q_idx (\<lambda>q. q\<lparr>next_idxs := (next_idxs q)[l := head_idx t ! l]\<rparr>) in
         t\<lparr>head_idx := (head_idx t)[l := q_idx]\<rparr>)"

fun skip_insert :: "u32 \<Rightarrow> nat \<Rightarrow> u32 list \<Rightarrow> nat \<Rightarrow> qman_thread \<Rightarrow> qman_thread" where
  "skip_insert q_idx level preds 0 t = t"
| "skip_insert q_idx level preds (Suc l) t =
    skip_insert q_idx level preds l (skip_link q_idx level preds l t)"

definition skip_ts :: "qman_thread \<Rightarrow> queue \<Rightarrow> u32" where
  "skip_ts t q =
    (let ts = next_ts q; max_ts = queue_new_ts t q (ucast (max_chunk q)) in
     if timestamp_lessthaneq t ts (ts_virtual t) then ts_virtual t
     else if \<not> timestamp_lessthaneq t ts max_ts then max_ts
     else ts)"

definition queue_activate_skiplist :: "qman_thread \<Rightarrow> u32 \<Rightarrow> qman_thread res" where
  "queue_activate_skiplist t q_idx =
    (if q_flags (getq t q_idx) AND (FLAG_INSKIPLIST OR FLAG_INNOLIMITL) \<noteq> 0 then Inl Assert_fail
     else
       let ts = skip_ts t (getq t q_idx);
           t = updq t q_idx (\<lambda>q. q\<lparr>next_ts := ts\<rparr>) in
       case skip_preds t ts SKIPLIST_LEVELS IDXLIST_INVAL [] of
         None \<Rightarrow> Inl Diverge
       | Some preds \<Rightarrow>
           let (level, t) = queue_level t;
               t = skip_insert q_idx level preds SKIPLIST_LEVELS t in
           Inr (updq t q_idx (\<lambda>q. q\<lparr>q_flags := q_flags q OR FLAG_INSKIPLIST\<rparr>)))"

section \<open>Firing and polling\<close>

definition queue_activate :: "qman_thread \<Rightarrow> u32 \<Rightarrow> qman_thread res" where
  "queue_activate t idx =
    (if q_rate (getq t idx) = 0 then queue_activate_nolimit t idx else queue_activate_skiplist t idx)"

text \<open>The result is the fired entry \<open>(q_id, q_bytes, q_opaque)\<close>.\<close>

definition queue_fire :: "qman_thread \<Rightarrow> u32 \<Rightarrow> (qman_thread \<times> (u32 \<times> u16 \<times> u8)) res" where
  "queue_fire t idx =
    (let q = getq t idx in
     if \<not> q_avail q > 0 then Inl Assert_fail
     else
       let bytes = (if q_avail q \<le> ucast (max_chunk q) then q_avail q else ucast (max_chunk q));
           t = updq t idx (\<lambda>q. q\<lparr>q_avail := q_avail q - bytes\<rparr>);
           t = (if q_rate q > 0 then updq t idx (\<lambda>q. q\<lparr>next_ts := queue_new_ts t q bytes\<rparr>) else t) in
       bind_res (if q_avail (getq t idx) > 0 then queue_activate t idx else Inr t)
         (\<lambda>t. Inr (t, (idx, ucast bytes, q_opaque q))))"

text \<open>Removing the head of the no-limit list.\<close>

definition nolimit_pop :: "qman_thread \<Rightarrow> qman_thread" where
  "nolimit_pop t =
    (let idx = nolimit_head_idx t; nxt = next_idxs (getq t idx) ! 0;
         t = t\<lparr>nolimit_head_idx := nxt\<rparr>;
         t = (if nxt = IDXLIST_INVAL then t\<lparr>nolimit_tail_idx := IDXLIST_INVAL\<rparr> else t) in
     updq t idx (\<lambda>q. q\<lparr>q_flags := q_flags q AND NOT FLAG_INNOLIMITL\<rparr>))"

fun poll_nolimit :: "nat \<Rightarrow> qman_thread \<Rightarrow> nat \<Rightarrow> (u32 \<times> u16 \<times> u8) list
    \<Rightarrow> (qman_thread \<times> (u32 \<times> u16 \<times> u8) list) res" where
  "poll_nolimit 0 t num out = Inl Diverge"
| "poll_nolimit (Suc f) t num out =
    (if length out < num \<and> nolimit_head_idx t \<noteq> IDXLIST_INVAL then
       let idx = nolimit_head_idx t; t = nolimit_pop t in
       if q_avail (getq t idx) > 0 then
         bind_res (queue_fire t idx) (\<lambda>(t, e). poll_nolimit f t num (out @ [e]))
       else poll_nolimit f t num out
     else Inr (t, out))"

text \<open>\<open>for (l = 0; l < SKIPLIST_LEVELS && t->head_idx[l] == idx; l++)\<close>\<close>

fun skip_unlink :: "u32 \<Rightarrow> nat list \<Rightarrow> qman_thread \<Rightarrow> qman_thread" where
  "skip_unlink idx [] t = t"
| "skip_unlink idx (l # ls) t =
    (if head_idx t ! l = idx
     then skip_unlink idx ls (t\<lparr>head_idx := (head_idx t)[l := next_idxs (getq t idx) ! l]\<rparr>)
     else t)"

fun poll_skip_loop :: "nat \<Rightarrow> qman_thread \<Rightarrow> u32 \<Rightarrow> nat \<Rightarrow> (u32 \<times> u16 \<times> u8) list
    \<Rightarrow> (qman_thread \<times> (u32 \<times> u16 \<times> u8) list) res" where
  "poll_skip_loop 0 t max_vts num out = Inl Diverge"
| "poll_skip_loop (Suc f) t max_vts num out =
    (if length out < num then
       let idx = head_idx t ! 0 in
       if idx = IDXLIST_INVAL then Inr (t\<lparr>ts_virtual := max_vts\<rparr>, out)
       else if \<not> timestamp_lessthaneq t (next_ts (getq t idx)) max_vts
       then Inr (t\<lparr>ts_virtual := max_vts\<rparr>, out)
       else
         let t = skip_unlink idx [0..<SKIPLIST_LEVELS] t in
         if q_flags (getq t idx) AND FLAG_INSKIPLIST = 0 then Inl Assert_fail
         else
           let t = updq t idx (\<lambda>q. q\<lparr>q_flags := q_flags q AND NOT FLAG_INSKIPLIST\<rparr>);
               t = t\<lparr>ts_virtual := next_ts (getq t idx)\<rparr> in
           if q_avail (getq t idx) > 0 then
             bind_res (queue_fire t idx) (\<lambda>(t, e). poll_skip_loop f t max_vts num (out @ [e]))
           else poll_skip_loop f t max_vts num out
     else Inr (t, out))"

definition poll_skiplist :: "nat \<Rightarrow> qman_thread \<Rightarrow> u32 \<Rightarrow> nat
    \<Rightarrow> (qman_thread \<times> (u32 \<times> u16 \<times> u8) list) res" where
  "poll_skiplist f t cur_ts num =
    (let max_vts = ts_virtual t + (cur_ts - ts_real t) in
     bind_res (poll_skip_loop f t max_vts num [])
       (\<lambda>(t, out).
          let t = (if length out = num then
                     let idx = head_idx t ! 0 in
                     if idx \<noteq> IDXLIST_INVAL \<and> timestamp_lessthaneq t (next_ts (getq t idx)) max_vts
                     then t\<lparr>ts_virtual := next_ts (getq t idx)\<rparr> else t\<lparr>ts_virtual := max_vts\<rparr>
                   else t) in
          Inr (t\<lparr>ts_real := cur_ts\<rparr>, out)))"

text \<open>\<open>timestamp()\<close> is read once, as \<open>ts\<close>.\<close>

definition qman_poll :: "nat \<Rightarrow> qman_thread \<Rightarrow> u32 \<Rightarrow> nat \<Rightarrow> (qman_thread \<times> (u32 \<times> u16 \<times> u8) list) res" where
  "qman_poll f t ts num =
    (let r = (if nolimit_first t then
                bind_res (poll_nolimit f t num []) (\<lambda>(t, x).
                bind_res (poll_skiplist f t ts (num - length x)) (\<lambda>(t, y). Inr (t, x @ y)))
              else
                bind_res (poll_skiplist f t ts num) (\<lambda>(t, x).
                bind_res (poll_nolimit f t (num - length x) []) (\<lambda>(t, y). Inr (t, x @ y)))) in
     bind_res r (\<lambda>(t, out). Inr (t\<lparr>nolimit_first := \<not> nolimit_first t\<rparr>, out)))"

section \<open>Setting queues\<close>

definition set_impl :: "qman_thread \<Rightarrow> u32 \<Rightarrow> u32 \<Rightarrow> u32 \<Rightarrow> u16 \<Rightarrow> u8 \<Rightarrow> u8 \<Rightarrow> qman_thread res" where
  "set_impl t idx rate avail max_chk opq flags =
    (let t = (if flags AND QMAN_SET_RATE \<noteq> 0 then updq t idx (\<lambda>q. q\<lparr>q_rate := rate\<rparr>) else t);
         t = (if flags AND QMAN_SET_MAXCHUNK \<noteq> 0 then updq t idx (\<lambda>q. q\<lparr>max_chunk := max_chk\<rparr>) else t);
         t = (if flags AND QMAN_SET_OPAQUE \<noteq> 0 then updq t idx (\<lambda>q. q\<lparr>q_opaque := opq\<rparr>) else t);
         (t, new_avail) =
           (if flags AND QMAN_SET_AVAIL \<noteq> 0 then (updq t idx (\<lambda>q. q\<lparr>q_avail := avail\<rparr>), True)
            else if flags AND QMAN_ADD_AVAIL \<noteq> 0
            then (updq t idx (\<lambda>q. q\<lparr>q_avail := q_avail q + avail\<rparr>), True)
            else (t, False)) in
     if new_avail \<and> q_avail (getq t idx) > 0 \<and>
        q_flags (getq t idx) AND (FLAG_INSKIPLIST OR FLAG_INNOLIMITL) = 0
     then queue_activate t idx else Inr t)"

text \<open>\<open>Inr None\<close> is the \<open>return -1\<close> for an invalid queue id.\<close>

definition qman_set :: "qman_thread \<Rightarrow> u32 \<Rightarrow> u32 \<Rightarrow> u32 \<Rightarrow> u16 \<Rightarrow> u8 \<Rightarrow> u8 \<Rightarrow> qman_thread option res" where
  "qman_set t qid rate avail max_chk opq flags =
    (if unat qid \<ge> length (queues t) then Inr None
     else bind_res (set_impl t qid rate avail max_chk opq flags) (\<lambda>t. Inr (Some t)))"

text \<open>C's division truncates towards zero.\<close>

definition c_div :: "int \<Rightarrow> int \<Rightarrow> int" where
  "c_div a b = sgn a * sgn b * (\<bar>a\<bar> div \<bar>b\<bar>)"

definition qman_next_ts :: "qman_thread \<Rightarrow> u32 \<Rightarrow> u32" where
  "qman_next_ts t ts =
    (let ret_ts = ts_virtual t + (ts - ts_real t) in
     if nolimit_head_idx t \<noteq> IDXLIST_INVAL then 0
     else
       let idx = head_idx t ! 0 in
       if idx \<noteq> IDXLIST_INVAL then
         if timestamp_lessthaneq t (next_ts (getq t idx)) ret_ts then 0
         else of_int (c_div (rel_time ret_ts (next_ts (getq t idx))) 1000)
       else UINT32_MAX)"


section \<open>Virtual time is a signed distance\<close>

lemma sint_u64: "sint (w :: u64) = (if uint w < 2 ^ 63 then uint w else uint w - 2 ^ 64)"
proof -
  define k where "k = uint w"
  have k: "0 \<le> k" "k < 2 ^ 64" unfolding k_def by (simp, use uint_lt2p[of w] in simp)
  have "sint w = (k + 2 ^ 63) mod 2 ^ 64 - 2 ^ 63"
    by (simp add: sint_uint k_def signed_take_bit_eq_take_bit_shift take_bit_eq_mod)
  moreover have "(k + 2 ^ 63) mod 2 ^ 64 = (if k < 2 ^ 63 then k + 2 ^ 63 else k - 2 ^ 63)"
    using k by (auto simp: mod_pos_pos_trivial mod_pos_geq)
  ultimately show ?thesis unfolding k_def by simp
qed

lemma uint_u64_and_mask: "uint (w AND 0xFFFFFFFF :: u64) = uint w mod 4294967296"
proof -
  have "w AND 0xFFFFFFFF = take_bit 32 w" by (simp add: take_bit_eq_mask mask_numeral)
  then show ?thesis by (simp only: unsigned_take_bit_eq) (simp add: take_bit_eq_mod)
qed

lemma uint_u32_u64 [simp]: "uint (ucast (x :: u32) :: u64) = uint x"
  using uint_lt2p [of x] by (simp add: unsigned_ucast_eq take_bit_int_eq_self)

lemma uint_u64_add: "uint (x + y :: u64) =
    (if uint x + uint y < 18446744073709551616 then uint x + uint y else uint x + uint y - 18446744073709551616)"
  by (simp add: uint_plus_if')
lemma uint_u64_sub: "uint (x - y :: u64) =
    (if uint y \<le> uint x then uint x - uint y else uint x - uint y + 18446744073709551616)"
  by (simp add: uint_sub_if')


text \<open>C10: \<open>rel_time\<close> is the signed 32-bit distance from the current time to the time stamp, in
  \<open>[-2^31, 2^31)\<close>; a time stamp exactly half the circle away counts as future when the current time is in
  the upper half and as past otherwise.\<close>

theorem rel_time_signed:
  "rel_time cur ts =
    (let d = uint (ts - cur) in
     if d < 2 ^ 31 \<or> d = 2 ^ 31 \<and> uint cur > 2 ^ 31 then d else d - 2 ^ 32)"
proof -
  define c s where "c = uint cur" and "s = uint ts"
  have b: "0 \<le> c" "c < 4294967296" "0 \<le> s" "s < 4294967296"
    unfolding c_def s_def using uint_lt2p[of cur] uint_lt2p[of ts] by auto
  have d: "uint (ts - cur) = (if c \<le> s then s - c else s - c + 4294967296)"
    by (simp add: uint_sub_if' c_def s_def)
  have m1: "c < 2147483648 \<Longrightarrow> (c - 2147483648 + 18446744073709551616) mod 4294967296 = c + 2147483648"
  proof -
    assume "c < 2147483648"
    then have "(c + 2147483648 + 4294967295 * 4294967296) mod 4294967296 = c + 2147483648"
      using b by (subst mod_mult_self1) (simp add: mod_pos_pos_trivial)
    then show ?thesis by (simp add: algebra_simps)
  qed
  have m2: "\<not> c < 2147483648 \<Longrightarrow> (c + 2147483648) mod 4294967296 = c - 2147483648"
    using b by (subst mod_pos_geq) (auto simp: mod_pos_pos_trivial)
  show ?thesis
    unfolding rel_time_def Let_def d
    apply (simp only: sint_u64 word_less_def word_le_def uint_u64_and_mask uint_u64_add uint_u64_sub
      uint_u32_u64 c_def [symmetric] s_def [symmetric] word_uint_eq_iff)
    using b m1 m2 by simp
qed

text \<open>The clock of the queue manager counts nanoseconds modulo \<open>2^32\<close> as long as \<open>cycles * 10^9\<close> fits 64
  bits; at the next cycle after that it starts again from 0, whatever the frequency above 1 GHz.\<close>

theorem timestamp_clock:
  "(unat cycles < 18446744074 \<longrightarrow> unat (timestamp freq cycles) = (unat cycles * 1000000000 div unat freq) mod 2 ^ 32) \<and>
   (unat freq > 1000000000 \<longrightarrow> timestamp freq 18446744074 = 0)"
proof (intro conjI impI)
  assume "unat cycles < 18446744074"
  then have "unat cycles * 1000000000 < 2 ^ 64" by simp
  then have "unat (cycles * 1000000000) = unat cycles * 1000000000"
    by (simp add: unat_word_ariths)
  then show "unat (timestamp freq cycles) = (unat cycles * 1000000000 div unat freq) mod 2 ^ 32"
    by (simp add: timestamp_def unsigned_ucast_eq take_bit_eq_mod unat_div)
next
  assume f: "unat freq > 1000000000"
  have w: "unat (18446744074 * 1000000000 :: u64) = 290448384"
    by (simp add: unat_word_ariths)
  have "unat ((18446744074 * 1000000000 :: u64) div freq) = 0"
    unfolding unat_div w using f by simp
  then show "timestamp freq 18446744074 = 0"
    unfolding timestamp_def by (simp only: unat_eq_zero) simp
qed

theorem timestamp_clock_witness:
  "unat (timestamp 3000000000 18446744073) = (18446744073 * 1000000000 div 3000000000) mod 2 ^ 32 \<and>
   timestamp 3000000000 18446744074 = 0"
  using timestamp_clock [of 18446744073 3000000000] by simp

text \<open>C11: the time stamp a queue gets for sending \<open>bytes\<close> at \<open>rate\<close> kbit/s lies
  \<open>bytes * 8 * 10^6 / rate\<close> nanoseconds after the virtual time, modulo the 32-bit clock; the 64-bit
  intermediate product never overflows.\<close>

theorem queue_new_ts_pace:
  assumes "q_rate q > 0"
  shows "unat (queue_new_ts t q bytes - ts_virtual t) = (unat bytes * 8000000 div unat (q_rate q)) mod 2 ^ 32"
proof -
  have b: "unat bytes < 2 ^ 32" "unat (q_rate q) < 2 ^ 32"
    using unat_u32_bound [of bytes] unat_u32_bound [of "q_rate q"] by simp_all
  have u: "unat (ucast bytes * 8 * 1000000 :: u64) = unat bytes * 8000000"
    using b by (simp add: unat_word_ariths unsigned_ucast_eq take_bit_nat_eq_self)
  have "unat (ucast (q_rate q) :: u64) = unat (q_rate q)"
    using b by (simp add: unsigned_ucast_eq take_bit_nat_eq_self)
  then have "unat ((ucast bytes * 8 * 1000000 :: u64) div ucast (q_rate q)) = unat bytes * 8000000 div unat (q_rate q)"
    using u by (simp add: unat_div)
  then show ?thesis
    by (simp add: queue_new_ts_def unsigned_ucast_eq take_bit_eq_mod)
qed


theorem queue_new_ts_pace_witness:
  "(0 :: u32) < 1000 \<and>
   unat (queue_new_ts (qman_thread_init 1 0 0) (queue_zero\<lparr>q_rate := 1000\<rparr>) 1448 - ts_virtual (qman_thread_init 1 0 0))
     = (1448 * 8000000 div 1000) mod 2 ^ 32"
  using queue_new_ts_pace [of "queue_zero\<lparr>q_rate := 1000\<rparr>" "qman_thread_init 1 0 0" 1448] by simp

end
