(* ===== verification/QmanInv.thy ===== *)
theory QmanInv
  imports Qman
begin

unbundle bit_operations_syntax

text \<open>
  The structural invariant of the queue manager of \<open>Qman\<close>, and what it gives.  \<open>qrep t L S\<close> says that
  the no-limit list reached from \<open>nolimit_head_idx\<close> is \<open>L\<close>, that level \<open>l\<close> of the skip list is \<open>S l\<close>, that
  every level is a subsequence of the level below, and that a queue is in at most one list;
  \<open>qflags\<close> ties the flag bits to the lists and \<open>qstate\<close> adds that every queue with bytes waits in a list.
  All operations keep it, so the asserts of the source hold, its list searches end, and polling conserves
  the byte budgets.
\<close>

section \<open>The lists behind the links\<close>

definition nxt :: "qman_thread \<Rightarrow> nat \<Rightarrow> u32 \<Rightarrow> u32" where
  "nxt t l i = next_idxs (getq t i) ! l"

definition qman_wf :: "qman_thread \<Rightarrow> bool" where
  "qman_wf t \<longleftrightarrow> length (queues t) < 2 ^ 32 \<and> length (head_idx t) = SKIPLIST_LEVELS \<and>
     (\<forall>q \<in> set (queues t). length (next_idxs q) = SKIPLIST_LEVELS)"

abbreviation qvalid :: "qman_thread \<Rightarrow> u32 \<Rightarrow> bool" where
  "qvalid t i \<equiv> unat i < length (queues t)"

definition qrep :: "qman_thread \<Rightarrow> u32 list \<Rightarrow> (nat \<Rightarrow> u32 list) \<Rightarrow> bool" where
  "qrep t L S \<longleftrightarrow> qman_wf t \<and>
     chain IDXLIST_INVAL (nxt t 0) (nolimit_head_idx t) L \<and>
     nolimit_tail_idx t = last (IDXLIST_INVAL # L) \<and>
     (\<forall>l < SKIPLIST_LEVELS. chain IDXLIST_INVAL (nxt t l) (head_idx t ! l) (S l)) \<and>
     (\<forall>l < SKIPLIST_LEVELS - 1. subseq (S (Suc l)) (S l)) \<and>
     distinct (L @ S 0) \<and> (\<forall>i \<in> set (L @ S 0). qvalid t i)"

definition qflags :: "qman_thread \<Rightarrow> u32 list \<Rightarrow> (nat \<Rightarrow> u32 list) \<Rightarrow> bool" where
  "qflags t L S \<longleftrightarrow> (\<forall>i. qvalid t i \<longrightarrow>
     (bit (q_flags (getq t i)) 0 \<longleftrightarrow> i \<in> set (S 0)) \<and> (bit (q_flags (getq t i)) 1 \<longleftrightarrow> i \<in> set L))"

definition qcore :: "queue \<Rightarrow> u32 \<times> u32 \<times> u16 \<times> u8" where
  "qcore q = (q_rate q, q_avail q, max_chunk q, q_opaque q)"

lemma updq_simps [simp]:
  "length (queues (updq t i f)) = length (queues t)"
  "head_idx (updq t i f) = head_idx t" "nolimit_head_idx (updq t i f) = nolimit_head_idx t"
  "nolimit_tail_idx (updq t i f) = nolimit_tail_idx t" "ts_virtual (updq t i f) = ts_virtual t"
  "ts_real (updq t i f) = ts_real t" "rng (updq t i f) = rng t" "nolimit_first (updq t i f) = nolimit_first t"
  by (simp_all add: updq_def)

lemma getq_updq: "qvalid t i \<Longrightarrow> getq (updq t i f) j = (if i = j then f (getq t i) else getq t j)"
  by (auto simp: updq_def nth_list_update word_unat_eq_iff)

lemma updq_wf [simp]:
  assumes "qman_wf t" "qvalid t i" "length (next_idxs (f (getq t i))) = length (next_idxs (getq t i))"
  shows "qman_wf (updq t i f)"
  using assms by (auto simp: qman_wf_def updq_def dest!: set_update_subset_insert [THEN subsetD])

lemma qman_wf_len: "qman_wf t \<Longrightarrow> qvalid t i \<Longrightarrow> length (next_idxs (getq t i)) = SKIPLIST_LEVELS"
  by (simp add: qman_wf_def)

lemma qvalid_not_inval: "qman_wf t \<Longrightarrow> qvalid t i \<Longrightarrow> i \<noteq> IDXLIST_INVAL"
  by (auto simp: qman_wf_def)

lemma nxt_updq_link:
  assumes "qman_wf t" "qvalid t i" "l < SKIPLIST_LEVELS"
    "next_idxs (f (getq t i)) = (next_idxs (getq t i))[l := v]"
  shows "nxt (updq t i f) = (nxt t)(l := (nxt t l)(i := v))"
  using assms by (auto simp: nxt_def getq_updq fun_eq_iff qman_wf_len)

lemma nxt_updq_same: "qvalid t i \<Longrightarrow> next_idxs (f (getq t i)) = next_idxs (getq t i) \<Longrightarrow> nxt (updq t i f) = nxt t"
  by (auto simp: nxt_def getq_updq fun_eq_iff)

lemma map_queues_updq:
  "(\<And>q. g (f q) = g q) \<Longrightarrow> map g (queues (updq t i f)) = map g (queues t)"
  by (rule nth_equalityI) (simp_all add: updq_def, metis nth_list_update_eq nth_list_update_neq)

lemma nxt_other_fields [simp]:
  "nxt (t\<lparr>head_idx := a\<rparr>) = nxt t" "nxt (t\<lparr>nolimit_head_idx := b\<rparr>) = nxt t"
  "nxt (t\<lparr>nolimit_tail_idx := b\<rparr>) = nxt t" "nxt (t\<lparr>ts_virtual := b\<rparr>) = nxt t"
  "nxt (t\<lparr>ts_real := b\<rparr>) = nxt t" "nxt (t\<lparr>rng := c\<rparr>) = nxt t" "nxt (t\<lparr>nolimit_first := d\<rparr>) = nxt t"
  by (simp_all add: nxt_def fun_eq_iff)

lemma qman_wf_other_fields [simp]:
  "qman_wf (t\<lparr>nolimit_head_idx := b\<rparr>) = qman_wf t"
  "qman_wf (t\<lparr>nolimit_tail_idx := b\<rparr>) = qman_wf t" "qman_wf (t\<lparr>ts_virtual := b\<rparr>) = qman_wf t"
  "qman_wf (t\<lparr>ts_real := b\<rparr>) = qman_wf t" "qman_wf (t\<lparr>rng := c\<rparr>) = qman_wf t"
  "qman_wf (t\<lparr>nolimit_first := d\<rparr>) = qman_wf t"
  "length a = SKIPLIST_LEVELS \<Longrightarrow> qman_wf t \<Longrightarrow> qman_wf (t\<lparr>head_idx := a\<rparr>)"
  by (simp_all add: qman_wf_def)

lemma levels_subset:
  "\<forall>l < n. subseq (S (Suc l)) (S l) \<Longrightarrow> k \<le> n \<Longrightarrow> subseq (S k) (S 0)"
proof (induction k)
  case (Suc k)
  then have "subseq (S (Suc k)) (S k)" "subseq (S k) (S 0)" by auto
  then show ?case by (rule subseq_order.order_trans)
qed simp

lemma qrep_length:
  assumes "qrep t L S"
  shows "length L + length (S 0) \<le> length (queues t)"
proof -
  have d: "distinct (L @ S 0)" and v: "unat ` set (L @ S 0) \<subseteq> {..<length (queues t)}"
    using assms by (auto simp: qrep_def)
  have "length (L @ S 0) = card (unat ` set (L @ S 0))"
    using distinct_card [OF d] by (subst card_image) (simp_all add: inj_on_def word_unat_eq_iff)
  also have "\<dots> \<le> card {..<length (queues t)}"
    using v by (intro card_mono) simp_all
  finally show ?thesis by simp
qed

lemma qrep_distinct:
  assumes "qrep t L S" "l < 4"
  shows "distinct (S l)"
  using levels_subset [of 3 S l] assms by (auto simp: qrep_def intro: subseq_distinct)

lemma qrep_levels: "qrep t L S \<Longrightarrow> l < 4 \<Longrightarrow> set (S l) \<subseteq> set (S 0)"
  using levels_subset [of 3 S l] by (auto simp: qrep_def dest: subseq_set)

text \<open>The no-limit list.\<close>
lemma nolimit_push_rep:
  assumes rep: "qrep t L S" and q: "qvalid t q" "q \<notin> set (L @ S 0)"
  shows "qrep (nolimit_push t q) (L @ [q]) S"
proof -
  let ?t1 = "updq t q (\<lambda>q. q\<lparr>q_flags := q_flags q OR FLAG_INNOLIMITL, next_idxs := (next_idxs q)[0 := IDXLIST_INVAL]\<rparr>)"
  have wf: "qman_wf t" and wf1: "qman_wf ?t1"
    using rep q by (simp_all add: qrep_def)
  have nq: "q \<noteq> IDXLIST_INVAL"
    using wf q(1) by (rule qvalid_not_inval)
  have n1: "nxt ?t1 = (nxt t)(0 := (nxt t 0)(q := IDXLIST_INVAL))"
    using wf q by (intro nxt_updq_link) auto
  have lv: "l < 4 \<Longrightarrow> set (S l) \<subseteq> set (S 0)" for l
    using rep by (rule qrep_levels)
  show ?thesis
  proof (cases "L = []")
    case True
    then have "nolimit_push t q = ?t1\<lparr>nolimit_head_idx := q, nolimit_tail_idx := q\<rparr>"
      using rep by (simp add: nolimit_push_def qrep_def)
    then show ?thesis
      using True rep q nq wf1 n1 lv by (auto simp: qrep_def)
  next
    case False
    then obtain A p where L: "L = A @ [p]" by (metis rev_exhaust)
    then have p: "qvalid t p" "p \<noteq> q" "p \<notin> set (S 0)" "nolimit_tail_idx t = p" "p \<noteq> IDXLIST_INVAL"
      using rep q qvalid_not_inval[OF wf, of p] by (auto simp: qrep_def)
    let ?t2 = "updq ?t1 p (\<lambda>x. x\<lparr>next_idxs := (next_idxs x)[0 := q]\<rparr>)"
    have e: "nolimit_push t q = ?t2\<lparr>nolimit_tail_idx := q\<rparr>"
      using p by (simp add: nolimit_push_def)
    have n2: "nxt ?t2 = (nxt t)(0 := (nxt t 0)(q := IDXLIST_INVAL, p := q))"
      using wf1 p by (subst nxt_updq_link [where l = 0 and v = q]) (auto simp: n1)
    have wf2: "qman_wf ?t2" using wf1 p by simp
    show ?thesis
      unfolding e qrep_def
      using rep q nq wf2 p lv seg_append_end[of IDXLIST_INVAL "nxt t 0" "nolimit_head_idx t" A p q]
      by (auto simp: L n2 qrep_def)
  qed
qed

lemma nolimit_pop_fields:
  assumes "qvalid t (nolimit_head_idx t)"
  shows "nxt (nolimit_pop t) = nxt t" "head_idx (nolimit_pop t) = head_idx t"
    "length (queues (nolimit_pop t)) = length (queues t)" "qman_wf t \<Longrightarrow> qman_wf (nolimit_pop t)"
    "nolimit_head_idx (nolimit_pop t) = nxt t 0 (nolimit_head_idx t)"
    "nolimit_tail_idx (nolimit_pop t) =
      (if nxt t 0 (nolimit_head_idx t) = IDXLIST_INVAL then IDXLIST_INVAL else nolimit_tail_idx t)"
  using assms by (simp_all add: nolimit_pop_def Let_def nxt_updq_same) (simp_all add: nxt_def)

lemma nolimit_pop_rep:
  assumes rep: "qrep t (q # L) S"
  shows "qrep (nolimit_pop t) L S"
proof -
  have q: "qvalid t q" "nolimit_head_idx t = q" and wf: "qman_wf t"
    and h: "chain IDXLIST_INVAL (nxt t 0) (nxt t 0 q) L"
    using rep by (auto simp: qrep_def)
  have "nxt t 0 q = IDXLIST_INVAL \<longleftrightarrow> L = []"
    using h by (cases L) auto
  then show ?thesis
    using rep q h by (auto simp: qrep_def nolimit_pop_fields)
qed

lemma skip_find_chain:
  assumes "chain IDXLIST_INVAL (nxt t l) idx ys" "length ys < f"
  shows "skip_find f t l ts pred idx =
    Some (last (pred # takeWhile (\<lambda>i. timestamp_lessthaneq t (next_ts (getq t i)) ts) ys))"
  using assms
proof (induction f arbitrary: pred idx ys)
  case (Suc f)
  then show ?case
    by (cases ys) (auto simp: nxt_def)
qed simp

text \<open>\<open>skip_cut P A B p\<close>: a level is cut into \<open>A @ B\<close> behind the predecessor \<open>p\<close>, the last queue of \<open>A\<close>.\<close>

definition skip_cut :: "(u32 \<Rightarrow> bool) \<Rightarrow> u32 list \<Rightarrow> u32 list \<Rightarrow> u32 \<Rightarrow> bool" where
  "skip_cut P A B p \<longleftrightarrow> p = last (IDXLIST_INVAL # A) \<and> (A = [] \<or> P p) \<and> (B = [] \<or> \<not> P (hd B))"

lemma takeWhile_cut:
  assumes "subseq B W" "B = [] \<or> \<not> P (hd B)"
  shows "subseq B (dropWhile P W)"
proof (cases B)
  case (Cons b bs)
  then have "b \<notin> set (takeWhile P W)"
    using assms(2) by (auto dest: set_takeWhileD)
  then show ?thesis
    using assms(1) Cons subseq_drop_prefix [of b bs "takeWhile P W" "dropWhile P W"] by simp
qed simp

lemma skip_level_step:
  assumes cut: "skip_cut P A B p" and sub: "subseq (A @ B) S" and ch: "chain IDXLIST_INVAL n h S"
    and P: "P = (\<lambda>i. timestamp_lessthaneq t (next_ts (getq t i)) ts)" "n = nxt t l" "length S < f"
  shows "\<exists>A' B' p'. S = A' @ B' \<and> subseq A A' \<and> subseq B B' \<and> skip_cut P A' B' p' \<and>
    skip_find f t l ts p (if p \<noteq> IDXLIST_INVAL then p else h) = Some p'"
proof (cases A rule: rev_cases)
  case Nil
  have hd: "dropWhile P S = [] \<or> \<not> P (hd (dropWhile P S))"
    using hd_dropWhile by blast
  have "takeWhile P S = [] \<or> P (last (takeWhile P S))"
    by (metis last_in_set set_takeWhileD)
  then show ?thesis
    using Nil cut sub P ch hd takeWhile_cut [of B S P]
      skip_find_chain [of t l h S f ts IDXLIST_INVAL]
    by (intro exI [of _ "takeWhile P S"] exI [of _ "dropWhile P S"]) (auto simp: skip_cut_def)
next
  case (snoc A0 x)
  with cut have x: "x = p" "P p" by (auto simp: skip_cut_def)
  obtain X W where S: "S = X @ p # W" "subseq A0 X" "subseq B W"
    using sub snoc x by (auto elim: subseq_split_at)
  have np: "p \<noteq> IDXLIST_INVAL" and chp: "chain IDXLIST_INVAL n p (p # W)"
    using ch S seg_nil_notin [OF ch] by (auto simp: seg_append)
  have hd: "dropWhile P W = [] \<or> \<not> P (hd (dropWhile P W))"
    using hd_dropWhile by blast
  have l: "P (last (p # takeWhile P W))"
    using x by (metis last_ConsL last_ConsR last_in_set set_takeWhileD)
  have "skip_find f t l ts p p = Some (last (p # takeWhile P (p # W)))"
    using skip_find_chain [of t l p "p # W" f ts p] chp P S by simp
  also have "last (p # takeWhile P (p # W)) = last (p # takeWhile P W)"
    using x by simp
  finally have f: "skip_find f t l ts p p = Some (last (p # takeWhile P W))" .
  have B: "subseq B (dropWhile P W)"
    using S cut by (auto simp: skip_cut_def intro: takeWhile_cut)
  have A: "subseq A (X @ p # takeWhile P W)"
    using S snoc x by (simp add: list_emb_append_mono)
  show ?thesis
    using S A B f l np hd
    by (intro exI [of _ "X @ p # takeWhile P W"] exI [of _ "dropWhile P W"]) (auto simp: skip_cut_def)
qed

lemma skip_cut_levels:
  assumes "qrep t L S" and "k \<le> 4" and P: "P = (\<lambda>i. timestamp_lessthaneq t (next_ts (getq t i)) ts)"
    and top: "skip_cut P A B p" "k < 4 \<longrightarrow> A @ B = S k" "k = 4 \<longrightarrow> A = [] \<and> B = []"
  shows "\<exists>As Bs preds. skip_preds t ts k p acc = Some (preds @ acc) \<and> length preds = k \<and>
    (\<forall>l<k. S l = As l @ Bs l \<and> skip_cut P (As l) (Bs l) (preds ! l)) \<and>
    (\<forall>l<k. subseq (if Suc l = k then A else As (Suc l)) (As l) \<and>
           subseq (if Suc l = k then B else Bs (Suc l)) (Bs l))"
  using assms(2-)
proof (induction k arbitrary: A B p acc)
  case (Suc k)
  have len: "length (S k) < length (queues t) + 1"
    using qrep_length [OF assms(1)] levels_subset [of 3 S k] assms(1) Suc.prems
    by (auto simp: qrep_def dest: list_emb_length)
  have sub: "subseq (A @ B) (S k)"
    using assms(1) Suc.prems by (cases "Suc k < 4") (auto simp: qrep_def)
  have ch: "chain IDXLIST_INVAL (nxt t k) (head_idx t ! k) (S k)"
    using assms(1) Suc.prems by (simp add: qrep_def)
  obtain A' B' p' where s: "S k = A' @ B'" "subseq A A'" "subseq B B'" "skip_cut P A' B' p'"
    "skip_find (length (queues t) + 1) t k ts p (if p \<noteq> IDXLIST_INVAL then p else head_idx t ! k) = Some p'"
    using skip_level_step [OF Suc.prems(3) sub ch P refl len] by blast
  obtain As Bs preds where IH: "skip_preds t ts k p' (p' # acc) = Some (preds @ p' # acc)" "length preds = k"
    "\<And>l. l < k \<Longrightarrow> S l = As l @ Bs l \<and> skip_cut P (As l) (Bs l) (preds ! l)"
    "\<And>l. l < k \<Longrightarrow> subseq (if Suc l = k then A' else As (Suc l)) (As l) \<and>
           subseq (if Suc l = k then B' else Bs (Suc l)) (Bs l)"
    using Suc.IH [of A' B' p' "p' # acc"] Suc.prems s by auto
  show ?case
    apply (rule exI [of _ "As(k := A')"], rule exI [of _ "Bs(k := B')"], rule exI [of _ "preds @ [p']"])
    using s IH by (auto simp: less_Suc_eq nth_append split: if_splits)
qed simp

text \<open>Insertion: everything but the links is framed.\<close>

definition qrest :: "queue \<Rightarrow> queue" where "qrest q = q\<lparr>next_idxs := []\<rparr>"

lemma qrest_links [simp]: "qrest (q\<lparr>next_idxs := x\<rparr>) = qrest q"
  by (simp add: qrest_def)

definition qframe :: "qman_thread \<Rightarrow> qman_thread \<Rightarrow> bool" where
  "qframe t t' \<longleftrightarrow> map qrest (queues t') = map qrest (queues t) \<and>
     nolimit_head_idx t' = nolimit_head_idx t \<and> nolimit_tail_idx t' = nolimit_tail_idx t \<and>
     ts_virtual t' = ts_virtual t \<and> ts_real t' = ts_real t \<and> nolimit_first t' = nolimit_first t"

lemma qframe_refl [simp]: "qframe t t"
  by (simp add: qframe_def)

lemma qframe_trans: "qframe t t' \<Longrightarrow> qframe t' t'' \<Longrightarrow> qframe t t''"
  by (simp add: qframe_def)

lemma qframe_updq: "(\<And>q. qrest (f q) = qrest q) \<Longrightarrow> qframe t (updq t i f)"
  by (simp add: qframe_def map_queues_updq)

lemma qframe_head [simp]: "qframe t (t'\<lparr>head_idx := a\<rparr>) = qframe t t'"
  by (simp add: qframe_def)

lemma qframe_length: "qframe t t' \<Longrightarrow> length (queues t') = length (queues t)"
  unfolding qframe_def using map_eq_imp_length_eq by blast

lemma qframe_map:
  assumes "qframe t t'" "\<And>q. g (qrest q) = g q"
  shows "map g (queues t') = map g (queues t)"
proof -
  have "map g (map qrest (queues t')) = map g (map qrest (queues t))"
    using assms(1) by (simp only: qframe_def)
  then show ?thesis by (simp add: comp_def assms(2))
qed

lemma qframe_getq:
  assumes "qframe t t'" "qvalid t i" "\<And>q. g (qrest q) = g q"
  shows "g (getq t' i) = g (getq t i)"
  using qframe_map [OF assms(1), of g] assms(2,3) qframe_length [OF assms(1)] by (metis nth_map)

lemma skip_link_frame: "qframe t (skip_link q level preds l t)"
  by (auto simp: skip_link_def Let_def intro!: qframe_updq qframe_trans [OF qframe_updq qframe_updq])

lemma skip_link_chain:
  assumes wf: "qman_wf t" and q: "qvalid t q" "q \<notin> set (A @ B)" and l: "l < 4"
    and p: "preds ! l = last (IDXLIST_INVAL # A)" and ch: "chain IDXLIST_INVAL (nxt t l) (head_idx t ! l) (A @ B)"
    and d: "distinct (A @ B)" "\<forall>i\<in>set (A @ B). qvalid t i"
  shows "\<exists>n' h'. nxt (skip_link q level preds l t) = (nxt t)(l := n') \<and>
     head_idx (skip_link q level preds l t) = (head_idx t)[l := h'] \<and>
     chain IDXLIST_INVAL n' h' (if l \<le> level then A @ q # B else A @ B) \<and>
     (\<forall>i. i \<noteq> q \<and> i \<notin> set (A @ B) \<longrightarrow> n' i = nxt t l i) \<and>
     qman_wf (skip_link q level preds l t)"
proof -
  have nq: "q \<noteq> IDXLIST_INVAL"
    using wf q(1) by (rule qvalid_not_inval)
  have link: "nxt (updq t' i (\<lambda>q. q\<lparr>next_idxs := (next_idxs q)[l := v]\<rparr>)) = (nxt t')(l := (nxt t' l)(i := v))"
    if "qman_wf t'" "qvalid t' i" for t' i v
    using that l by (intro nxt_updq_link) auto
  have hl: "length (head_idx t) = 4" using wf by (simp add: qman_wf_def)
  consider "l > level" | "l \<le> level" "A = []" | A0 x where "l \<le> level" "A = A0 @ [x]"
    by (metis not_le rev_exhaust)
  then show ?thesis
  proof cases
    case 1
    then show ?thesis
      using q ch wf by (auto simp: skip_link_def link intro!: exI [of _ "(nxt t l)(q := IDXLIST_INVAL)"] exI [of _ "head_idx t ! l"])
  next
    case 2
    then show ?thesis
      using q ch wf p nq hl by (auto simp: skip_link_def link intro!: exI [of _ "(nxt t l)(q := head_idx t ! l)"] exI [of _ q])
  next
    case 3
    then have x: "qvalid t x" "x \<noteq> IDXLIST_INVAL" "x \<noteq> q" "preds ! l = x"
      using d q p qvalid_not_inval [OF wf, of x] by auto
    have "chain IDXLIST_INVAL ((nxt t l)(q := nxt t l x, x := q)) (head_idx t ! l) (A @ q # B)"
      using seg_insert_after [of IDXLIST_INVAL "nxt t l" "head_idx t ! l" A0 x B IDXLIST_INVAL q] 3 ch d q nq by simp
    then show ?thesis
      using 3 x wf q
      by (auto simp: skip_link_def link nxt_def [of t l x, symmetric] intro!: exI [of _ "(nxt t l)(q := nxt t l x, x := q)"] exI [of _ "head_idx t ! l"])
  qed
qed

lemma skip_insert_frame: "qframe t (skip_insert q level preds k t)"
  by (induction k arbitrary: t) (auto intro: qframe_trans skip_link_frame)

lemma skip_insert_chain:
  fixes level :: nat
  assumes "qman_wf t" "qvalid t q" "k \<le> 4"
    and "\<And>l. l < k \<Longrightarrow> S l = As l @ Bs l \<and> preds ! l = last (IDXLIST_INVAL # As l) \<and>
           chain IDXLIST_INVAL (nxt t l) (head_idx t ! l) (S l) \<and> distinct (S l) \<and> set (S l) \<subseteq> X"
    and X: "q \<notin> X" "\<forall>i\<in>X. qvalid t i"
  defines "t' \<equiv> skip_insert q level preds k t"
  shows "qman_wf t' \<and> (\<forall>l\<ge>k. l < 4 \<longrightarrow> nxt t' l = nxt t l \<and> head_idx t' ! l = head_idx t ! l) \<and>
    (\<forall>l<k. chain IDXLIST_INVAL (nxt t' l) (head_idx t' ! l) (if l \<le> level then As l @ q # Bs l else S l)) \<and>
    (\<forall>l<4. \<forall>i. i \<noteq> q \<and> i \<notin> X \<longrightarrow> nxt t' l i = nxt t l i)"
  using assms(1-6) unfolding t'_def
proof (induction k arbitrary: t)
  case (Suc k)
  let ?u = "skip_link q level preds k t"
  have k: "S k = As k @ Bs k" "preds ! k = last (IDXLIST_INVAL # As k)"
    "chain IDXLIST_INVAL (nxt t k) (head_idx t ! k) (As k @ Bs k)" "distinct (As k @ Bs k)" "set (As k @ Bs k) \<subseteq> X"
    using Suc.prems(4) [of k] by auto
  then have qk: "q \<notin> set (As k @ Bs k)" and vk: "\<forall>i\<in>set (As k @ Bs k). qvalid t i" and k4: "k < 4"
    using Suc.prems by auto
  obtain n' h' where u: "nxt ?u = (nxt t)(k := n')" "head_idx ?u = (head_idx t)[k := h']"
    "chain IDXLIST_INVAL n' h' (if k \<le> level then As k @ q # Bs k else As k @ Bs k)"
    "\<And>i. i \<noteq> q \<and> i \<notin> set (As k @ Bs k) \<Longrightarrow> n' i = nxt t k i" "qman_wf ?u"
    using skip_link_chain [OF Suc.prems(1,2) qk k4 k(2,3,4) vk, of level] by blast
  have len: "length (queues ?u) = length (queues t)" "length (head_idx t) = 4"
    using skip_link_frame qframe_length Suc.prems(1) unfolding qman_wf_def by blast+
  let ?w = "skip_insert q level preds k ?u"
  have q': "qvalid ?u q" and X': "\<forall>i\<in>X. qvalid ?u i"
    using Suc.prems(2,6) len by simp_all
  have "S l = As l @ Bs l \<and> preds ! l = last (IDXLIST_INVAL # As l) \<and>
           chain IDXLIST_INVAL (nxt ?u l) (head_idx ?u ! l) (S l) \<and> distinct (S l) \<and> set (S l) \<subseteq> X" if "l < k" for l
    using Suc.prems(4) [of l] that u(1,2) by auto
  note IH = Suc.IH [OF u(5) q' less_imp_le [OF k4] this Suc.prems(5) X', rule_format]
  show ?case
    unfolding skip_insert.simps
    using IH u len k k4 by (intro conjI) (auto simp: less_Suc_eq)
qed simp

lemma skip_cut_top: "skip_cut P [] [] IDXLIST_INVAL"
  by (simp add: skip_cut_def)

lemma skip_preds_cut:
  fixes ts :: u32
  assumes "qrep t L S"
  defines "P \<equiv> \<lambda>i. timestamp_lessthaneq t (next_ts (getq t i)) ts"
  obtains As Bs preds where "skip_preds t ts 4 IDXLIST_INVAL [] = Some preds"
    "\<And>l. l < 4 \<Longrightarrow> S l = As l @ Bs l \<and> skip_cut P (As l) (Bs l) (preds ! l)"
    "\<And>l. l < 3 \<Longrightarrow> subseq (As (Suc l)) (As l) \<and> subseq (Bs (Suc l)) (Bs l)"
proof -
  have PP: "P = (\<lambda>i. timestamp_lessthaneq t (next_ts (getq t i)) ts)"
    by (simp add: P_def)
  have "4 < (4::nat) \<longrightarrow> [] @ [] = S 4" "4 = (4::nat) \<longrightarrow> ([]::u32 list) = [] \<and> ([]::u32 list) = []"
    by simp_all
  from skip_cut_levels [OF assms(1) order_refl PP skip_cut_top this, of "[]"]
  obtain As Bs preds where r: "skip_preds t ts 4 IDXLIST_INVAL [] = Some preds"
    "\<And>l. l < 4 \<Longrightarrow> S l = As l @ Bs l \<and> skip_cut P (As l) (Bs l) (preds ! l)"
    and s: "\<And>l. l < 4 \<Longrightarrow> subseq (if Suc l = 4 then [] else As (Suc l)) (As l) \<and>
           subseq (if Suc l = 4 then [] else Bs (Suc l)) (Bs l)"
    by auto
  have "subseq (As (Suc l)) (As l) \<and> subseq (Bs (Suc l)) (Bs l)" if "l < 3" for l
    using s [of l] that by simp
  with r show ?thesis by (rule that)
qed

lemma subseq_levels_inserted:
  assumes "\<forall>l<3. subseq (As (Suc l)) (As l) \<and> subseq (Bs (Suc l)) (Bs l)"
    "\<forall>l<4. S l = As l @ Bs l" "\<forall>l<3. subseq (S (Suc l)) (S l)" "l < 3"
  shows "subseq (if Suc l \<le> level then As (Suc l) @ q # Bs (Suc l) else S (Suc l))
                (if l \<le> level then As l @ q # Bs l else S l)"
  using assms by (auto intro: subseq_insert_both subseq_insert_right)

lemma queue_activate_skiplist_rep:
  assumes rep: "qrep t L S" and q: "qvalid t q" "q \<notin> set (L @ S 0)"
    and fl: "q_flags (getq t q) AND (FLAG_INSKIPLIST OR FLAG_INNOLIMITL) = 0"
  shows "\<exists>t' S'. queue_activate_skiplist t q = Inr t' \<and> qrep t' L S' \<and>
     set (S' 0) = insert q (set (S 0)) \<and> length (S' 0) = Suc (length (S 0)) \<and>
     map qcore (queues t') = map qcore (queues t) \<and>
     (\<forall>i. qvalid t i \<longrightarrow> q_flags (getq t' i) = (if i = q then q_flags (getq t q) OR FLAG_INSKIPLIST else q_flags (getq t i)))"
proof -
  let ?ts = "skip_ts t (getq t q)"
  let ?t1 = "updq t q (\<lambda>q. q\<lparr>next_ts := ?ts\<rparr>)"
  let ?P = "\<lambda>i. timestamp_lessthaneq ?t1 (next_ts (getq ?t1 i)) ?ts"
  have n1: "nxt ?t1 = nxt t" using q by (intro nxt_updq_same) simp_all
  have rep1: "qrep ?t1 L S" using rep q by (simp add: qrep_def n1)
  obtain As Bs preds where pr: "skip_preds ?t1 ?ts 4 IDXLIST_INVAL [] = Some preds"
    and cut: "\<And>l. l < 4 \<Longrightarrow> S l = As l @ Bs l \<and> skip_cut ?P (As l) (Bs l) (preds ! l)"
    and sub: "\<And>l. l < 3 \<Longrightarrow> subseq (As (Suc l)) (As l) \<and> subseq (Bs (Suc l)) (Bs l)"
    using rep1 by (rule skip_preds_cut [where ts = ?ts]) blast
  obtain level r where lv: "queue_level ?t1 = (level, ?t1\<lparr>rng := r\<rparr>)"
    by (cases "utils_rng_gen32 (rng t)") (simp add: queue_level_def Let_def)
  let ?t2 = "?t1\<lparr>rng := r\<rparr>"
  let ?t3 = "skip_insert q level preds 4 ?t2"
  let ?t' = "updq ?t3 q (\<lambda>q. q\<lparr>q_flags := q_flags q OR FLAG_INSKIPLIST\<rparr>)"
  let ?S = "\<lambda>l. if l \<le> level then As l @ q # Bs l else S l"
  have act: "queue_activate_skiplist t q = Inr ?t'"
    using fl pr lv by (simp add: queue_activate_skiplist_def Let_def)
  have fr: "qframe ?t2 ?t3" by (rule skip_insert_frame)
  have len: "length (queues ?t3) = length (queues t)"
    using qframe_length [OF fr] by simp
  have ch: "chain IDXLIST_INVAL (nxt ?t2 l) (head_idx ?t2 ! l) (S l)" if "l < 4" for l
    using that rep1 by (simp add: qrep_def)
  have "S l = As l @ Bs l \<and> preds ! l = last (IDXLIST_INVAL # As l) \<and>
     chain IDXLIST_INVAL (nxt ?t2 l) (head_idx ?t2 ! l) (S l) \<and> distinct (S l) \<and> set (S l) \<subseteq> set (S 0)"
    if "l < 4" for l
    using cut [OF that] ch [OF that] qrep_levels [OF rep1 that] qrep_distinct [OF rep1 that]
    unfolding skip_cut_def by blast
  note chains = this
  have pre: "qman_wf ?t2" "qvalid ?t2 q" "q \<notin> set (S 0)" "\<forall>i\<in>set (S 0). qvalid ?t2 i" "nxt ?t2 = nxt t"
    using rep1 q n1 by (simp_all add: qrep_def)
  note ins4 = skip_insert_chain [OF pre(1,2) order_refl chains pre(3,4), of level, simplified pre(5)]
  have ins: "qman_wf ?t3" "\<And>l. l < 4 \<Longrightarrow> chain IDXLIST_INVAL (nxt ?t3 l) (head_idx ?t3 ! l) (?S l)"
    "\<And>i. i \<noteq> q \<Longrightarrow> i \<notin> set (S 0) \<Longrightarrow> nxt ?t3 0 i = nxt t 0 i"
    using ins4 by simp_all
  have q3: "qvalid ?t3 q" using q len by simp
  have n': "nxt ?t' = nxt ?t3" using q3 by (intro nxt_updq_same) simp_all
  have L: "chain IDXLIST_INVAL (nxt ?t3 0) (nolimit_head_idx t) L"
  proof -
    have "x \<noteq> q \<and> x \<notin> set (S 0)" if "x \<in> set L" for x
      using that rep q by (auto simp: qrep_def)
    then have "nxt ?t3 0 x = nxt t 0 x" if "x \<in> set L" for x
      using that ins(3) by blast
    from seg_cong [OF this] rep show ?thesis by (simp add: qrep_def)
  qed
  have S0: "set (?S 0) = insert q (set (S 0))" "distinct (?S 0)" "length (?S 0) = Suc (length (S 0))"
    using cut [of 0] rep q by (auto simp: qrep_def)
  have "qrep ?t' L ?S"
    unfolding qrep_def n'
    using subseq_levels_inserted [of As Bs S _ level q] cut sub rep S0 L ins q3 len fr q
    by (auto simp: qrep_def qframe_def)
  moreover have "map qcore (queues ?t') = map qcore (queues t)"
    using qframe_map [OF fr, of qcore] by (simp add: map_queues_updq qcore_def qrest_def)
  moreover have "q_flags (getq ?t' i) = (if i = q then q_flags (getq t q) OR FLAG_INSKIPLIST else q_flags (getq t i))"
    if "qvalid t i" for i
    using qframe_getq [OF fr, of i q_flags] that q q3 by (auto simp: getq_updq qrest_def)
  ultimately show ?thesis
    using act S0 by blast
qed



definition qstate :: "u32 set \<Rightarrow> qman_thread \<Rightarrow> u32 list \<Rightarrow> (nat \<Rightarrow> u32 list) \<Rightarrow> bool" where
  "qstate X t L S \<longleftrightarrow> qrep t L S \<and> qflags t L S \<and>
     (\<forall>i. qvalid t i \<longrightarrow> i \<notin> X \<longrightarrow> 0 < q_avail (getq t i) \<longrightarrow> i \<in> set (L @ S 0))"

lemma bit_u8_1: "bit (1 :: u8) n \<longleftrightarrow> n = 0" by (simp add: bit_1_iff)
lemma bit_u8_2: "bit (2 :: u8) n \<longleftrightarrow> n = 1"
  using bit_exp_iff [of 1 n, where 'a = u8] by auto

lemma flags_bits [simp]:
  "bit (x OR FLAG_INSKIPLIST) n \<longleftrightarrow> bit x n \<or> n = 0" "bit (x OR FLAG_INNOLIMITL) n \<longleftrightarrow> bit x n \<or> n = 1"
  "bit (x AND NOT FLAG_INSKIPLIST) n \<longleftrightarrow> bit x n \<and> n \<noteq> 0" "bit (x AND NOT FLAG_INNOLIMITL) n \<longleftrightarrow> bit x n \<and> n \<noteq> 1"
  for x :: u8
  using bit_imp_le_length [of x n]
  by (auto simp only: bit_or_iff bit_and_iff bit_not_iff bit_u8_1 bit_u8_2 possible_bit_word)

lemma flags_bits_neg [simp]:
  "bit (x AND - 2) n \<longleftrightarrow> bit x n \<and> n \<noteq> 0" "bit (x AND - 3) n \<longleftrightarrow> bit x n \<and> n \<noteq> 1" for x :: u8
  using flags_bits(3,4) [of x n] by simp_all

lemma flags_inskip_iff: "(x :: u8) AND FLAG_INSKIPLIST = 0 \<longleftrightarrow> \<not> bit x 0"
proof -
  have "(x AND FLAG_INSKIPLIST = 0) \<longleftrightarrow> (\<forall>n. \<not> bit (x AND FLAG_INSKIPLIST) n)"
    by (metis bit_eqI bit_0_eq bot_apply bot_bool_def)
  then show ?thesis by (simp only: bit_and_iff bit_u8_1) blast
qed

lemma flags_clear_iff: "(x :: u8) AND (FLAG_INSKIPLIST OR FLAG_INNOLIMITL) = 0 \<longleftrightarrow> \<not> bit x 0 \<and> \<not> bit x 1"
proof -
  have "(x AND (FLAG_INSKIPLIST OR FLAG_INNOLIMITL) = 0) \<longleftrightarrow> (\<forall>n. \<not> bit (x AND (FLAG_INSKIPLIST OR FLAG_INNOLIMITL)) n)"
    by (metis bit_eqI bit_0_eq bot_apply bot_bool_def)
  then show ?thesis by (simp only: bit_and_iff bit_or_iff bit_u8_1 bit_u8_2) blast
qed

lemma qstate_inactive:
  assumes "qstate X t L S" "qvalid t q"
  shows "q_flags (getq t q) AND (FLAG_INSKIPLIST OR FLAG_INNOLIMITL) = 0 \<longleftrightarrow> q \<notin> set (L @ S 0)"
  unfolding flags_clear_iff using assms by (auto simp: qstate_def qflags_def)

lemma qstate_valid: "qstate X t L S \<Longrightarrow> i \<in> set (L @ S 0) \<Longrightarrow> qvalid t i"
  by (auto simp: qstate_def qrep_def)

lemma map_getq:
  assumes "map g (queues t') = map g (queues t)" "qvalid t i"
  shows "g (getq t' i) = g (getq t i)"
  using assms by (metis nth_map map_eq_imp_length_eq)

lemma nolimit_push_simps:
  "length (queues (nolimit_push t q)) = length (queues t)"
  "map qcore (queues (nolimit_push t q)) = map qcore (queues t)"
  by (simp_all add: nolimit_push_def Let_def map_queues_updq qcore_def)

lemma nolimit_push_flags:
  assumes "qvalid t q" "nolimit_tail_idx t = IDXLIST_INVAL \<or> qvalid t (nolimit_tail_idx t)" "qvalid t i"
  shows "q_flags (getq (nolimit_push t q) i) = (if i = q then q_flags (getq t q) OR FLAG_INNOLIMITL else q_flags (getq t i))"
  using assms by (auto simp: nolimit_push_def Let_def getq_updq)

lemma queue_activate_state:
  assumes st: "qstate {q} t L S" and q: "qvalid t q" "q \<notin> set (L @ S 0)"
  shows "\<exists>t' L' S'. queue_activate t q = Inr t' \<and> qstate {} t' L' S' \<and>
     length L' + length (S' 0) = Suc (length L + length (S 0)) \<and> map qcore (queues t') = map qcore (queues t)"
proof -
  have rep: "qrep t L S" using st by (simp add: qstate_def)
  have fl: "q_flags (getq t q) AND (FLAG_INSKIPLIST OR FLAG_INNOLIMITL) = 0"
    using qstate_inactive [OF st q(1)] q(2) by simp
  have keep: "qstate {} t' L' S'"
    if r: "qrep t' L' S'" and c: "map qcore (queues t') = map qcore (queues t)"
      and m: "set (L' @ S' 0) = insert q (set (L @ S 0))" and f: "qflags t' L' S'" for t' L' S'
  proof -
    have "q_avail (getq t' i) = q_avail (getq t i)" if "qvalid t i" for i
      using map_getq [OF c that] by (simp add: qcore_def)
    moreover have "length (queues t') = length (queues t)"
      using c map_eq_imp_length_eq by blast
    ultimately show ?thesis
      using st r f m unfolding qstate_def by auto
  qed
  show ?thesis
  proof (cases "q_rate (getq t q) = 0")
    case True
    have tl: "nolimit_tail_idx t = IDXLIST_INVAL \<or> qvalid t (nolimit_tail_idx t)"
      using rep by (auto simp: qrep_def)
    have "qflags (nolimit_push t q) (L @ [q]) S"
      using st q by (auto simp: qflags_def qstate_def nolimit_push_simps nolimit_push_flags [OF q(1) tl])
    then have "qstate {} (nolimit_push t q) (L @ [q]) S"
      using nolimit_push_rep [OF rep q] by (intro keep) (auto simp: nolimit_push_simps)
    then show ?thesis
      using True fl by (intro exI [of _ "nolimit_push t q"] exI [of _ "L @ [q]"] exI [of _ S])
        (simp add: queue_activate_def queue_activate_nolimit_def nolimit_push_simps)
  next
    case False
    obtain t' S' where a: "queue_activate_skiplist t q = Inr t'" "qrep t' L S'"
      "set (S' 0) = insert q (set (S 0))" "length (S' 0) = Suc (length (S 0))"
      "map qcore (queues t') = map qcore (queues t)"
      "\<And>i. qvalid t i \<Longrightarrow> q_flags (getq t' i) = (if i = q then q_flags (getq t q) OR FLAG_INSKIPLIST else q_flags (getq t i))"
      using queue_activate_skiplist_rep [OF rep q fl] by blast
    have "length (queues t') = length (queues t)"
      using a(5) map_eq_imp_length_eq by blast
    then have "qflags t' L S'"
      using st q a by (auto simp: qflags_def qstate_def)
    then have "qstate {} t' L S'"
      using a by (intro keep) auto
    then show ?thesis
      using False a by (intro exI [of _ t'] exI [of _ L] exI [of _ S']) (simp add: queue_activate_def)
  qed
qed

text \<open>What firing does to the configuration and budget of the queues.\<close>

definition fired :: "u32 \<Rightarrow> (u32 \<times> u16 \<times> u8) list \<Rightarrow> nat" where
  "fired i out = sum_list (map (\<lambda>(j, b, _). if j = i then unat b else 0) out)"

definition polled :: "qman_thread \<Rightarrow> qman_thread \<Rightarrow> (u32 \<times> u16 \<times> u8) list \<Rightarrow> bool" where
  "polled t t' out \<longleftrightarrow> length (queues t') = length (queues t) \<and>
     (\<forall>i. qvalid t i \<longrightarrow> q_rate (getq t' i) = q_rate (getq t i) \<and> max_chunk (getq t' i) = max_chunk (getq t i) \<and>
        q_opaque (getq t' i) = q_opaque (getq t i) \<and> unat (q_avail (getq t i)) = unat (q_avail (getq t' i)) + fired i out) \<and>
     (\<forall>(j, b, x) \<in> set out. qvalid t j \<and> b \<le> max_chunk (getq t j) \<and> x = q_opaque (getq t j))"

lemma fired_append [simp]: "fired i (xs @ ys) = fired i xs + fired i ys"
  by (simp add: fired_def)

lemma polled_trans: "polled t t' out \<Longrightarrow> polled t' t'' out' \<Longrightarrow> polled t t'' (out @ out')"
  by (fastforce simp: polled_def)

lemma polled_core: "map qcore (queues t') = map qcore (queues t) \<Longrightarrow> polled t t' []"
  unfolding polled_def using map_getq [of qcore t' t] map_eq_imp_length_eq [of qcore "queues t'" qcore "queues t"]
  by (simp add: qcore_def fired_def)

lemma queue_fire_state:
  assumes st: "qstate {q} t L S" and q: "qvalid t q" "q \<notin> set (L @ S 0)" and av: "q_avail (getq t q) > 0"
  shows "\<exists>t' e L' S'. queue_fire t q = Inr (t', e) \<and> qstate {} t' L' S' \<and>
     length L' + length (S' 0) \<le> Suc (length L + length (S 0)) \<and> polled t t' [e]"
proof -
  let ?q = "getq t q"
  define b where "b = (if q_avail ?q \<le> ucast (max_chunk ?q) then q_avail ?q else ucast (max_chunk ?q))"
  define t1 where "t1 = updq t q (\<lambda>q. q\<lparr>q_avail := q_avail q - b\<rparr>)"
  define t2 where "t2 = (if q_rate ?q > 0 then updq t1 q (\<lambda>q. q\<lparr>next_ts := queue_new_ts t1 q b\<rparr>) else t1)"
  let ?e = "(q, ucast b :: u16, q_opaque ?q)"
  have b: "unat b \<le> unat (q_avail ?q)" "unat b \<le> unat (max_chunk ?q)"
    by (auto simp: b_def word_le_nat_alt)
  have ub: "unat (ucast b :: u16) = unat b"
    using b(2) unat_u16_bound [of "max_chunk ?q"] by (simp add: unat_u32_u16)
  have g2: "getq t2 i = (if i = q then (getq t2 q) else getq t i)" "q_flags (getq t2 i) = q_flags (getq t i)"
    "q_avail (getq t2 i) = (if i = q then q_avail ?q - b else q_avail (getq t i))"
    "q_rate (getq t2 i) = q_rate (getq t i)" "max_chunk (getq t2 i) = max_chunk (getq t i)"
    "q_opaque (getq t2 i) = q_opaque (getq t i)" for i
    using q by (auto simp: t2_def t1_def getq_updq)
  have l2: "length (queues t2) = length (queues t)"
    by (simp add: t2_def t1_def)
  have n2: "nxt t2 = nxt t"
    using q by (simp add: t2_def t1_def nxt_updq_same)
  have fld: "head_idx t2 = head_idx t" "nolimit_head_idx t2 = nolimit_head_idx t" "nolimit_tail_idx t2 = nolimit_tail_idx t"
    by (simp_all add: t2_def t1_def)
  have "qman_wf t2" using st q by (auto simp: t2_def t1_def qstate_def qrep_def)
  then have st2: "qstate {q} t2 L S"
    using st by (simp add: qstate_def qrep_def qflags_def l2 n2 fld g2(2,3))
  have p2: "polled t t2 [?e]"
    using b q ub by (auto simp: polled_def l2 g2(3-6) fired_def unat_sub word_le_nat_alt)
  have f: "queue_fire t q = bind_res (if q_avail (getq t2 q) > 0 then queue_activate t2 q else Inr t2) (\<lambda>t. Inr (t, ?e))"
    unfolding queue_fire_def Let_def b_def [symmetric] t1_def [symmetric] t2_def [symmetric] using av by simp
  show ?thesis
  proof (cases "q_avail (getq t2 q) > 0")
    case True
    obtain t' L' S' where a: "queue_activate t2 q = Inr t'" "qstate {} t' L' S'"
      "length L' + length (S' 0) = Suc (length L + length (S 0))" "map qcore (queues t') = map qcore (queues t2)"
      using queue_activate_state [OF st2] q l2 by auto
    then show ?thesis
      using True f polled_trans [OF p2 polled_core [OF a(4)]]
      by (intro exI [of _ t'] exI [of _ ?e] exI [of _ L'] exI [of _ S']) simp
  next
    case False
    then have "qstate {} t2 L S" using st2 by (auto simp: qstate_def)
    then show ?thesis
      using False f p2 by (intro exI [of _ t2] exI [of _ ?e] exI [of _ L] exI [of _ S]) simp
  qed
qed


lemma nolimit_pop_state:
  assumes st: "qstate {} t (q # L) S"
  shows "qstate {q} (nolimit_pop t) L S" "map qcore (queues (nolimit_pop t)) = map qcore (queues t)"
proof -
  have q: "qvalid t q" "nolimit_head_idx t = q" and rep: "qrep t (q # L) S"
    using st by (auto simp: qstate_def qrep_def)
  show c: "map qcore (queues (nolimit_pop t)) = map qcore (queues t)"
    by (simp add: nolimit_pop_def Let_def map_queues_updq qcore_def)
  have f: "q_flags (getq (nolimit_pop t) i) = (if i = q then q_flags (getq t q) AND NOT FLAG_INNOLIMITL else q_flags (getq t i))" for i
    using q by (simp add: nolimit_pop_def Let_def getq_updq)
  have a: "q_avail (getq (nolimit_pop t) i) = q_avail (getq t i)" if "qvalid t i" for i
    using map_getq [OF c that] by (simp add: qcore_def)
  have "length (queues (nolimit_pop t)) = length (queues t)"
    using c map_eq_imp_length_eq by blast
  moreover have "q \<notin> set L" "q \<notin> set (S 0)" using rep by (auto simp: qrep_def)
  ultimately show "qstate {q} (nolimit_pop t) L S"
    using st nolimit_pop_rep [OF rep] by (auto simp: qstate_def qflags_def f a)
qed

lemma poll_nolimit_state:
  assumes "qstate {} t L S" "f > (num - length out) + length L + length (S 0)" "length out \<le> num"
  shows "\<exists>t' new L' S'. poll_nolimit f t num out = Inr (t', out @ new) \<and> qstate {} t' L' S' \<and>
     polled t t' new \<and> length (out @ new) \<le> num \<and> (length (out @ new) < num \<longrightarrow> L' = [])"
  using assms
proof (induction f arbitrary: t L S out)
  case (Suc f)
  have rep: "qrep t L S" using Suc.prems by (simp add: qstate_def)
  then have hd: "nolimit_head_idx t = IDXLIST_INVAL \<longleftrightarrow> L = []"
    by (cases L) (auto simp: qrep_def)
  show ?case
  proof (cases "length out < num \<and> L \<noteq> []")
    case False
    then have "poll_nolimit (Suc f) t num out = Inr (t, out)"
      using hd by auto
    then show ?thesis
      using Suc.prems False polled_core [of t t]
      by (intro exI [of _ t] exI [of _ "[]"] exI [of _ L] exI [of _ S]) auto
  next
    case True
    then obtain q L1 where L: "L = q # L1" by (cases L) auto
    have h: "nolimit_head_idx t = q" using rep L by (simp add: qrep_def)
    let ?t1 = "nolimit_pop t"
    note pop = nolimit_pop_state [OF Suc.prems(1) [unfolded L]]
    have q1: "qvalid ?t1 q" "q \<notin> set (L1 @ S 0)"
      using rep L pop(2) map_eq_imp_length_eq [OF pop(2)] by (auto simp: qrep_def)
    show ?thesis
    proof (cases "q_avail (getq ?t1 q) > 0")
      case av: True
      obtain t2 e L2 S2 where fire: "queue_fire ?t1 q = Inr (t2, e)" "qstate {} t2 L2 S2"
        "length L2 + length (S2 0) \<le> Suc (length L1 + length (S 0))" "polled ?t1 t2 [e]"
        using queue_fire_state [OF pop(1) q1 av] by blast
      have "f > (num - length (out @ [e])) + length L2 + length (S2 0)" "length (out @ [e]) \<le> num"
        using Suc.prems(2,3) fire(3) True L by auto
      from Suc.IH [OF fire(2) this] obtain t' new L' S' where
        IH: "poll_nolimit f t2 num (out @ [e]) = Inr (t', (out @ [e]) @ new)" "qstate {} t' L' S'" "polled t2 t' new"
        "length ((out @ [e]) @ new) \<le> num" "length ((out @ [e]) @ new) < num \<longrightarrow> L' = []"
        by blast
      have "polled t t' (e # new)"
        using polled_trans [OF polled_trans [OF polled_core [OF pop(2)] fire(4)] IH(3)] by simp
      then show ?thesis
        using IH True hd h L av fire(1) by (intro exI [of _ t'] exI [of _ "e # new"] exI [of _ L'] exI [of _ S']) (simp add: Let_def)
    next
      case na: False
      then have st1: "qstate {} ?t1 L1 S" using pop(1) by (auto simp: qstate_def)
      have "f > (num - length out) + length L1 + length (S 0)" using Suc.prems(2) L by simp
      from Suc.IH [OF st1 this Suc.prems(3)] obtain t' new L' S' where
        IH: "poll_nolimit f ?t1 num out = Inr (t', out @ new)" "qstate {} t' L' S'" "polled ?t1 t' new"
        "length (out @ new) \<le> num" "length (out @ new) < num \<longrightarrow> L' = []"
        by blast
      have "polled t t' new"
        using polled_trans [OF polled_core [OF pop(2)] IH(3)] by simp
      then show ?thesis
        using IH True hd h L na by (intro exI [of _ t'] exI [of _ "new"] exI [of _ L'] exI [of _ S']) (simp add: Let_def)
    qed
  qed
qed simp

text \<open>Unlinking the head of the skip list.\<close>

lemma subseq_head:
  assumes "subseq ys (x # xs)" "x \<notin> set xs" "x \<in> set ys"
  shows "hd ys = x"
proof (cases ys)
  case (Cons a as)
  then show ?thesis
    using assms subseq_set [of ys xs] by (cases "a = x") (auto simp: subseq_Cons2_neq)
qed (use assms in simp)

lemma skip_unlink_eq:
  assumes "length (head_idx t) = 4" "head_idx t ! 0 = idx"
    "head_idx t ! 2 = idx \<Longrightarrow> head_idx t ! 1 = idx" "head_idx t ! 3 = idx \<Longrightarrow> head_idx t ! 2 = idx"
  shows "skip_unlink idx [0..<4] t =
    t\<lparr>head_idx := map (\<lambda>l. if head_idx t ! l = idx then nxt t l idx else head_idx t ! l) [0..<4]\<rparr>"
proof -
  obtain a b c d where h: "head_idx t = [a, b, c, d]"
    using assms(1) by (auto simp: numeral_eq_Suc length_Suc_conv)
  have e: "[0..<4] = [0, 1, 2, 3::nat]" by (simp add: upt_rec)
  show ?thesis
    using assms(2-) by (auto simp: e h nxt_def numeral_eq_Suc)
qed


lemma skip_unlink_rep:
  assumes rep: "qrep t L S" and S0: "S 0 = q # xs"
  shows "qrep (skip_unlink q [0..<4] t) L (\<lambda>l. filter (\<lambda>x. x \<noteq> q) (S l))"
    "queues (skip_unlink q [0..<4] t) = queues t" "ts_virtual (skip_unlink q [0..<4] t) = ts_virtual t"
    "ts_real (skip_unlink q [0..<4] t) = ts_real t"
proof -
  have d: "distinct (q # xs)" and len: "length (head_idx t) = 4"
    and ch: "\<And>l. l < 4 \<Longrightarrow> chain IDXLIST_INVAL (nxt t l) (head_idx t ! l) (S l)"
    using rep S0 by (auto simp: qrep_def qman_wf_def)
  have nq: "q \<noteq> IDXLIST_INVAL" using ch [of 0] S0 by simp
  have hd: "head_idx t ! l = q \<longleftrightarrow> q \<in> set (S l)" if "l < 4" for l
  proof -
    have "subseq (S l) (q # xs)"
      using levels_subset [of 3 S l] that rep unfolding qrep_def S0 by simp
    then have "q \<in> set (S l) \<Longrightarrow> hd (S l) = q" using subseq_head d by fastforce
    then show ?thesis using chain_head [OF ch [OF that]] nq by (cases "S l") auto
  qed
  have mono: "q \<in> set (S (Suc l)) \<Longrightarrow> q \<in> set (S l)" if "l < 3" for l
    using that rep subseq_set [of "S (Suc l)" "S l"] by (auto simp: qrep_def)
  have eq: "skip_unlink q [0..<4] t =
    t\<lparr>head_idx := map (\<lambda>l. if head_idx t ! l = q then nxt t l q else head_idx t ! l) [0..<4]\<rparr>"
    using mono [of 1] mono [of 2] hd [of 0] hd [of 1] hd [of 2] hd [of 3] S0
    by (intro skip_unlink_eq len) (auto simp: numeral_2_eq_2 numeral_3_eq_3)
  have ch': "chain IDXLIST_INVAL (nxt t l) (if head_idx t ! l = q then nxt t l q else head_idx t ! l) (filter (\<lambda>x. x \<noteq> q) (S l))"
    if l4: "l < 4" for l
  proof (cases "q \<in> set (S l)")
    case True
    then obtain ys where "S l = q # ys" using hd [OF l4] chain_head [OF ch [OF l4]] by (cases "S l") auto
    moreover from this have "filter (\<lambda>x. x \<noteq> q) (S l) = ys"
      using qrep_distinct [OF rep l4] by (auto simp: filter_id_conv)
    ultimately show ?thesis using ch [OF l4] by simp
  next
    case False
    then have "filter (\<lambda>x. x \<noteq> q) (S l) = S l" by (auto simp: filter_id_conv)
    then show ?thesis using False hd [OF l4] ch [OF l4] by simp
  qed
  define H where "H = map (\<lambda>l. if head_idx t ! l = q then nxt t l q else head_idx t ! l) [0..<4]"
  have Hl: "H ! l = (if head_idx t ! l = q then nxt t l q else head_idx t ! l)" if "l < 4" for l
    using that by (simp add: H_def)
  have H: "length H = 4" "\<And>l. l < 4 \<Longrightarrow> chain IDXLIST_INVAL (nxt t l) (H ! l) (filter (\<lambda>x. x \<noteq> q) (S l))"
    by (simp add: H_def) (simp only: Hl ch')
  show "qrep (skip_unlink q [0..<4] t) L (\<lambda>l. filter (\<lambda>x. x \<noteq> q) (S l))"
    using rep H unfolding eq H_def [symmetric] by (auto simp: qrep_def)
  show "queues (skip_unlink q [0..<4] t) = queues t" "ts_virtual (skip_unlink q [0..<4] t) = ts_virtual t"
    "ts_real (skip_unlink q [0..<4] t) = ts_real t"
    by (simp_all add: eq)
qed


lemma qstate_time [simp]:
  "qstate X (t\<lparr>ts_virtual := a\<rparr>) L S = qstate X t L S" "qstate X (t\<lparr>ts_real := a\<rparr>) L S = qstate X t L S"
  "qstate X (t\<lparr>nolimit_first := b\<rparr>) L S = qstate X t L S"
  by (simp_all add: qstate_def qrep_def qflags_def)

lemma polled_time [simp]:
  "polled t (t'\<lparr>ts_virtual := a\<rparr>) out = polled t t' out" "polled t (t'\<lparr>ts_real := a\<rparr>) out = polled t t' out"
  "polled t (t'\<lparr>nolimit_first := b\<rparr>) out = polled t t' out"
  by (simp_all add: polled_def)

definition skip_take :: "qman_thread \<Rightarrow> u32 \<Rightarrow> qman_thread" where
  "skip_take t idx = updq (skip_unlink idx [0..<SKIPLIST_LEVELS] t) idx (\<lambda>q. q\<lparr>q_flags := q_flags q AND NOT FLAG_INSKIPLIST\<rparr>)"

lemma skip_take_state:
  assumes st: "qstate {} t L S" and S0: "S 0 = q # xs"
  shows "qstate {q} (skip_take t q) L (\<lambda>l. filter (\<lambda>x. x \<noteq> q) (S l))" (is ?s)
    "map qcore (queues (skip_take t q)) = map qcore (queues t)"
    "bit (q_flags (getq (skip_unlink q [0..<4] t) q)) 0"
proof -
  let ?u = "skip_unlink q [0..<4] t"
  have rep: "qrep t L S" and q: "qvalid t q" using st S0 by (auto simp: qstate_def qrep_def)
  note u = skip_unlink_rep [OF rep S0]
  show c: "map qcore (queues (skip_take t q)) = map qcore (queues t)"
    by (simp add: skip_take_def map_queues_updq qcore_def u)
  show "bit (q_flags (getq ?u q)) 0"
    using st q S0 by (simp add: u qstate_def qflags_def)
  have n: "nxt (skip_take t q) = nxt ?u"
    unfolding skip_take_def using q u by (intro nxt_updq_same) simp_all
  have f: "q_flags (getq (skip_take t q) i) = (if i = q then q_flags (getq t q) AND NOT FLAG_INSKIPLIST else q_flags (getq t i))" for i
    using q u by (simp add: skip_take_def getq_updq)
  have a: "q_avail (getq (skip_take t q) i) = q_avail (getq t i)" if "qvalid t i" for i
    using map_getq [OF c that] by (simp add: qcore_def)
  have l: "length (queues (skip_take t q)) = length (queues t)"
    using c map_eq_imp_length_eq by blast
  have "qrep (skip_take t q) L (\<lambda>l. filter (\<lambda>x. x \<noteq> q) (S l))"
    using u(1) q l unfolding qrep_def n by (auto simp: skip_take_def u)
  then show ?s
    using st q l S0 rep by (auto simp: qstate_def qflags_def f a qrep_def)
qed

lemma poll_skip_loop_state:
  assumes "qstate {} t L S" "f > (num - length out) + length L + length (S 0)" "length out \<le> num"
  shows "\<exists>t' new L' S'. poll_skip_loop f t mv num out = Inr (t', out @ new) \<and> qstate {} t' L' S' \<and>
     polled t t' new \<and> length (out @ new) \<le> num"
  using assms
proof (induction f arbitrary: t L S out)
  case (Suc f)
  have rep: "qrep t L S" using Suc.prems by (simp add: qstate_def)
  then have hd: "head_idx t ! 0 = (if S 0 = [] then IDXLIST_INVAL else hd (S 0))"
    by (intro chain_head [where n = "nxt t 0"]) (simp add: qrep_def)
  have nil: "IDXLIST_INVAL \<notin> set (S 0)"
    using rep seg_nil_notin [of IDXLIST_INVAL "nxt t 0" "head_idx t ! 0" "S 0" IDXLIST_INVAL] by (simp add: qrep_def)
  let ?ts = "next_ts (getq t (head_idx t ! 0))"
  consider "length out = num" | "length out < num" "S 0 = [] \<or> \<not> timestamp_lessthaneq t ?ts mv"
    | q xs where "length out < num" "S 0 = q # xs" "timestamp_lessthaneq t ?ts mv"
    using Suc.prems(3) by (metis le_neq_implies_less neq_Nil_conv)
  then show ?case
  proof cases
    case 1
    then show ?thesis
      using Suc.prems polled_core [of t t] by (intro exI [of _ t] exI [of _ "[]"] exI [of _ L] exI [of _ S]) auto
  next
    case 2
    then have "poll_skip_loop (Suc f) t mv num out = Inr (t\<lparr>ts_virtual := mv\<rparr>, out)"
      using hd nil by (auto simp: Let_def)
    then show ?thesis
      using Suc.prems 2 polled_core [of t t]
      by (intro exI [of _ "t\<lparr>ts_virtual := mv\<rparr>"] exI [of _ "[]"] exI [of _ L] exI [of _ S]) auto
  next
    case 3
    define t1 where "t1 = skip_take t q"
    define t2 where "t2 = t1\<lparr>ts_virtual := next_ts (getq t1 q)\<rparr>"
    let ?S = "\<lambda>l. filter (\<lambda>x. x \<noteq> q) (S l)"
    note tk = skip_take_state [OF Suc.prems(1) 3(2)]
    have q2: "qvalid t2 q" "q \<notin> set (L @ ?S 0)" and st2: "qstate {q} t2 L ?S" and c2: "polled t t2 []"
      using tk rep 3(2) map_eq_imp_length_eq [OF tk(2)] polled_core [OF tk(2)] by (auto simp: t2_def t1_def qrep_def)
    have ln: "length (?S 0) < length (S 0)"
      using 3(2) by (simp add: less_Suc_eq_le)
    have step: "poll_skip_loop (Suc f) t mv num out =
      (if q_avail (getq t2 q) > 0 then bind_res (queue_fire t2 q) (\<lambda>(t, e). poll_skip_loop f t mv num (out @ [e]))
       else poll_skip_loop f t2 mv num out)"
      using 3 hd nil tk(3) unfolding t2_def t1_def skip_take_def
      by (simp add: Let_def flags_inskip_iff)
    show ?thesis
    proof (cases "q_avail (getq t2 q) > 0")
      case av: True
      obtain t3 e L2 S2 where fire: "queue_fire t2 q = Inr (t3, e)" "qstate {} t3 L2 S2"
        "length L2 + length (S2 0) \<le> Suc (length L + length (?S 0))" "polled t2 t3 [e]"
        using queue_fire_state [OF st2 q2 av] by blast
      have "f > (num - length (out @ [e])) + length L2 + length (S2 0)" "length (out @ [e]) \<le> num"
        using Suc.prems(2,3) fire(3) 3 ln by auto
      from Suc.IH [OF fire(2) this] obtain t' new L' S' where
        IH: "poll_skip_loop f t3 mv num (out @ [e]) = Inr (t', (out @ [e]) @ new)" "qstate {} t' L' S'" "polled t3 t' new"
        "length ((out @ [e]) @ new) \<le> num"
        by blast
      have "polled t t' (e # new)"
        using polled_trans [OF polled_trans [OF c2 fire(4)] IH(3)] by simp
      then show ?thesis
        using IH step av fire(1) by (intro exI [of _ t'] exI [of _ "e # new"] exI [of _ L'] exI [of _ S']) simp
    next
      case na: False
      then have st2': "qstate {} t2 L ?S" using st2 by (auto simp: qstate_def)
      have "f > (num - length out) + length L + length (?S 0)" using Suc.prems(2) ln by simp
      from Suc.IH [OF st2' this Suc.prems(3)] obtain t' new L' S' where
        IH: "poll_skip_loop f t2 mv num out = Inr (t', out @ new)" "qstate {} t' L' S'" "polled t2 t' new"
        "length (out @ new) \<le> num"
        by blast
      have "polled t t' new" using polled_trans [OF c2 IH(3)] by simp
      then show ?thesis
        using IH step na by (intro exI [of _ t'] exI [of _ "new"] exI [of _ L'] exI [of _ S']) simp
    qed
  qed
qed simp



definition qman_inv :: "qman_thread \<Rightarrow> bool" where
  "qman_inv t \<longleftrightarrow> (\<exists>L S. qstate {} t L S)"

lemma qman_inv_time [simp]:
  "qman_inv (t\<lparr>ts_virtual := a\<rparr>) = qman_inv t" "qman_inv (t\<lparr>ts_real := a\<rparr>) = qman_inv t"
  "qman_inv (t\<lparr>nolimit_first := b\<rparr>) = qman_inv t"
  by (simp_all add: qman_inv_def)

lemma qstate_length: "qstate X t L S \<Longrightarrow> length L + length (S 0) \<le> length (queues t)"
  by (simp add: qstate_def qrep_length)

lemma poll_nolimit_inv:
  assumes "qman_inv t" "f > num + length (queues t)"
  shows "\<exists>t' out. poll_nolimit f t num [] = Inr (t', out) \<and> qman_inv t' \<and> polled t t' out \<and> length out \<le> num"
proof -
  obtain L S where st: "qstate {} t L S" using assms(1) by (auto simp: qman_inv_def)
  have "f > num - length [] + length L + length (S 0)" using assms(2) qstate_length [OF st] by simp
  from poll_nolimit_state [OF st this] show ?thesis by (auto simp: qman_inv_def)
qed

lemma poll_skiplist_inv:
  assumes "qman_inv t" "f > num + length (queues t)"
  shows "\<exists>t' out. poll_skiplist f t ts num = Inr (t', out) \<and> qman_inv t' \<and> polled t t' out \<and> length out \<le> num"
proof -
  obtain L S where st: "qstate {} t L S" using assms(1) by (auto simp: qman_inv_def)
  have "f > num - length [] + length L + length (S 0)" using assms(2) qstate_length [OF st] by simp
  from poll_skip_loop_state [OF st this, of "ts_virtual t + (ts - ts_real t)"]
  obtain t' out L' S' where r: "poll_skip_loop f t (ts_virtual t + (ts - ts_real t)) num [] = Inr (t', out)"
    "qstate {} t' L' S'" "polled t t' out" "length out \<le> num" by auto
  have i: "qman_inv t'" using r(2) by (auto simp: qman_inv_def)
  then show ?thesis using r by (auto simp: poll_skiplist_def Let_def)
qed

lemma polled_length: "polled t t' out \<Longrightarrow> length (queues t') = length (queues t)"
  by (simp add: polled_def)

lemma qman_poll_inv:
  assumes "qman_inv t" "f > num + length (queues t)"
  shows "\<exists>t' out. qman_poll f t ts num = Inr (t', out) \<and> qman_inv t' \<and> polled t t' out \<and> length out \<le> num"
proof -
  show ?thesis
  proof (cases "nolimit_first t")
    case True
    obtain t1 x where 1: "poll_nolimit f t num [] = Inr (t1, x)" "qman_inv t1" "polled t t1 x" "length x \<le> num"
      using poll_nolimit_inv [OF assms] by blast
    have "f > (num - length x) + length (queues t1)"
      using assms(2) polled_length [OF 1(3)] by simp
    from poll_skiplist_inv [OF 1(2) this, of ts] obtain t2 y where
      2: "poll_skiplist f t1 ts (num - length x) = Inr (t2, y)" "qman_inv t2" "polled t1 t2 y" "length y \<le> num - length x"
      by blast
    show ?thesis
      using True 1 2 polled_trans [OF 1(3) 2(3)] by (simp add: qman_poll_def)
  next
    case False
    obtain t1 x where 1: "poll_skiplist f t ts num = Inr (t1, x)" "qman_inv t1" "polled t t1 x" "length x \<le> num"
      using poll_skiplist_inv [OF assms] by blast
    have "f > (num - length x) + length (queues t1)"
      using assms(2) polled_length [OF 1(3)] by simp
    from poll_nolimit_inv [OF 1(2) this] obtain t2 y where
      2: "poll_nolimit f t1 (num - length x) [] = Inr (t2, y)" "qman_inv t2" "polled t1 t2 y" "length y \<le> num - length x"
      by blast
    show ?thesis
      using False 1 2 polled_trans [OF 1(3) 2(3)] by (simp add: qman_poll_def)
  qed
qed

lemma qman_init_inv: "n < 2 ^ 32 \<Longrightarrow> qman_inv (qman_thread_init n tid now)"
proof -
  assume n: "n < 2 ^ 32"
  let ?t = "qman_thread_init n tid now"
  have h: "l < 4 \<Longrightarrow> head_idx ?t ! l = IDXLIST_INVAL" "length (head_idx ?t) = 4" for l
    unfolding qman_thread_init_def by simp_all
  have q: "qvalid ?t i \<Longrightarrow> q_flags (getq ?t i) = 0 \<and> q_avail (getq ?t i) = 0" for i
    by (simp add: qman_thread_init_def queue_zero_def)
  have "qman_wf ?t"
    using n h by (simp add: qman_wf_def) (simp add: qman_thread_init_def queue_zero_def)
  then have "qstate {} ?t [] (\<lambda>_. [])"
    using h q by (auto simp: qstate_def qrep_def qflags_def) (simp_all add: qman_thread_init_def)
  then show ?thesis unfolding qman_inv_def by blast
qed

text \<open>The configuration part of \<open>set_impl\<close>, as one update of the queue.\<close>

definition set_queue :: "u32 \<Rightarrow> u32 \<Rightarrow> u16 \<Rightarrow> u8 \<Rightarrow> u8 \<Rightarrow> queue \<Rightarrow> queue" where
  "set_queue rate avail max_chk opq flags q =
    q\<lparr>q_rate := (if flags AND QMAN_SET_RATE \<noteq> 0 then rate else q_rate q),
      max_chunk := (if flags AND QMAN_SET_MAXCHUNK \<noteq> 0 then max_chk else max_chunk q),
      q_opaque := (if flags AND QMAN_SET_OPAQUE \<noteq> 0 then opq else q_opaque q),
      q_avail := (if flags AND QMAN_SET_AVAIL \<noteq> 0 then avail
                  else if flags AND QMAN_ADD_AVAIL \<noteq> 0 then q_avail q + avail else q_avail q)\<rparr>"

lemma updq_updq: "qvalid t i \<Longrightarrow> updq (updq t i f) i g = updq t i (\<lambda>q. g (f q))"
  by (simp add: updq_def)

lemma updq_id: "updq t i (\<lambda>q. q) = t"
  by (simp add: updq_def)

lemma set_queue_comp:
  "set_queue rate avail mc opq flags = (\<lambda>q.
     let q = (if flags AND QMAN_SET_RATE \<noteq> 0 then q\<lparr>q_rate := rate\<rparr> else q);
         q = (if flags AND QMAN_SET_MAXCHUNK \<noteq> 0 then q\<lparr>max_chunk := mc\<rparr> else q);
         q = (if flags AND QMAN_SET_OPAQUE \<noteq> 0 then q\<lparr>q_opaque := opq\<rparr> else q) in
     if flags AND QMAN_SET_AVAIL \<noteq> 0 then q\<lparr>q_avail := avail\<rparr>
     else if flags AND QMAN_ADD_AVAIL \<noteq> 0 then q\<lparr>q_avail := q_avail q + avail\<rparr> else q)"
  by (rule ext) (simp add: set_queue_def Let_def)

lemma updq_if: "(if c then updq t i f else t) = updq t i (\<lambda>q. if c then f q else q)"
  by (simp add: updq_id)

lemma set_impl_eq:
  assumes "qvalid t i"
  shows "set_impl t i rate avail mc opq flags =
    (let t' = updq t i (set_queue rate avail mc opq flags) in
     if (flags AND QMAN_SET_AVAIL \<noteq> 0 \<or> flags AND QMAN_ADD_AVAIL \<noteq> 0) \<and> q_avail (getq t' i) > 0 \<and>
        q_flags (getq t' i) AND (FLAG_INSKIPLIST OR FLAG_INNOLIMITL) = 0
     then queue_activate t' i else Inr t')"
  unfolding set_impl_def Let_def updq_if set_queue_comp
  by (cases "flags AND QMAN_SET_AVAIL = 0"; cases "flags AND QMAN_ADD_AVAIL = 0")
    (simp_all add: updq_updq assms)


lemma qman_set_inv:
  assumes inv: "qman_inv t" and i: "qvalid t i"
  shows "\<exists>t'. set_impl t i rate avail mc opq flags = Inr t' \<and> qman_inv t' \<and>
    map qcore (queues t') = (map qcore (queues t))[unat i := qcore (set_queue rate avail mc opq flags (getq t i))]"
proof -
  obtain L S where st: "qstate {} t L S" using inv by (auto simp: qman_inv_def)
  define t1 where "t1 = updq t i (set_queue rate avail mc opq flags)"
  have g: "q_flags (getq t1 j) = q_flags (getq t j)" "j \<noteq> i \<Longrightarrow> getq t1 j = getq t j" for j
    using i by (auto simp: t1_def getq_updq set_queue_def)
  have l1: "length (queues t1) = length (queues t)" by (simp add: t1_def)
  have n1: "nxt t1 = nxt t" using i by (simp add: t1_def nxt_updq_same set_queue_def)
  have wf1: "qman_wf t1" using st i by (simp add: t1_def qstate_def qrep_def set_queue_def)
  have fld: "head_idx t1 = head_idx t" "nolimit_head_idx t1 = nolimit_head_idx t" "nolimit_tail_idx t1 = nolimit_tail_idx t"
    by (simp_all add: t1_def)
  have rep1: "qrep t1 L S" using st wf1 by (simp add: qstate_def qrep_def n1 l1 fld)
  have fl1: "qflags t1 L S" using st by (simp add: qstate_def qflags_def l1 g)
  have st1: "qstate {i} t1 L S"
    using st rep1 fl1 g(2) by (auto simp: qstate_def l1)
  have c1: "map qcore (queues t1) = (map qcore (queues t))[unat i := qcore (set_queue rate avail mc opq flags (getq t i))]"
    by (simp add: t1_def updq_def map_update)
  let ?act = "(flags AND QMAN_SET_AVAIL \<noteq> 0 \<or> flags AND QMAN_ADD_AVAIL \<noteq> 0) \<and> q_avail (getq t1 i) > 0 \<and>
        q_flags (getq t1 i) AND (FLAG_INSKIPLIST OR FLAG_INNOLIMITL) = 0"
  have e: "set_impl t i rate avail mc opq flags = (if ?act then queue_activate t1 i else Inr t1)"
    using set_impl_eq [OF i] by (simp only: t1_def Let_def)
  show ?thesis
  proof (cases ?act)
    case True
    then have "i \<notin> set (L @ S 0)" using qstate_inactive [OF st1, of i] i l1 by simp
    with queue_activate_state [OF st1] i l1 obtain t' L' S' where
      "queue_activate t1 i = Inr t'" "qstate {} t' L' S'" "map qcore (queues t') = map qcore (queues t1)" by auto
    with True e c1 show ?thesis by (auto simp: qman_inv_def)
  next
    case False
    have "i \<in> set (L @ S 0) \<or> \<not> q_avail (getq t1 i) > 0"
    proof (cases "flags AND QMAN_SET_AVAIL \<noteq> 0 \<or> flags AND QMAN_ADD_AVAIL \<noteq> 0")
      case True
      with False show ?thesis using qstate_inactive [OF st1, of i] i l1 by auto
    next
      case False
      then have "q_avail (getq t1 i) = q_avail (getq t i)" using i by (simp add: t1_def getq_updq set_queue_def)
      then show ?thesis using st i by (auto simp: qstate_def)
    qed
    then have "qstate {} t1 L S" using st1 by (auto simp: qstate_def)
    with False e c1 show ?thesis by (auto simp: qman_inv_def)
  qed
qed

text \<open>The states a queue manager thread can be in.\<close>

inductive qman_reach :: "nat \<Rightarrow> qman_thread \<Rightarrow> bool" for n where
  init: "qman_reach n (qman_thread_init n tid now)"
| set: "qman_reach n t \<Longrightarrow> qman_set t i rate avail mc opq flags = Inr (Some t') \<Longrightarrow> qman_reach n t'"
| poll: "qman_reach n t \<Longrightarrow> num + n < f \<Longrightarrow> qman_poll f t ts num = Inr (t', out) \<Longrightarrow> qman_reach n t'"


lemma qman_reach_inv: "qman_reach n t \<Longrightarrow> n < 2 ^ 32 \<Longrightarrow> qman_inv t \<and> length (queues t) = n"
proof (induction rule: qman_reach.induct)
  case (init tid now)
  then show ?case by (simp add: qman_init_inv) (simp add: qman_thread_init_def)
next
  case (set t i rate avail mc opq flags t')
  then have i: "qvalid t i" and s: "set_impl t i rate avail mc opq flags = Inr t'"
    by (auto simp: qman_set_def bind_res_Inr_iff split: if_splits)
  obtain u where u: "set_impl t i rate avail mc opq flags = Inr u" "qman_inv u"
    "map qcore (queues u) = (map qcore (queues t))[unat i := qcore (set_queue rate avail mc opq flags (getq t i))]"
    using qman_set_inv [of t i rate avail mc opq flags] set i by auto
  have "length (queues u) = length (queues t)"
    using arg_cong [OF u(3), of length] by simp
  then show ?case using u s set by simp
next
  case (poll t num f ts t' out)
  then show ?case
    using qman_poll_inv [of t num f ts] polled_length by auto
qed


definition nolimit_rep :: "qman_thread \<Rightarrow> u32 list \<Rightarrow> bool" where
  "nolimit_rep t L \<longleftrightarrow> (\<exists>S. qrep t L S \<and> qflags t L S)"

definition nolimit_front :: "qman_thread \<Rightarrow> u32 option" where
  "nolimit_front t = (if nolimit_head_idx t = IDXLIST_INVAL then None else Some (nolimit_head_idx t))"

definition nolimit_ok :: "qman_thread \<Rightarrow> u32 \<Rightarrow> bool" where
  "nolimit_ok t q \<longleftrightarrow> qvalid t q \<and> q_flags (getq t q) AND (FLAG_INSKIPLIST OR FLAG_INNOLIMITL) = 0"

lemma nolimit_ok_notin: "qrep t L S \<Longrightarrow> qflags t L S \<Longrightarrow> nolimit_ok t q \<Longrightarrow> q \<notin> set (L @ S 0)"
  unfolding nolimit_ok_def flags_clear_iff by (auto simp: qflags_def)

lemma nolimit_push_qflags:
  assumes "qrep t L S" "qflags t L S" "qvalid t q" "q \<notin> set (L @ S 0)"
  shows "qflags (nolimit_push t q) (L @ [q]) S"
proof -
  have tl: "nolimit_tail_idx t = IDXLIST_INVAL \<or> qvalid t (nolimit_tail_idx t)"
    using assms by (auto simp: qrep_def)
  show ?thesis
    using assms by (auto simp: qflags_def nolimit_push_simps nolimit_push_flags [OF assms(3) tl])
qed

lemma nolimit_pop_qflags:
  assumes "qrep t (q # L) S" "qflags t (q # L) S"
  shows "qflags (nolimit_pop t) L S"
proof -
  have q: "qvalid t q" "nolimit_head_idx t = q" "q \<notin> set L" "q \<notin> set (S 0)"
    using assms by (auto simp: qrep_def)
  then have "q_flags (getq (nolimit_pop t) i) = (if i = q then q_flags (getq t q) AND NOT FLAG_INNOLIMITL else q_flags (getq t i))" for i
    by (simp add: nolimit_pop_def Let_def getq_updq)
  moreover have "length (queues (nolimit_pop t)) = length (queues t)"
    using q by (simp add: nolimit_pop_fields)
  ultimately show ?thesis
    using assms q by (auto simp: qflags_def)
qed

interpretation nolimit: fifo nolimit_rep nolimit_push nolimit_pop nolimit_front nolimit_ok
proof (unfold_locales, goal_cases)
  case (1 t L q)
  then obtain S where S: "qrep t L S" "qflags t L S" by (auto simp: nolimit_rep_def)
  have q: "qvalid t q" "q \<notin> set (L @ S 0)"
    using nolimit_ok_notin [OF S 1(2)] 1(2) by (simp_all add: nolimit_ok_def)
  show ?case
    using nolimit_push_rep [OF S(1) q] nolimit_push_qflags [OF S q] by (auto simp: nolimit_rep_def)
next
  case (2 t L q y)
  then obtain S where S: "qrep t L S" by (auto simp: nolimit_rep_def)
  have tl: "nolimit_tail_idx t = IDXLIST_INVAL \<or> qvalid t (nolimit_tail_idx t)"
    using S by (auto simp: qrep_def)
  show ?case
    using 2 nolimit_push_flags [OF _ tl, of q y] by (simp add: nolimit_ok_def nolimit_push_simps)
next
  case (3 t q L)
  then show ?case
    using nolimit_pop_rep nolimit_pop_qflags by (fastforce simp: nolimit_rep_def)
next
  case (4 t)
  then show ?case by (auto simp: nolimit_rep_def nolimit_front_def qrep_def)
next
  case (5 t q L)
  then show ?case by (auto simp: nolimit_rep_def nolimit_front_def qrep_def)
qed

lemma qman_inv_nolimit_rep: "qman_inv t \<Longrightarrow> \<exists>L. nolimit_rep t L"
  by (auto simp: qman_inv_def qstate_def nolimit_rep_def)

lemma reach_scheduled:
  assumes "qman_reach n t" "n < 2 ^ 32" "unat i < n" "q_avail (getq t i) > 0"
  shows "q_flags (getq t i) AND (FLAG_INSKIPLIST OR FLAG_INNOLIMITL) \<noteq> 0 \<and>
    (\<exists>L S. chain IDXLIST_INVAL (nxt t 0) (nolimit_head_idx t) L \<and>
       chain IDXLIST_INVAL (nxt t 0) (head_idx t ! 0) S \<and> i \<in> set (L @ S))"
proof -
  obtain L S where st: "qstate {} t L S" and n: "length (queues t) = n"
    using qman_reach_inv [OF assms(1,2)] by (auto simp: qman_inv_def)
  then have i: "i \<in> set (L @ S 0)" using assms(3,4) by (auto simp: qstate_def)
  have "chain IDXLIST_INVAL (nxt t 0) (nolimit_head_idx t) L" "chain IDXLIST_INVAL (nxt t 0) (head_idx t ! 0) (S 0)"
    using st by (simp_all add: qstate_def qrep_def)
  then show ?thesis using i qstate_inactive [OF st] n assms(3) by auto
qed

section \<open>Properties\<close>

text \<open>C7: on every reachable queue manager a poll for \<open>num\<close> entries returns (no failed assert, no endless
  loop: \<open>num + n\<close> iterations per list suffice); it fires at most \<open>num\<close> entries, each of a valid queue,
  with the queue's opaque value and at most \<open>max_chunk\<close> bytes, and for every queue the bytes fired are exactly
  the bytes taken from its budget.\<close>

theorem qman_poll_conserves:
  assumes "qman_reach n t" "n < 2 ^ 32" "num + n < f"
  shows "\<exists>t' out. qman_poll f t ts num = Inr (t', out) \<and> length out \<le> num \<and>
    (\<forall>i. unat i < n \<longrightarrow> unat (q_avail (getq t i)) = unat (q_avail (getq t' i)) + fired i out) \<and>
    (\<forall>(i, b, x) \<in> set out. unat i < n \<and> b \<le> max_chunk (getq t i) \<and> x = q_opaque (getq t i))"
proof -
  have t: "qman_inv t" "length (queues t) = n" using qman_reach_inv [OF assms(1,2)] by auto
  then obtain t' out where "qman_poll f t ts num = Inr (t', out)" "polled t t' out" "length out \<le> num"
    using qman_poll_inv [of t num f ts] assms(3) by auto
  then show ?thesis using t by (intro exI [of _ t'] exI [of _ out]) (auto simp: polled_def)
qed

theorem qman_poll_conserves_witness:
  "\<exists>t' out. qman_poll 4 (qman_thread_init 2 0 0) 7 1 = Inr (t', out) \<and> length out \<le> 1 \<and>
    (\<forall>i. unat i < 2 \<longrightarrow> unat (q_avail (getq (qman_thread_init 2 0 0) i)) = unat (q_avail (getq t' i)) + fired i out) \<and>
    (\<forall>(i, b, x) \<in> set out. unat i < 2 \<and> b \<le> max_chunk (getq (qman_thread_init 2 0 0) i) \<and>
        x = q_opaque (getq (qman_thread_init 2 0 0) i))"
  by (rule qman_poll_conserves [OF qman_reach.init]) simp_all

text \<open>C8: in every reachable state the no-limit list and level 0 of the skip list are finite, disjoint and
  duplicate-free, the flag bits say exactly which queues are in one of them, and every queue with bytes to
  send is in one of them, so no queue is forgotten.\<close>

theorem qman_backlog_scheduled:
  assumes "qman_reach n t" "n < 2 ^ 32"
  shows "\<exists>L S. chain IDXLIST_INVAL (nxt t 0) (nolimit_head_idx t) L \<and>
    chain IDXLIST_INVAL (nxt t 0) (head_idx t ! 0) S \<and> distinct (L @ S) \<and>
    (\<forall>i. unat i < n \<longrightarrow> (q_flags (getq t i) AND (FLAG_INSKIPLIST OR FLAG_INNOLIMITL) \<noteq> 0 \<longleftrightarrow> i \<in> set (L @ S)) \<and>
       (q_avail (getq t i) > 0 \<longrightarrow> i \<in> set (L @ S)))"
proof -
  obtain L S where st: "qstate {} t L S" and n: "length (queues t) = n"
    using qman_reach_inv [OF assms] by (auto simp: qman_inv_def)
  show ?thesis
    using st qstate_inactive [OF st] n by (intro exI [of _ L] exI [of _ "S 0"]) (auto simp: qstate_def qrep_def)
qed

theorem qman_backlog_scheduled_witness:
  "\<exists>L S. chain IDXLIST_INVAL (nxt (qman_thread_init 2 0 0) 0) (nolimit_head_idx (qman_thread_init 2 0 0)) L \<and>
    chain IDXLIST_INVAL (nxt (qman_thread_init 2 0 0) 0) (head_idx (qman_thread_init 2 0 0) ! 0) S \<and> distinct (L @ S) \<and>
    (\<forall>i. unat i < 2 \<longrightarrow> (q_flags (getq (qman_thread_init 2 0 0) i) AND (FLAG_INSKIPLIST OR FLAG_INNOLIMITL) \<noteq> 0 \<longleftrightarrow> i \<in> set (L @ S)) \<and>
       (q_avail (getq (qman_thread_init 2 0 0) i) > 0 \<longrightarrow> i \<in> set (L @ S)))"
  by (rule qman_backlog_scheduled [OF qman_reach.init]) simp

text \<open>C9: on every reachable queue manager \<open>qman_set\<close> returns; an id out of range is refused, a valid one
  gets exactly the fields selected by the flags, no other queue changes its rate, budget, chunk size or opaque
  value, the resulting state is again reachable, and a queue that now has bytes is scheduled: it is in the no-limit
  list or in level 0 of the skip list, and flagged so.\<close>

theorem qman_set_result:
  assumes "qman_reach n t" "n < 2 ^ 32"
  shows "\<exists>r. qman_set t i rate avail mc opq flags = Inr r \<and>
    (case r of None \<Rightarrow> n \<le> unat i
     | Some t' \<Rightarrow> unat i < n \<and> qman_reach n t' \<and>
         qcore (getq t' i) = qcore (set_queue rate avail mc opq flags (getq t i)) \<and>
         (\<forall>j. unat j < n \<and> j \<noteq> i \<longrightarrow> qcore (getq t' j) = qcore (getq t j)) \<and>
         (q_avail (getq t' i) > 0 \<longrightarrow>
            q_flags (getq t' i) AND (FLAG_INSKIPLIST OR FLAG_INNOLIMITL) \<noteq> 0 \<and>
            (\<exists>L S. chain IDXLIST_INVAL (nxt t' 0) (nolimit_head_idx t') L \<and>
               chain IDXLIST_INVAL (nxt t' 0) (head_idx t' ! 0) S \<and> i \<in> set (L @ S))))"
proof -
  have t: "qman_inv t" "length (queues t) = n" using qman_reach_inv [OF assms] by auto
  show ?thesis
  proof (cases "unat i < n")
    case True
    obtain u where u: "set_impl t i rate avail mc opq flags = Inr u"
      "map qcore (queues u) = (map qcore (queues t))[unat i := qcore (set_queue rate avail mc opq flags (getq t i))]"
      using qman_set_inv [of t i rate avail mc opq flags] t True by auto
    have r: "qman_set t i rate avail mc opq flags = Inr (Some u)"
      using True t u(1) by (simp add: qman_set_def)
    have l: "length (queues u) = n"
      using arg_cong [OF u(2), of length] t by simp
    have "qcore (getq u j) = (if j = i then qcore (set_queue rate avail mc opq flags (getq t i)) else qcore (getq t j))"
      if "unat j < n" for j
      using arg_cong [OF u(2), of "\<lambda>xs. xs ! unat j"] that l t True by (auto simp: nth_list_update word_unat_eq_iff)
    moreover have reach: "qman_reach n u" by (rule qman_reach.set [OF assms(1) r])
    moreover have "q_flags (getq u i) AND (FLAG_INSKIPLIST OR FLAG_INNOLIMITL) \<noteq> 0 \<and>
        (\<exists>L S. chain IDXLIST_INVAL (nxt u 0) (nolimit_head_idx u) L \<and>
           chain IDXLIST_INVAL (nxt u 0) (head_idx u ! 0) S \<and> i \<in> set (L @ S))" if "q_avail (getq u i) > 0"
      by (rule reach_scheduled [OF reach assms(2) True that])
    ultimately show ?thesis using r True by simp
  qed (use t in \<open>simp add: qman_set_def\<close>)
qed

theorem qman_set_result_witness:
  "\<exists>r. qman_set (qman_thread_init 2 0 0) 1 0 3000 1448 5 14 = Inr r \<and>
    (case r of None \<Rightarrow> 2 \<le> unat (1 :: u32)
     | Some t' \<Rightarrow> unat (1 :: u32) < 2 \<and> qman_reach 2 t' \<and>
         qcore (getq t' 1) = qcore (set_queue 0 3000 1448 5 14 (getq (qman_thread_init 2 0 0) 1)) \<and>
         (\<forall>j. unat j < 2 \<and> j \<noteq> 1 \<longrightarrow> qcore (getq t' j) = qcore (getq (qman_thread_init 2 0 0) j)) \<and>
         (q_avail (getq t' 1) > 0 \<longrightarrow>
            q_flags (getq t' 1) AND (FLAG_INSKIPLIST OR FLAG_INNOLIMITL) \<noteq> 0 \<and>
            (\<exists>L S. chain IDXLIST_INVAL (nxt t' 0) (nolimit_head_idx t') L \<and>
               chain IDXLIST_INVAL (nxt t' 0) (head_idx t' ! 0) S \<and> 1 \<in> set (L @ S))))"
  by (rule qman_set_result [OF qman_reach.init]) simp

text \<open>Unlimited queues are served in the order in which they were activated: activating idle queues \<open>ys\<close>
  and then popping the list gives the queues already waiting and then \<open>ys\<close>.\<close>

theorem nolimit_fifo:
  assumes "qman_reach n t" "n < 2 ^ 32" "distinct ys" "\<forall>y \<in> set ys. nolimit_ok t y"
  shows "\<exists>L. chain IDXLIST_INVAL (nxt t 0) (nolimit_head_idx t) L \<and>
    drain nolimit_front nolimit_pop (length L + length ys) (fold (\<lambda>y t. nolimit_push t y) ys t) = L @ ys"
proof -
  obtain L where L: "nolimit_rep t L" using qman_inv_nolimit_rep qman_reach_inv [OF assms(1,2)] by blast
  then have "chain IDXLIST_INVAL (nxt t 0) (nolimit_head_idx t) L" by (auto simp: nolimit_rep_def qrep_def)
  with nolimit.fifo_order [OF L assms(4,3)] show ?thesis by blast
qed

theorem nolimit_fifo_witness:
  "\<exists>L. chain IDXLIST_INVAL (nxt (qman_thread_init 3 0 0) 0) (nolimit_head_idx (qman_thread_init 3 0 0)) L \<and>
    drain nolimit_front nolimit_pop (length L + length [2, 0 :: u32])
      (fold (\<lambda>y t. nolimit_push t y) [2, 0] (qman_thread_init 3 0 0)) = L @ [2, 0]"
  by (rule nolimit_fifo [OF qman_reach.init])
    (simp_all add: nolimit_ok_def qman_thread_init_def queue_zero_def)

end
