(* ===== verification/Wire.thy ===== *)
theory Wire
  imports Packets
begin

unbundle bit_operations_syntax

text \<open>
  Byte layouts: frames on the wire (big-endian fields, \<open>struct pkt_tcp\<close> of include/packet_defs.h) and the
  queue entries that the fast path shares with applications and the kernel through DMA memory
  (little-endian structs of include/flextcp_plif.h).  The properties are the round trips that let each
  side read what the other wrote.
\<close>

section \<open>Integers\<close>

definition be16_bytes :: "u16 \<Rightarrow> u8 list" where
  "be16_bytes x = [ucast (drop_bit 8 x), ucast x]"

definition be16_of :: "u8 list \<Rightarrow> u16" where
  "be16_of bs = (case bs of [a, b] \<Rightarrow> push_bit 8 (ucast a) OR ucast b | _ \<Rightarrow> 0)"

definition be48_bytes :: "48 word \<Rightarrow> u8 list" where
  "be48_bytes x = be16_bytes (ucast (drop_bit 32 x)) @ be32_bytes (ucast x)"

definition be48_of :: "u8 list \<Rightarrow> 48 word" where
  "be48_of bs = push_bit 32 (ucast (be16_of (take 2 bs))) OR ucast (be32_of (drop 2 bs))"

definition le16_bytes :: "u16 \<Rightarrow> u8 list" where "le16_bytes x = rev (be16_bytes x)"
definition le16_of :: "u8 list \<Rightarrow> u16" where "le16_of bs = be16_of (rev bs)"
definition le32_bytes :: "u32 \<Rightarrow> u8 list" where "le32_bytes x = rev (be32_bytes x)"
definition le32_of :: "u8 list \<Rightarrow> u32" where "le32_of bs = be32_of (rev bs)"

definition le64_bytes :: "u64 \<Rightarrow> u8 list" where
  "le64_bytes x = le32_bytes (ucast x) @ le32_bytes (ucast (drop_bit 32 x))"

definition le64_of :: "u8 list \<Rightarrow> u64" where
  "le64_of bs = push_bit 32 (ucast (le32_of (drop 4 bs))) OR ucast (le32_of (take 4 bs))"

lemma be16_of_bytes [simp]: "be16_of (be16_bytes x) = x"
  by (rule bit_word_eqI)
    (auto simp: be16_of_def be16_bytes_def bit_or_iff bit_push_bit_iff bit_drop_bit_eq bit_ucast_iff)

lemma length_be16_bytes [simp]: "length (be16_bytes x) = 2"
  by (simp add: be16_bytes_def)

lemma be48_of_bytes [simp]: "be48_of (be48_bytes x) = x"
  by (rule bit_word_eqI)
    (auto simp: be48_of_def be48_bytes_def bit_or_iff bit_push_bit_iff bit_drop_bit_eq bit_ucast_iff)

lemma le_of_bytes [simp]:
  "le16_of (le16_bytes y) = y" "le32_of (le32_bytes x) = x"
  "length (le16_bytes y) = 2" "length (le32_bytes x) = 4" "length (le64_bytes z) = 8" "length (be48_bytes m) = 6"
  by (simp_all add: le16_of_def le16_bytes_def le32_of_def le32_bytes_def le64_bytes_def be48_bytes_def)

lemma le64_of_bytes [simp]: "le64_of (le64_bytes x) = x"
  by (rule bit_word_eqI)
    (auto simp: le64_of_def le64_bytes_def bit_or_iff bit_push_bit_iff bit_drop_bit_eq bit_ucast_iff)

section \<open>Frames\<close>

text \<open>\<open>slice bs a n\<close> is the field of \<open>n\<close> bytes at offset \<open>a\<close>.\<close>

definition slice :: "u8 list \<Rightarrow> nat \<Rightarrow> nat \<Rightarrow> u8 list" where
  "slice bs a n = take n (drop a bs)"

definition pkt_bytes :: "pkt_tcp \<Rightarrow> u8 list" where
  "pkt_bytes p =
    be48_bytes (eth_dest p) @ be48_bytes (eth_src p) @ be16_bytes (eth_type p) @
    [ip_v_hl p, ip_tos p] @ be16_bytes (ip_len p) @ be16_bytes (ip_id p) @ be16_bytes (ip_offset p) @
    [ip_ttl p, ip_proto p] @ be16_bytes (ip_chksum p) @ be32_bytes (ip_src p) @ be32_bytes (ip_dest p) @
    be16_bytes (tcp_src p) @ be16_bytes (tcp_dest p) @ be32_bytes (tcp_seqno p) @ be32_bytes (tcp_ackno p) @
    be16_bytes (tcp_hdrlen_flags p) @ be16_bytes (tcp_wnd p) @ be16_bytes (tcp_chksum p) @
    be16_bytes (tcp_urgp p) @ pbody p"

definition pkt_of_bytes :: "u8 list \<Rightarrow> pkt_tcp" where
  "pkt_of_bytes bs =
    \<lparr>eth_dest = be48_of (slice bs 0 6), eth_src = be48_of (slice bs 6 6), eth_type = be16_of (slice bs 12 2),
     ip_v_hl = bs ! 14, ip_tos = bs ! 15, ip_len = be16_of (slice bs 16 2), ip_id = be16_of (slice bs 18 2),
     ip_offset = be16_of (slice bs 20 2), ip_ttl = bs ! 22, ip_proto = bs ! 23,
     ip_chksum = be16_of (slice bs 24 2), ip_src = be32_of (slice bs 26 4), ip_dest = be32_of (slice bs 30 4),
     tcp_src = be16_of (slice bs 34 2), tcp_dest = be16_of (slice bs 36 2), tcp_seqno = be32_of (slice bs 38 4),
     tcp_ackno = be32_of (slice bs 42 4), tcp_hdrlen_flags = be16_of (slice bs 46 2),
     tcp_wnd = be16_of (slice bs 48 2), tcp_chksum = be16_of (slice bs 50 2), tcp_urgp = be16_of (slice bs 52 2),
     pbody = drop 54 bs\<rparr>"

lemma slice_simps [simp]:
  "slice (xs @ ys) a n = (if length xs \<le> a then slice ys (a - length xs) n
     else if a + n \<le> length xs then slice xs a n else take n (drop a (xs @ ys)))"
  "length xs = n \<Longrightarrow> slice xs 0 n = xs"
  "slice (x # xs) a n = (if a = 0 then take n (x # xs) else slice xs (a - 1) n)"
  by (auto simp: slice_def drop_Cons')

lemma length_pkt_bytes: "length (pkt_bytes p) = 54 + length (pbody p)"
  by (simp add: pkt_bytes_def)

text \<open>Decoding the bytes of a frame gives back every header field and the payload.\<close>

lemma pkt_roundtrip: "pkt_of_bytes (pkt_bytes p) = p"
  by (simp add: pkt_of_bytes_def pkt_bytes_def nth_append)

section \<open>Queue entries\<close>

text \<open>
  Application receive queue entry (\<open>struct flextcp_pl_arx\<close>, 64 bytes: the \<open>connupdate\<close> message, padding up
  to byte 59, \<open>tx_head\<close> and, last, the \<open>type\<close> that hands the entry over).  The padding, which the source
  leaves uninitialised, is zero here.
\<close>

record arx =
  arx_opaque :: u64
  arx_rx_bump :: u32
  arx_rx_pos :: u32
  arx_tx_bump :: u32
  arx_tx_head :: u32
  arx_type :: u8

abbreviation ARX_SZ :: nat where "ARX_SZ \<equiv> 64"
abbreviation ATX_SZ :: nat where "ATX_SZ \<equiv> 64"
abbreviation KTX_SZ :: nat where "KTX_SZ \<equiv> 64"
abbreviation KRX_SZ :: nat where "KRX_SZ \<equiv> 72"

abbreviation ARX_CONNUPDATE :: u8 where "ARX_CONNUPDATE \<equiv> 1"
abbreviation ARX_OBJUPDATE :: u8 where "ARX_OBJUPDATE \<equiv> 2"
abbreviation ATX_CONNUPDATE :: u8 where "ATX_CONNUPDATE \<equiv> 1"
abbreviation KTX_PACKET :: u8 where "KTX_PACKET \<equiv> 1"
abbreviation KTX_CONNRETRAN :: u8 where "KTX_CONNRETRAN \<equiv> 2"
abbreviation KRX_PACKET :: u8 where "KRX_PACKET \<equiv> 1"

definition arx_bytes :: "arx \<Rightarrow> u8 list" where
  "arx_bytes a = le64_bytes (arx_opaque a) @ le32_bytes (arx_rx_bump a) @ le32_bytes (arx_rx_pos a) @
     le32_bytes (arx_tx_bump a) @ replicate 39 0 @ le32_bytes (arx_tx_head a) @ [arx_type a]"

definition arx_of_bytes :: "u8 list \<Rightarrow> arx" where
  "arx_of_bytes bs = \<lparr>arx_opaque = le64_of (slice bs 0 8), arx_rx_bump = le32_of (slice bs 8 4),
     arx_rx_pos = le32_of (slice bs 12 4), arx_tx_bump = le32_of (slice bs 16 4),
     arx_tx_head = le32_of (slice bs 59 4), arx_type = bs ! 63\<rparr>"

text \<open>Application transmit queue entry (\<open>struct flextcp_pl_atx\<close>).\<close>

record atx =
  atx_rx_tail :: u32
  atx_tx_head :: u32
  atx_flow_id :: u32
  atx_bump_seq :: u32
  atx_type :: u8

definition atx_bytes :: "atx \<Rightarrow> u8 list" where
  "atx_bytes a = le32_bytes (atx_rx_tail a) @ le32_bytes (atx_tx_head a) @ le32_bytes (atx_flow_id a) @
     le32_bytes (atx_bump_seq a) @ replicate 47 0 @ [atx_type a]"

definition atx_of_bytes :: "u8 list \<Rightarrow> atx" where
  "atx_of_bytes bs = \<lparr>atx_rx_tail = le32_of (slice bs 0 4), atx_tx_head = le32_of (slice bs 4 4),
     atx_flow_id = le32_of (slice bs 8 4), atx_bump_seq = le32_of (slice bs 12 4), atx_type = bs ! 63\<rparr>"

text \<open>An application receive queue entry written by the fast path and a transmit queue entry written by an
  application are 64 bytes long, read back unchanged, and have their type in the last byte.\<close>

lemma queue_entry_roundtrip:
  "arx_of_bytes (arx_bytes a) = a \<and> length (arx_bytes a) = ARX_SZ \<and> last (arx_bytes a) = arx_type a \<and>
   atx_of_bytes (atx_bytes b) = b \<and> length (atx_bytes b) = ATX_SZ \<and> last (atx_bytes b) = atx_type b"
  by (simp add: arx_of_bytes_def arx_bytes_def atx_of_bytes_def atx_bytes_def nth_append)

end
