(* ===== verification/FastBase.thy ===== *)
theory FastBase
  imports Buffers Wire TcpCommon Qman
begin

unbundle bit_operations_syntax

text \<open>
  State of a fast path core and the leaf operations of its flow code (flexnic/fast_flows.c,
  flexnic/fast_appctx.c, flexnic/fastemu.h, utils/utils.c): NIC memory (\<open>struct flextcp_pl_mem\<close>), DMA memory,
  the core's queue manager and transmit buffer; reading and writing the flow buffers, building segments and
  acknowledgements, notifying applications, resetting for retransmission, looking up flows.

  What the code takes from DPDK and the network driver is a parameter: \<open>xsum\<close> is the value
  \<open>network_buf_tcpxsums\<close> puts into the TCP checksum field, \<open>hash_crc\<close> is \<open>rte_hash_crc\<close> with seed 0 and
  \<open>ring_ok\<close> says whether \<open>rte_ring_enqueue\<close> accepts an entry.
\<close>

record env =
  xsum :: "pkt_tcp \<Rightarrow> u16"
  hash_crc :: "u8 list \<Rightarrow> u32"
  ring_ok :: "u8 \<Rightarrow> (u8 \<times> u32) list \<Rightarrow> bool"
  own_mac :: "48 word"

text \<open>Application and kernel context registers (\<open>struct flextcp_pl_appctx\<close>).\<close>

record appctx =
  ax_rx_base :: u64
  ax_tx_base :: u64
  ax_rx_len :: u32
  ax_tx_len :: u32
  ax_qman_qid :: u32
  ax_appst_id :: u32
  ax_rx_head :: u32
  ax_tx_head :: u32
  ax_last_ts :: u32

text \<open>Application state: \<open>ctx_num\<close> and \<open>ctx_ids\<close>.\<close>

record appst =
  ctx_num :: u16
  ctx_ids :: "u16 list"

text \<open>Whose event descriptor is written: an application context, a core, or the kernel.\<close>

datatype kick = KickApp u16 u16 | KickCore u8 | KickKernel

text \<open>
  \<open>core_id\<close> is \<open>ctx->id\<close> of the running core.  \<open>flows\<close>, \<open>flowht\<close> (flow id and hash), \<open>qmant\<close>, \<open>kctxs\<close>,
  \<open>appctxs\<close>, \<open>appsts\<close> and \<open>steering\<close> are the arrays of the NIC memory; \<open>fwd\<close> collects what was enqueued on the
  forwarding rings of other cores, \<open>txq\<close> the frames in the transmit buffer, \<open>kicks\<close> the event descriptors
  written.  \<open>now_us\<close> is what \<open>util_timeout_time_us\<close> returns and \<open>klast_ts\<close> the thread-local \<open>last_ts\<close> of
  \<open>fast_kernel_kick\<close>.
\<close>

record dp =
  dmem :: "u8 list"
  appctxs :: "appctx list list"
  flows :: "flowst list"
  flowht :: "(u32 \<times> u32) list"
  qmant :: "u32 list"
  kctxs :: "appctx list"
  appsts :: "appst list"
  steering :: "u8 list"
  core_id :: u16
  qm :: qman_thread
  fwd :: "(u8 \<times> u32) list"
  txq :: "u8 list list"
  kicks :: "kick list"
  now_us :: u32
  klast_ts :: u32

abbreviation TCP_MSS :: u32 where "TCP_MSS \<equiv> 1448"
abbreviation TXBUF_SIZE :: nat where "TXBUF_SIZE \<equiv> 64"
abbreviation POLL_CYCLE :: u32 where "POLL_CYCLE \<equiv> 10000"
abbreviation APP_QMAN_FLOW :: u8 where "APP_QMAN_FLOW \<equiv> 1"
abbreviation FLOWST_SLOWPATH :: u64 where "FLOWST_SLOWPATH \<equiv> 1"
abbreviation FLOWST_OBJCONN :: u64 where "FLOWST_OBJCONN \<equiv> 2"
abbreviation FLOWST_OBJNOHASH :: u64 where "FLOWST_OBJNOHASH \<equiv> 4"
abbreviation FLOWST_ECN :: u64 where "FLOWST_ECN \<equiv> 8"
abbreviation FLOWST_RX_MASK :: u64 where "FLOWST_RX_MASK \<equiv> NOT 15"
abbreviation APPCTX_NUM :: nat where "APPCTX_NUM \<equiv> 16"
abbreviation APPST_NUM :: nat where "APPST_NUM \<equiv> 8"
abbreviation APPST_CTX_NUM :: nat where "APPST_CTX_NUM \<equiv> 31"
abbreviation OBJ_MAGIC :: u16 where "OBJ_MAGIC \<equiv> 0xb805"
abbreviation OBJ_HDR_SZ :: nat where "OBJ_HDR_SZ \<equiv> 8"

section \<open>Helpers of the core\<close>

text \<open>\<open>util_flexnic_kick\<close>: the context with its new \<open>last_ts\<close>, and whether its descriptor is written.\<close>

definition util_flexnic_kick :: "u32 \<Rightarrow> appctx \<Rightarrow> appctx \<times> bool" where
  "util_flexnic_kick now c = (c\<lparr>ax_last_ts := now\<rparr>, now - ax_last_ts c > POLL_CYCLE)"

definition tx_send :: "dp \<Rightarrow> u8 list \<Rightarrow> dp res" where
  "tx_send s frame = (if length (txq s) \<ge> TXBUF_SIZE then Inl Abort else Inr (s\<lparr>txq := txq s @ [frame]\<rparr>))"

text \<open>Every caller of \<open>qman_set\<close> in the flow code aborts when it fails.\<close>

definition qset :: "dp \<Rightarrow> u32 \<Rightarrow> u32 \<Rightarrow> u32 \<Rightarrow> u16 \<Rightarrow> u8 \<Rightarrow> u8 \<Rightarrow> dp res" where
  "qset s qid rate avail mc opq flags =
    bind_res (qman_set (qm s) qid rate avail mc opq flags)
      (\<lambda>r. case r of None \<Rightarrow> Inl Abort | Some t \<Rightarrow> Inr (s\<lparr>qm := t\<rparr>))"

abbreviation QF_ADD :: u8 where
  "QF_ADD \<equiv> QMAN_SET_RATE OR QMAN_SET_MAXCHUNK OR QMAN_ADD_AVAIL OR QMAN_SET_OPAQUE"

abbreviation QF_SET :: u8 where
  "QF_SET \<equiv> QMAN_SET_RATE OR QMAN_SET_MAXCHUNK OR QMAN_SET_AVAIL OR QMAN_SET_OPAQUE"

section \<open>Flow buffers\<close>

definition flow_tx_read :: "u8 list \<Rightarrow> flowst \<Rightarrow> u32 \<Rightarrow> u16 \<Rightarrow> u8 list res" where
  "flow_tx_read mem fs pos len =
    (if pos + ucast len \<le> tx_len fs then
       (case dma_read mem (tx_base fs + ucast pos) (ucast len) of None \<Rightarrow> Inl Abort | Some b \<Rightarrow> Inr b)
     else
       let part = tx_len fs - pos in
       case dma_read mem (tx_base fs + ucast pos) (ucast part) of None \<Rightarrow> Inl Abort
       | Some b1 \<Rightarrow>
           (case dma_read mem (tx_base fs) (ucast (ucast len - part)) of None \<Rightarrow> Inl Abort
            | Some b2 \<Rightarrow> Inr (b1 @ b2)))"

text \<open>\<open>src\<close> is what lies behind the source pointer; reading past it is \<open>Oob\<close>.\<close>

definition flow_rx_write :: "u8 list \<Rightarrow> flowst \<Rightarrow> u32 \<Rightarrow> u16 \<Rightarrow> u8 list \<Rightarrow> u8 list res" where
  "flow_rx_write mem fs pos len src =
    (let rx_base = rx_base_sp fs AND FLOWST_RX_MASK in
     if length src < unat len then Inl Oob
     else if pos + ucast len \<le> rx_len fs then
       (case dma_write mem (rx_base + ucast pos) (ucast len) src of None \<Rightarrow> Inl Abort | Some m \<Rightarrow> Inr m)
     else
       let part = rx_len fs - pos in
       case dma_write mem (rx_base + ucast pos) (ucast part) src of None \<Rightarrow> Inl Abort
       | Some m \<Rightarrow>
           (case dma_write m rx_base (ucast (ucast len - part)) (drop (unat part) src) of None \<Rightarrow> Inl Abort
            | Some m \<Rightarrow> Inr m))"

definition flow_rx_seq_write :: "u8 list \<Rightarrow> flowst \<Rightarrow> u32 \<Rightarrow> u16 \<Rightarrow> u8 list \<Rightarrow> u8 list res" where
  "flow_rx_seq_write mem fs seq len src =
    (let diff = seq - rx_next_seq fs; pos = rx_next_pos fs + diff;
         pos = (if pos \<ge> rx_len fs then pos - rx_len fs else pos) in
     if \<not> pos < rx_len fs then Inl Assert_fail else flow_rx_write mem fs pos len src)"

section \<open>Segments\<close>

definition flow_reset_retransmit :: "flowst \<Rightarrow> flowst" where
  "flow_reset_retransmit fs =
    (let fs = fs\<lparr>rx_dupack_cnt := 0, tx_next_seq := tx_next_seq fs - tx_sent fs\<rparr>;
         fs = (if tx_next_pos fs \<ge> tx_sent fs then fs\<lparr>tx_next_pos := tx_next_pos fs - tx_sent fs\<rparr>
               else let x = tx_sent fs - tx_next_pos fs in fs\<lparr>tx_next_pos := tx_len fs - x\<rparr>);
         fs = fs\<lparr>tx_sent := 0\<rparr>;
         fs = (if cnt_tx_drops fs = 0 then fs\<lparr>tx_rate := tx_rate fs div 2\<rparr> else fs) in
     fs\<lparr>cnt_tx_drops := cnt_tx_drops fs + 1\<rparr>)"

definition tcp_checksums :: "env \<Rightarrow> pkt_tcp \<Rightarrow> pkt_tcp" where
  "tcp_checksums e p = (let p = p\<lparr>ip_chksum := 0\<rparr> in p\<lparr>tcp_chksum := xsum e p\<rparr>)"

text \<open>\<open>MIN(0xFFFF, rxwnd)\<close>\<close>

definition wnd_field :: "u32 \<Rightarrow> u16" where
  "wnd_field rxwnd = (if rxwnd < 0xFFFF then ucast rxwnd else 0xFFFF)"

definition ts_opt_bytes :: "u32 \<Rightarrow> u32 \<Rightarrow> u8 list" where
  "ts_opt_bytes ts_val ts_ecr = [8, 10] @ be32_bytes ts_val @ be32_bytes ts_ecr @ [0, 0]"

text \<open>The frame \<open>flow_tx_segment\<close> builds, with 12 option bytes, before the checksum is filled in.\<close>

definition segment_pkt :: "env \<Rightarrow> flowst \<Rightarrow> u32 \<Rightarrow> u32 \<Rightarrow> u32 \<Rightarrow> u16 \<Rightarrow> u32 \<Rightarrow> u32 \<Rightarrow> u8 list \<Rightarrow> pkt_tcp" where
  "segment_pkt e fs seq ack rxwnd payload ts_echo ts_my dat =
    \<lparr>eth_dest = remote_mac fs, eth_src = own_mac e, eth_type = ETH_TYPE_IP,
     ip_v_hl = push_bit 4 4 OR 5,
     ip_tos = (if rx_base_sp fs AND FLOWST_ECN = FLOWST_ECN then IPH_ECN_SET 0 IP_ECN_ECT0 else 0),
     ip_len = 66 - 14 + payload, ip_id = 3, ip_offset = 0, ip_ttl = 0xff, ip_proto = IP_PROTO_TCP, ip_chksum = 0,
     ip_src = local_ip fs, ip_dest = remote_ip fs,
     tcp_src = local_port fs, tcp_dest = remote_port fs, tcp_seqno = seq, tcp_ackno = ack,
     tcp_hdrlen_flags = TCPH_HDRLEN_FLAGS (5 + 12 div 4) (TCP_PSH OR TCP_ACK), tcp_wnd = wnd_field rxwnd,
     tcp_chksum = 0, tcp_urgp = 0, pbody = ts_opt_bytes ts_my ts_echo @ dat\<rparr>"

definition flow_tx_segment :: "env \<Rightarrow> dp \<Rightarrow> flowst \<Rightarrow> u32 \<Rightarrow> u32 \<Rightarrow> u32 \<Rightarrow> u16 \<Rightarrow> u32 \<Rightarrow> u32 \<Rightarrow> u32 \<Rightarrow> dp res" where
  "flow_tx_segment e s fs seq ack rxwnd payload payload_pos ts_echo ts_my =
    bind_res (if payload > 0 then flow_tx_read (dmem s) fs payload_pos payload else Inr [])
      (\<lambda>dat. let p = tcp_checksums e (segment_pkt e fs seq ack rxwnd payload ts_echo ts_my dat) in
        tx_send s (take (unat (66 + payload)) (pkt_bytes p)))"

text \<open>Overwriting bytes of a buffer at an offset.\<close>

definition put :: "u8 list \<Rightarrow> nat \<Rightarrow> u8 list \<Rightarrow> u8 list" where
  "put bs a xs = take a bs @ xs @ drop (a + length xs) bs"

text \<open>\<open>ts_off\<close> is the offset of the timestamp option behind the fixed headers.\<close>

definition ack_pkt :: "env \<Rightarrow> pkt_tcp \<Rightarrow> u32 \<Rightarrow> u32 \<Rightarrow> u32 \<Rightarrow> u32 \<Rightarrow> u32 \<Rightarrow> nat \<Rightarrow> pkt_tcp" where
  "ack_pkt e p seq ack rxwnd echots myts ts_off =
    (let hdrlen = PKT_TCP_SZ + (TCPH_HDRLEN p - 5) * 4;
         ecn_flags = (if IPH_ECN p = IP_ECN_CE then TCP_ECE else 0) in
     tcp_checksums e
      (p\<lparr>eth_src := eth_dest p, eth_dest := eth_src p, ip_src := ip_dest p, ip_dest := ip_src p,
         tcp_src := tcp_dest p, tcp_dest := tcp_src p, ip_tos := IPH_ECN_SET (ip_tos p) IP_ECN_NONE,
         tcp_seqno := seq, tcp_ackno := ack,
         tcp_hdrlen_flags := TCPH_HDRLEN_FLAGS (TCPH_HDRLEN p) (TCP_ACK OR ecn_flags),
         tcp_wnd := wnd_field rxwnd, tcp_urgp := 0,
         pbody := put (put (pbody p) (ts_off + 2) (be32_bytes myts)) (ts_off + 6) (be32_bytes echots),
         ip_len := of_nat (hdrlen - ETH_HDR_SZ), ip_ttl := 0xff\<rparr>))"

definition flow_tx_ack :: "env \<Rightarrow> dp \<Rightarrow> pkt_tcp \<Rightarrow> u32 \<Rightarrow> u32 \<Rightarrow> u32 \<Rightarrow> u32 \<Rightarrow> u32 \<Rightarrow> nat \<Rightarrow> dp res" where
  "flow_tx_ack e s p seq ack rxwnd echots myts ts_off =
    tx_send s (take (PKT_TCP_SZ + (TCPH_HDRLEN p - 5) * 4) (pkt_bytes (ack_pkt e p seq ack rxwnd echots myts ts_off)))"

section \<open>Application notifications\<close>

text \<open>\<open>None\<close> is the \<open>-1\<close> for a full queue.\<close>

definition fast_actx_rxq_add :: "dp \<Rightarrow> u16 \<Rightarrow> u16 \<Rightarrow> arx \<Rightarrow> dp option res" where
  "fast_actx_rxq_add s core ctx a =
    (let actx = appctxs s ! unat core ! unat ctx;
         txhead = ax_tx_head actx; rxhead = ax_rx_head actx;
         rxnhead = rxhead + of_nat ARX_SZ;
         rxnhead = (if rxnhead \<ge> ax_rx_len actx then rxnhead - ax_rx_len actx else rxnhead) in
     case dma_pointer (dmem s) (ax_rx_base actx + ucast rxhead) (of_nat ARX_SZ) of None \<Rightarrow> Inl Abort
     | Some a0 \<Rightarrow>
         if dmem s ! (unat a0 + 63) \<noteq> 0 then Inr None
         else
           let (actx, k) = util_flexnic_kick (now_us s) (actx\<lparr>ax_rx_head := rxnhead\<rparr>) in
           Inr (Some (s\<lparr>appctxs := (appctxs s)[unat core := (appctxs s ! unat core)[unat ctx := actx]],
                        dmem := put (dmem s) (unat a0) (arx_bytes (a\<lparr>arx_tx_head := txhead\<rparr>)),
                        kicks := kicks s @ (if k then [KickApp core ctx] else [])\<rparr>)))"

section \<open>Flow lookup\<close>

record flow_key =
  k_local_ip :: u32
  k_remote_ip :: u32
  k_local_port :: u16
  k_remote_port :: u16

definition flow_hash :: "env \<Rightarrow> flow_key \<Rightarrow> u32" where
  "flow_hash e k = hash_crc e (be32_bytes (k_local_ip k) @ be32_bytes (k_remote_ip k) @
     be16_bytes (k_local_port k) @ be16_bytes (k_remote_port k))"

abbreviation FLOWHT_NBSZ :: nat where "FLOWHT_NBSZ \<equiv> 4"
abbreviation FLOWHTE_VALID :: u32 where "FLOWHTE_VALID \<equiv> 0x80000000"
abbreviation FLOWHTE_POSMASK :: u32 where "FLOWHTE_POSMASK \<equiv> 0x1FFFFFFF"

definition key_matches :: "flowst \<Rightarrow> flow_key \<Rightarrow> bool" where
  "key_matches fs k \<longleftrightarrow> local_ip fs = k_local_ip k \<and> remote_ip fs = k_remote_ip k \<and>
     local_port fs = k_local_port k \<and> remote_port fs = k_remote_port k"

text \<open>The probe loop over the remaining neighbourhood offsets \<open>js\<close>; \<open>flowht\<close> has
  \<open>FLEXNIC_PL_FLOWHT_ENTRIES\<close> entries, a power of two below \<open>2^32\<close>.\<close>

fun flow_probe :: "dp \<Rightarrow> flow_key \<Rightarrow> u32 \<Rightarrow> nat list \<Rightarrow> u32 option" where
  "flow_probe s k h [] = None"
| "flow_probe s k h (j # js) =
    (let i = unat (h + of_nat j) mod length (flowht s);
         (ffid, eh) = flowht s ! i;
         fid = ffid AND FLOWHTE_POSMASK in
     if ffid AND FLOWHTE_VALID = 0 \<or> eh \<noteq> h then flow_probe s k h js
     else if key_matches (flows s ! unat fid) k then Some fid
     else flow_probe s k h js)"

definition fast_flow_lookup :: "env \<Rightarrow> dp \<Rightarrow> flow_key \<Rightarrow> u32 option" where
  "fast_flow_lookup e s k = flow_probe s k (flow_hash e k) [0..<FLOWHT_NBSZ]"

text \<open>\<open>fast_flows_packet_fss\<close> hashes a batch of packets, prefetches, and finishes each lookup.\<close>

definition pkt_key :: "pkt_tcp \<Rightarrow> flow_key" where
  "pkt_key p = \<lparr>k_local_ip = ip_dest p, k_remote_ip = ip_src p, k_local_port = tcp_dest p, k_remote_port = tcp_src p\<rparr>"

definition fast_flows_packet_fss :: "env \<Rightarrow> dp \<Rightarrow> pkt_tcp list \<Rightarrow> u32 option list" where
  "fast_flows_packet_fss e s ps =
    (let hashes = map (\<lambda>p. flow_hash e (pkt_key p)) ps in
     map (\<lambda>(p, h). flow_probe s (pkt_key p) h [0..<FLOWHT_NBSZ]) (zip ps hashes))"

end
