(* ===== verification/FastFlows.thy ===== *)
theory FastFlows
  imports FastBase
begin

unbundle bit_operations_syntax

text \<open>
  The operations of the fast path on flows, one definition per function of flexnic/fast_flows.c and one per
  stage between two labels of \<open>fast_flows_packet\<close>; then the polling of application and kernel queues
  (flexnic/fast_appctx.c, flexnic/fast_kernel.c).  A flow is named by its index in \<open>flows\<close>.  Each operation
  is one critical section of the flow's spin lock.
\<close>

abbreviation putfs :: "dp \<Rightarrow> u32 \<Rightarrow> flowst \<Rightarrow> dp" where
  "putfs s fid fs \<equiv> s\<lparr>flows := (flows s)[unat fid := fs]\<rparr>"

abbreviation objconn :: "flowst \<Rightarrow> bool" where
  "objconn fs \<equiv> rx_base_sp fs AND FLOWST_OBJCONN \<noteq> 0"

section \<open>Sending\<close>

text \<open>
  The object part of \<open>fast_flows_qman\<close>: fetch the header of a new object, crop the segment to the object,
  re-arm the queue if more is available.  Returns the flow state, the segment length and the state.
\<close>

definition qman_obj :: "dp \<Rightarrow> flowst \<Rightarrow> u32 \<Rightarrow> u32 \<Rightarrow> (dp \<times> flowst \<times> u32) res" where
  "qman_obj s fs avail len =
    bind_res
      (if tx_objrem fs = 0 then
         if len < of_nat OBJ_HDR_SZ then Inl Abort
         else bind_res (flow_tx_read (dmem s) fs (tx_next_pos fs) (of_nat OBJ_HDR_SZ)) (\<lambda>oh.
           let hdrlen = of_nat OBJ_HDR_SZ + ucast (oh ! 7); objlen = hdrlen + be32_of (take 4 oh) in
           if len < hdrlen then Inl Abort else Inr (fs\<lparr>tx_objrem := objlen\<rparr>))
       else Inr fs)
      (\<lambda>fs. let len = (if tx_objrem fs < len then tx_objrem fs else len);
                fs = fs\<lparr>tx_objrem := tx_objrem fs - len\<rparr> in
         bind_res (if avail > len then qset s (qman_qid fs) 0 1 1 APP_QMAN_FLOW QF_ADD else Inr s)
           (\<lambda>s. Inr (s, fs, len)))"

text \<open>The update of the transmit position for \<open>len\<close> bytes sent.\<close>

definition tx_advance :: "flowst \<Rightarrow> u32 \<Rightarrow> flowst" where
  "tx_advance fs len =
    (let pos = tx_next_pos fs + len in
     fs\<lparr>tx_next_seq := tx_next_seq fs + len, tx_next_pos := (if pos \<ge> tx_len fs then pos - tx_len fs else pos),
        tx_sent := tx_sent fs + len\<rparr>)"

text \<open>The arrays of the NIC memory and \<open>ctxs\<close>, which has as many entries as there are kernel contexts, are read without a check.\<close>

definition fast_flows_qman :: "env \<Rightarrow> dp \<Rightarrow> u32 \<Rightarrow> u32 \<Rightarrow> (dp \<times> int) res" where
  "fast_flows_qman e s queue ts =
    (let flow_id = qmant s ! unat queue AND 0x3FFFFFFF;
         fs = flows s ! unat flow_id;
         new_core = steering s ! unat (flow_group fs) in
     if unat queue \<ge> length (qmant s) \<or> unat flow_id \<ge> length (flows s) \<or> unat (flow_group fs) \<ge> length (steering s) then Inl Oob
     else if ucast new_core \<noteq> core_id s then
       if unat new_core \<ge> length (kctxs s) then Inl Oob
       else if \<not> ring_ok e new_core (fwd s) then Inl Abort
       else
         bind_res (qset (s\<lparr>fwd := fwd s @ [(new_core, flow_id)]\<rparr>) (qman_qid fs) 0 0 0 APP_QMAN_FLOW QF_SET) (\<lambda>s.
           let (kc, k) = util_flexnic_kick (now_us s) (kctxs s ! unat new_core) in
           Inr (s\<lparr>kctxs := (kctxs s)[unat new_core := kc],
                  kicks := kicks s @ (if k then [KickCore new_core] else [])\<rparr>, -1))
     else
       let avail = tcp_txavail fs None in
       if avail = 0 then Inr (s, -1)
       else
         let len = (if TCP_MSS < avail then TCP_MSS else avail) in
         bind_res (if objconn fs then qman_obj s fs avail len else Inr (s, fs, len)) (\<lambda>(s, fs, len).
           let fs' = tx_advance fs len in
           bind_res (flow_tx_segment e (putfs s flow_id fs') fs' (tx_next_seq fs) (rx_next_seq fs) (rx_avail fs)
                       (ucast len) (tx_next_pos fs) (tx_next_ts fs') ts)
             (\<lambda>s. Inr (s, 0))))"

definition fast_flows_qman_fwd :: "dp \<Rightarrow> u32 \<Rightarrow> dp res" where
  "fast_flows_qman_fwd s fid =
    (let fs = flows s ! unat fid; avail = tcp_txavail fs None in
     qset s (qman_qid fs) (tx_rate fs) avail (ucast TCP_MSS) APP_QMAN_FLOW QF_SET)"

section \<open>Receiving\<close>

text \<open>The validity test on the headers; sums are \<open>size_t\<close>.\<close>

definition hdr_ok :: "pkt_tcp \<Rightarrow> u16 \<Rightarrow> bool" where
  "hdr_ok p len \<longleftrightarrow> \<not> (unat len < PKT_TCP_SZ \<or> eth_type p \<noteq> ETH_TYPE_IP \<or> ip_proto p \<noteq> IP_PROTO_TCP \<or>
     IPH_V p \<noteq> 4 \<or> IPH_HL p \<noteq> 5 \<or> TCPH_HDRLEN p < 5 \<or> unat len < unat (ip_len p) + ETH_HDR_SZ)"

text \<open>\<open>payload_bytes\<close>: the difference is a \<open>size_t\<close> stored into 32 bits, so it wraps when the IP length does not
  cover the headers.\<close>

definition pkt_payload :: "pkt_tcp \<Rightarrow> u32" where
  "pkt_payload p = ucast (ip_len p) - (20 + 20 + of_nat ((TCPH_HDRLEN p - 5) * 4))"

text \<open>Statistics and acknowledgement processing: new flow state, \<open>tx_bump\<close>, and whether the third duplicate
  acknowledgement has reset transmission.\<close>

definition rx_stats :: "flowst \<Rightarrow> pkt_tcp \<Rightarrow> flowst" where
  "rx_stats fs p =
    (if TCPH_FLAGS p AND TCP_ACK = TCP_ACK then
       let fs = fs\<lparr>cnt_rx_acks := cnt_rx_acks fs + 1\<rparr> in
       if TCPH_FLAGS p AND TCP_ECE = TCP_ECE then fs\<lparr>cnt_rx_ecn := cnt_rx_ecn fs + 1\<rparr> else fs
     else fs)"

definition ack_advance :: "flowst \<Rightarrow> u32 \<Rightarrow> flowst" where
  "ack_advance fs tx_bump =
    (if tx_bump \<le> tx_sent fs then fs\<lparr>tx_sent := tx_sent fs - tx_bump\<rparr>
     else
       let d = tx_bump - tx_sent fs; pos = tx_next_pos fs + d in
       fs\<lparr>tx_next_seq := tx_next_seq fs + d,
          tx_next_pos := (if pos \<ge> tx_len fs then pos - tx_len fs else pos), tx_sent := 0\<rparr>)"

definition rx_ack :: "flowst \<Rightarrow> pkt_tcp \<Rightarrow> u32 \<Rightarrow> flowst \<times> u32 \<times> bool" where
  "rx_ack fs p orig_payload =
    (if TCPH_FLAGS p AND TCP_ACK = TCP_ACK then
       case tcp_valid_rxack fs (tcp_ackno p) of None \<Rightarrow> (fs, 0, False)
       | Some tx_bump \<Rightarrow>
           let fs = ack_advance (fs\<lparr>cnt_rx_ack_bytes := cnt_rx_ack_bytes fs + tx_bump\<rparr>) tx_bump in
           if tx_bump \<noteq> 0 then (fs\<lparr>rx_dupack_cnt := 0\<rparr>, tx_bump, False)
           else if orig_payload = 0 then
             let fs = fs\<lparr>rx_dupack_cnt := rx_dupack_cnt fs + 1\<rparr> in
             if rx_dupack_cnt fs \<ge> 3 then (flow_reset_retransmit fs, 0, True) else (fs, 0, False)
           else (fs, 0, False)
     else (fs, 0, False))"

text \<open>An out-of-order segment: kept if it starts or extends the one out-of-order interval.  \<open>src\<close> are the
  bytes from the (trimmed) payload on.\<close>

definition rx_ooo :: "u8 list \<Rightarrow> flowst \<Rightarrow> u32 \<Rightarrow> u32 \<Rightarrow> u8 list \<Rightarrow> (u8 list \<times> flowst) res" where
  "rx_ooo mem fs seq payload_bytes src =
    (if payload_bytes = 0 then Inr (mem, fs)
     else if rx_ooo_len fs = 0 then
       let fs = fs\<lparr>rx_ooo_start := seq, rx_ooo_len := payload_bytes\<rparr> in
       bind_res (flow_rx_seq_write mem fs seq (ucast payload_bytes) src) (\<lambda>m. Inr (m, fs))
     else if seq + payload_bytes = rx_ooo_start fs then
       let fs = fs\<lparr>rx_ooo_start := seq, rx_ooo_len := rx_ooo_len fs + payload_bytes\<rparr> in
       bind_res (flow_rx_seq_write mem fs seq (ucast payload_bytes) src) (\<lambda>m. Inr (m, fs))
     else if rx_ooo_start fs + rx_ooo_len fs = seq then
       let fs = fs\<lparr>rx_ooo_len := rx_ooo_len fs + payload_bytes\<rparr> in
       bind_res (flow_rx_seq_write mem fs seq (ucast payload_bytes) src) (\<lambda>m. Inr (m, fs))
     else Inr (mem, fs))"

text \<open>Round-trip estimate and the peer's window.\<close>

definition rx_rtt :: "flowst \<Rightarrow> pkt_tcp \<Rightarrow> u32 \<Rightarrow> u32 \<Rightarrow> u32 \<Rightarrow> flowst" where
  "rx_rtt fs p ts_val ts_ecr ts =
    (let fs = fs\<lparr>tx_next_ts := ts_val\<rparr>;
         fs = (if TCPH_FLAGS p AND TCP_ACK = TCP_ACK \<and> ts_ecr \<noteq> 0 then
                 let rtt = ts - ts_ecr in
                 if rtt_est fs \<noteq> 0 then fs\<lparr>rtt_est := (rtt_est fs * 7 + rtt) div 8\<rparr> else fs\<lparr>rtt_est := rtt\<rparr>
               else fs) in
     fs\<lparr>rx_remote_avail := ucast (tcp_wnd p)\<rparr>)"

text \<open>
  Object connections: on a new object choose a context by hash or by the id in the header.  \<open>Inr (fs, b)\<close> with
  \<open>b\<close> false is the \<open>goto slowpath\<close>; \<open>oh\<close> are the bytes from the payload on.  \<open>memcpy\<close> into \<open>steer_id\<close> reads the
  destination id as a little-endian number of up to eight bytes.
\<close>

definition rx_steer :: "env \<Rightarrow> dp \<Rightarrow> flowst \<Rightarrow> u8 list \<Rightarrow> u32 \<Rightarrow> (flowst \<times> bool) res" where
  "rx_steer e s fs oh payload_bytes =
    (if length oh < OBJ_HDR_SZ then Inl Oob
     else if unat payload_bytes < OBJ_HDR_SZ \<or> unat payload_bytes < OBJ_HDR_SZ + unat (oh ! 7) then Inr (fs, False)
     else if \<not> unat (db_id fs) < APPCTX_NUM then Inl Assert_fail
     else
       let i = ax_appst_id (appctxs s ! unat (core_id s) ! unat (db_id fs)); dstlen = unat (oh ! 7);
           dst = take dstlen (drop OBJ_HDR_SZ oh) in
       if \<not> unat i < APPST_NUM then Inl Assert_fail
       else
         let a = appsts s ! unat i in
         if \<not> ctx_num a > 0 then Inl Assert_fail
         else if \<not> unat (ctx_num a) \<le> APPST_CTX_NUM then Inl Assert_fail
         else if length oh < OBJ_HDR_SZ + dstlen then Inl Oob
         else
           let nohash = rx_base_sp fs AND FLOWST_OBJNOHASH \<noteq> 0;
               steer_id = le64_of (dst @ replicate (8 - dstlen) 0) in
           if nohash \<and> dstlen > 8 then Inr (fs, False)
           else if nohash \<and> steer_id \<ge> ucast (ctx_num a) then Inr (fs, False)
           else
             let i = (if nohash then unat steer_id else unat (hash_crc e dst) mod unat (ctx_num a));
                 c = ctx_ids a ! i in
             if \<not> unat c < APPCTX_NUM then Inl Assert_fail
             else Inr (fs\<lparr>db_id := c, rx_objrem := of_nat OBJ_HDR_SZ + of_nat dstlen + be32_of (take 4 oh)\<rparr>, True))"

definition rx_obj :: "env \<Rightarrow> dp \<Rightarrow> flowst \<Rightarrow> u8 list \<Rightarrow> u32 \<Rightarrow> (flowst \<times> bool) res" where
  "rx_obj e s fs oh payload_bytes =
    (if objconn fs then
       bind_res (if rx_objrem fs = 0 \<and> payload_bytes > 0 then rx_steer e s fs oh payload_bytes else Inr (fs, True))
         (\<lambda>(fs, ok). if \<not> ok then Inr (fs, False)
            else if payload_bytes > rx_objrem fs then Inr (fs, False)
            else Inr (fs\<lparr>rx_objrem := rx_objrem fs - payload_bytes\<rparr>, True))
     else Inr (fs, True))"

text \<open>Moving the receive position over \<open>n\<close> bytes, with the assert behind it.\<close>

definition rx_advance :: "flowst \<Rightarrow> u32 \<Rightarrow> flowst res" where
  "rx_advance fs n =
    (let pos = rx_next_pos fs + n; pos = (if pos \<ge> rx_len fs then pos - rx_len fs else pos) in
     if \<not> pos < rx_len fs then Inl Assert_fail
     else Inr (fs\<lparr>rx_avail := rx_avail fs - n, rx_next_pos := pos, rx_next_seq := rx_next_seq fs + n\<rparr>))"

text \<open>After in-order bytes: trim the out-of-order interval to the window, and swallow it when it is now
  continuous.  Returns the bytes it adds.\<close>

definition ooo_merge :: "flowst \<Rightarrow> (flowst \<times> u32) res" where
  "ooo_merge fs =
    (if rx_ooo_len fs \<noteq> 0 then
       case tcp_trim_rxbuf fs (rx_ooo_start fs) (ucast (rx_ooo_len fs)) of
         None \<Rightarrow> Inr (fs\<lparr>rx_ooo_len := 0\<rparr>, 0)
       | Some (trim_start, trim_end) \<Rightarrow>
           let fs = fs\<lparr>rx_ooo_start := rx_ooo_start fs + ucast trim_start,
                       rx_ooo_len := rx_ooo_len fs - (ucast trim_start + ucast trim_end)\<rparr> in
           if rx_ooo_len fs > 0 \<and> rx_ooo_start fs = rx_next_seq fs then
             let n = rx_ooo_len fs in
             bind_res (rx_advance fs n) (\<lambda>fs. Inr (fs\<lparr>rx_ooo_len := 0\<rparr>, n))
           else Inr (fs, 0)
     else Inr (fs, 0))"

definition rx_deliver :: "u8 list \<Rightarrow> flowst \<Rightarrow> u32 \<Rightarrow> u8 list \<Rightarrow> (u8 list \<times> flowst \<times> u32) res" where
  "rx_deliver mem fs payload_bytes src =
    (if payload_bytes > 0 then
       bind_res (flow_rx_write mem fs (rx_next_pos fs) (ucast payload_bytes) src) (\<lambda>mem.
       bind_res (rx_advance fs payload_bytes) (\<lambda>fs.
       bind_res (ooo_merge fs) (\<lambda>(fs, n). Inr (mem, fs, payload_bytes + n))))
     else Inr (mem, fs, 0))"

text \<open>
  The label \<open>unlock\<close>: notify the application of context \<open>db\<close> (the one read before the packet was processed),
  re-arm the queue manager if more can be sent than \<open>old_avail\<close>, acknowledge.
\<close>

definition rx_finish :: "env \<Rightarrow> dp \<Rightarrow> u32 \<Rightarrow> flowst \<Rightarrow> pkt_tcp \<Rightarrow> nat \<Rightarrow> u16 \<Rightarrow> u32 \<Rightarrow> u32 \<Rightarrow> u32 \<Rightarrow> u32 \<Rightarrow> bool \<Rightarrow> u32
    \<Rightarrow> (dp \<times> pkt_tcp \<times> int) res" where
  "rx_finish e s fid fs p ts_off db rx_bump rx_pos tx_bump old_avail trigger_ack ts =
    (let s = putfs s fid fs in
     bind_res
       (if rx_bump \<noteq> 0 \<or> tx_bump \<noteq> 0 then
          bind_res (fast_actx_rxq_add s (core_id s) db
             \<lparr>arx_opaque = opaque fs, arx_rx_bump = rx_bump, arx_rx_pos = rx_pos, arx_tx_bump = tx_bump,
              arx_tx_head = 0, arx_type = (if objconn fs then ARX_OBJUPDATE else ARX_CONNUPDATE)\<rparr>)
            (\<lambda>r. case r of None \<Rightarrow> Inr s | Some s \<Rightarrow> Inr s)
        else Inr s) (\<lambda>s.
     let new_avail = tcp_txavail fs None in
     bind_res
       (if new_avail > old_avail then
          if \<not> objconn fs
          then qset s (qman_qid fs) (tx_rate fs) (new_avail - old_avail) (ucast TCP_MSS) APP_QMAN_FLOW QF_ADD
          else if old_avail = 0 then qset s (qman_qid fs) 0 1 1 APP_QMAN_FLOW QF_ADD
          else Inr s
        else Inr s) (\<lambda>s.
     if trigger_ack then
       bind_res (flow_tx_ack e s p (tx_next_seq fs) (rx_next_seq fs) (rx_avail fs) (tx_next_ts fs) ts ts_off)
         (\<lambda>s. Inr (s, p, 1))
     else Inr (s, p, 0))))"

abbreviation OPT_FUEL :: nat where "OPT_FUEL \<equiv> 41"

text \<open>
  The label \<open>slowpath\<close>.  The packet is part of the result because the caller passes its buffer on to the kernel.
\<close>

definition rx_slowpath :: "dp \<Rightarrow> u32 \<Rightarrow> flowst \<Rightarrow> pkt_tcp \<Rightarrow> bool \<Rightarrow> (dp \<times> pkt_tcp \<times> int) res" where
  "rx_slowpath s fid fs p no_permanent_sp =
    Inr (putfs s fid (if no_permanent_sp then fs else fs\<lparr>rx_base_sp := rx_base_sp fs OR FLOWST_SLOWPATH\<rparr>), p, -1)"

text \<open>The magic number of a complete object header is cleared in the packet buffer.\<close>

definition clear_magic :: "flowst \<Rightarrow> u32 \<Rightarrow> u8 list \<Rightarrow> u8 list" where
  "clear_magic fs payload_bytes oh =
    (if objconn fs \<and> rx_objrem fs = 0 \<and> unat payload_bytes \<ge> OBJ_HDR_SZ \<and>
        unat payload_bytes \<ge> OBJ_HDR_SZ + unat (oh ! 7)
     then put oh 4 [0, 0] else oh)"

text \<open>The critical section of \<open>fast_flows_packet\<close>, with the option's offset already found.\<close>

definition rx_locked :: "env \<Rightarrow> dp \<Rightarrow> u32 \<Rightarrow> pkt_tcp \<Rightarrow> nat \<Rightarrow> u32 \<Rightarrow> (dp \<times> pkt_tcp \<times> int) res" where
  "rx_locked e s fid p ts_off ts =
    (let fs = flows s ! unat fid; db = db_id fs;
         extra = (TCPH_HDRLEN p - 5) * 4; payload_bytes = pkt_payload p;
         ts_val = be32_of (slice (pbody p) (ts_off + 2) 4); ts_ecr = be32_of (slice (pbody p) (ts_off + 6) 4) in
     if rx_base_sp fs AND FLOWST_SLOWPATH \<noteq> 0 then rx_slowpath s fid fs p False
     else if TCPH_FLAGS p AND NOT (TCP_ACK OR TCP_PSH OR TCP_ECE OR TCP_CWR) \<noteq> 0
     then rx_slowpath s fid fs p (TCPH_FLAGS p AND TCP_SYN \<noteq> 0)
     else
       let old_avail = tcp_txavail fs None; rx_pos = rx_next_pos fs; trigger_ack = payload_bytes > 0;
           (fs, tx_bump, reset) = rx_ack (rx_stats fs p) p payload_bytes;
           fin = (\<lambda>s fs rx_bump. rx_finish e s fid fs p ts_off db rx_bump rx_pos tx_bump old_avail trigger_ack ts) in
       if reset then fin s fs 0
       else
         case tcp_trim_rxbuf fs (tcp_seqno p) (ucast payload_bytes) of None \<Rightarrow> fin s fs 0
         | Some (trim_start, trim_end) \<Rightarrow>
             let payload_bytes = payload_bytes - (ucast trim_start + ucast trim_end);
                 oh = drop (extra + unat trim_start) (pbody p);
                 seq = tcp_seqno p + ucast trim_start in
             if seq \<noteq> rx_next_seq fs
             then bind_res (rx_ooo (dmem s) fs seq payload_bytes oh) (\<lambda>(mem, fs). fin (s\<lparr>dmem := mem\<rparr>) fs 0)
             else
               let fs = rx_rtt fs p ts_val ts_ecr ts; src = clear_magic fs payload_bytes oh in
               bind_res (rx_obj e s fs oh payload_bytes) (\<lambda>(fs, ok).
                 if \<not> ok
                 then rx_slowpath s fid fs (p\<lparr>pbody := take (extra + unat trim_start) (pbody p) @ src\<rparr>) False
                 else bind_res (rx_deliver (dmem s) fs payload_bytes src) (\<lambda>(mem, fs, rx_bump).
                        fin (s\<lparr>dmem := mem\<rparr>) fs rx_bump)))"

text \<open>\<open>fast_actx_rxq_pf\<close> only checks the address of the next entry.\<close>

definition fast_actx_rxq_pf :: "dp \<Rightarrow> u16 \<Rightarrow> u16 \<Rightarrow> bool" where
  "fast_actx_rxq_pf s core ctx =
    (let actx = appctxs s ! unat core ! unat ctx in
     dma_pointer (dmem s) (ax_rx_base actx + ucast (ax_rx_head actx)) (of_nat ARX_SZ) \<noteq> None)"

definition fast_flows_packet :: "env \<Rightarrow> dp \<Rightarrow> pkt_tcp \<Rightarrow> u16 \<Rightarrow> u32 \<Rightarrow> u32 \<Rightarrow> (dp \<times> pkt_tcp \<times> int) res" where
  "fast_flows_packet e s p len fid ts =
    (if \<not> hdr_ok p len then Inr (s, p, -1)
     else
       case tcp_parse_options OPT_FUEL p len of None \<Rightarrow> Inl Diverge
       | Some None \<Rightarrow> Inr (s, p, -1)
       | Some (Some None) \<Rightarrow> Inr (s, p, -1)
       | Some (Some (Some ts_off)) \<Rightarrow>
           if length (pbody p) < ts_off + TS_OPT_SZ then Inl Oob
           else if \<not> unat (db_id (flows s ! unat fid)) < APPCTX_NUM then Inl Oob
           else if \<not> fast_actx_rxq_pf s (core_id s) (db_id (flows s ! unat fid)) then Inl Abort
           else rx_locked e s fid p ts_off ts)"

section \<open>Queue pointer updates and retransmission\<close>

text \<open>The test for a bump that arrives out of order.\<close>

definition bump_stale :: "u32 \<Rightarrow> u32 \<Rightarrow> bool" where
  "bump_stale new cur \<longleftrightarrow>
     new \<ge> cur \<and> new - cur > UINT32_MAX div 2 \<or>
     new < cur \<and> (cur < (UINT32_MAX div 4) * 3 \<or> new > UINT32_MAX div 4)"

text \<open>The receive buffer space after the application freed it up to \<open>rx_tail\<close>.\<close>

definition bump_rx_avail :: "flowst \<Rightarrow> u32 \<Rightarrow> u32" where
  "bump_rx_avail fs rx_tail =
    (let tail = rx_next_pos fs + rx_avail fs; tail = (if tail \<ge> rx_len fs then tail - rx_len fs else tail) in
     if rx_tail \<ge> tail then rx_avail fs + (rx_tail - tail) else rx_avail fs + (rx_len fs - tail + rx_tail))"

definition flast_flows_bump :: "env \<Rightarrow> dp \<Rightarrow> u32 \<Rightarrow> u32 \<Rightarrow> u32 \<Rightarrow> u32 \<Rightarrow> u32 \<Rightarrow> (dp \<times> int) res" where
  "flast_flows_bump e s flow_id bump_sq rx_tail tx_hd ts =
    (let fs = flows s ! unat flow_id in
     if bump_stale bump_sq (bump_seq fs) then Inr (s, -1)
     else
       let fs = fs\<lparr>bump_seq := bump_sq\<rparr>;
           old_avail = tcp_txavail fs None; new_avail = tcp_txavail fs (Some tx_hd) in
       bind_res
         (if \<not> objconn fs then
            if old_avail < new_avail
            then qset s (qman_qid fs) (tx_rate fs) (new_avail - old_avail) (ucast TCP_MSS) APP_QMAN_FLOW QF_ADD
            else Inr s
          else if old_avail = 0 \<and> new_avail \<noteq> 0 then qset s (qman_qid fs) 0 1 1 APP_QMAN_FLOW QF_ADD
          else Inr s) (\<lambda>s.
       let fs' = fs\<lparr>tx_head := tx_hd, rx_avail := bump_rx_avail fs rx_tail\<rparr>; s = putfs s flow_id fs' in
       if new_avail = 0 \<and> rx_avail fs = 0 \<and> rx_avail fs' \<noteq> 0 then
         bind_res (flow_tx_segment e s fs' (tx_next_seq fs') (rx_next_seq fs') (rx_avail fs') 0 0 (tx_next_ts fs') ts)
           (\<lambda>s. Inr (s, 0))
       else Inr (s, -1)))"

definition fast_flows_retransmit :: "dp \<Rightarrow> u32 \<Rightarrow> dp res" where
  "fast_flows_retransmit s flow_id =
    (let fs = flows s ! unat flow_id; old_avail = tcp_txavail fs None in
     if tx_sent fs = 0 then Inr s
     else
       let fs = flow_reset_retransmit fs; new_avail = tcp_txavail fs None; s = putfs s flow_id fs in
       if new_avail > old_avail
       then qset s (qman_qid fs) (tx_rate fs) (new_avail - old_avail) (ucast TCP_MSS) APP_QMAN_FLOW QF_ADD
       else Inr s)"

section \<open>Application and kernel queues\<close>

text \<open>Polling one application context: process one entry, clear its type, advance the head.\<close>

definition fast_appctx_poll :: "env \<Rightarrow> dp \<Rightarrow> u32 \<Rightarrow> u32 \<Rightarrow> (dp \<times> int) res" where
  "fast_appctx_poll e s cid ts =
    (let core = unat (core_id s); actx = appctxs s ! core ! unat cid in
     if ax_tx_len actx = 0 then Inr (s, -1)
     else
       case dma_pointer (dmem s) (ax_tx_base actx + ucast (ax_tx_head actx)) (of_nat ATX_SZ) of None \<Rightarrow> Inl Abort
       | Some a \<Rightarrow>
           let atx = atx_of_bytes (slice (dmem s) (unat a) ATX_SZ) in
           if atx_type atx = 0 then Inr (s, -1)
           else if atx_type atx = ATX_CONNUPDATE then
             if unat (atx_flow_id atx) \<ge> length (flows s) then Inl Abort
             else
               bind_res (flast_flows_bump e s (atx_flow_id atx) (atx_bump_seq atx) (atx_rx_tail atx) (atx_tx_head atx) ts)
                 (\<lambda>(s, ret).
                   let actx = appctxs s ! core ! unat cid; head = ax_tx_head actx + of_nat ATX_SZ;
                       head = (if head \<ge> ax_tx_len actx then head - ax_tx_len actx else head) in
                   Inr (s\<lparr>dmem := put (dmem s) (unat a + 63) [0],
                          appctxs := (appctxs s)[core := (appctxs s ! core)[unat cid := actx\<lparr>ax_tx_head := head\<rparr>]]\<rparr>,
                        if ret \<noteq> 0 then 1 else ret))
           else Inl Abort)"

text \<open>Non-TCP frames and TCP frames without a timestamp option are left alone.\<close>

definition inject_tcp_ts :: "env \<Rightarrow> u8 list \<Rightarrow> u16 \<Rightarrow> u32 \<Rightarrow> u8 list res" where
  "inject_tcp_ts e buf len ts =
    (if unat len < PKT_TCP_SZ then Inr buf
     else
       let p = pkt_of_bytes buf in
       if eth_type p \<noteq> ETH_TYPE_IP \<or> ip_proto p \<noteq> IP_PROTO_TCP then Inr buf
       else
         case tcp_parse_options OPT_FUEL p len of None \<Rightarrow> Inl Diverge
         | Some None \<Rightarrow> Inr buf
         | Some (Some None) \<Rightarrow> Inr buf
         | Some (Some (Some off)) \<Rightarrow>
             if length (pbody p) < off + TS_OPT_SZ then Inl Oob
             else
               let p = p\<lparr>pbody := put (pbody p) (off + 2) (be32_bytes ts), ip_chksum := 0\<rparr> in
               Inr (pkt_bytes (p\<lparr>tcp_chksum := xsum e p\<rparr>)))"

definition ktx_done :: "dp \<Rightarrow> nat \<Rightarrow> dp" where
  "ktx_done s a =
    (let core = unat (core_id s); kctx = kctxs s ! core; head = ax_tx_head kctx + of_nat KTX_SZ;
         head = (if head \<ge> ax_tx_len kctx then head - ax_tx_len kctx else head) in
     s\<lparr>dmem := put (dmem s) (a + 63) [0], kctxs := (kctxs s)[core := kctx\<lparr>ax_tx_head := head\<rparr>]\<rparr>)"

definition fast_kernel_poll :: "env \<Rightarrow> dp \<Rightarrow> u32 \<Rightarrow> (dp \<times> int) res" where
  "fast_kernel_poll e s ts =
    (let kctx = kctxs s ! unat (core_id s) in
     if ax_tx_len kctx = 0 then Inr (s, -1)
     else
       case dma_pointer (dmem s) (ax_tx_base kctx + ucast (ax_tx_head kctx)) (of_nat KTX_SZ) of None \<Rightarrow> Inl Abort
       | Some a \<Rightarrow>
           let ktx = slice (dmem s) (unat a) KTX_SZ in
           if ktx ! 63 = 0 then Inr (s, -1)
           else if ktx ! 63 = KTX_PACKET then
             let addr = le64_of (slice ktx 0 8); len = le16_of (slice ktx 8 2) in
             (case dma_read (dmem s) addr (ucast len) of None \<Rightarrow> Inl Abort
              | Some buf \<Rightarrow>
                  bind_res (inject_tcp_ts e buf len ts) (\<lambda>buf.
                  bind_res (tx_send s (take (unat len) buf)) (\<lambda>s. Inr (ktx_done s (unat a), 0))))
           else if ktx ! 63 = KTX_CONNRETRAN then
             let flow_id = le32_of (slice ktx 0 4) in
             if unat flow_id \<ge> length (flows s) then Inl Abort
             else bind_res (fast_flows_retransmit s flow_id) (\<lambda>s. Inr (ktx_done s (unat a), 1))
           else Inl Abort)"

definition fast_kernel_kick :: "dp \<Rightarrow> dp" where
  "fast_kernel_kick s =
    s\<lparr>kicks := kicks s @ (if now_us s - klast_ts s > POLL_CYCLE then [KickKernel] else []), klast_ts := now_us s\<rparr>"

text \<open>\<open>fg\<close> is the flow group the network driver reports for the buffer (\<open>None\<close> when it fails).  A full or
  uninitialised kernel queue drops the packet.\<close>

definition fast_kernel_packet :: "dp \<Rightarrow> u8 list \<Rightarrow> u16 \<Rightarrow> u16 option \<Rightarrow> dp res" where
  "fast_kernel_packet s frame len fg =
    (let core = unat (core_id s); kctx = kctxs s ! core in
     if ax_rx_len kctx = 0 then Inr s
     else
       case dma_pointer (dmem s) (ax_rx_base kctx + ucast (ax_rx_head kctx)) (of_nat KRX_SZ) of None \<Rightarrow> Inl Abort
       | Some a \<Rightarrow>
           if dmem s ! (unat a + 71) \<noteq> 0 then Inr s
           else
             let head = ax_rx_head kctx + of_nat KRX_SZ;
                 head = (if head \<ge> ax_rx_len kctx then head - ax_rx_len kctx else head);
                 addr = le64_of (slice (dmem s) (unat a) 8) in
             (case dma_write (dmem s) addr (ucast len) frame of None \<Rightarrow> Inl Abort
              | Some mem \<Rightarrow>
                  (case fg of None \<Rightarrow> Inl Abort
                   | Some g \<Rightarrow>
                       Inr (fast_kernel_kick
                         (s\<lparr>dmem := put (put mem (unat a + 8) (le16_bytes len @ le16_bytes (core_id s) @ le16_bytes g))
                                      (unat a + 71) [KRX_PACKET],
                            kctxs := (kctxs s)[core := kctx\<lparr>ax_rx_head := head\<rparr>]\<rparr>)))))"

end
