(* ===== verification/FlowInv.thy ===== *)
theory FlowInv
  imports FastFlows QmanInv
begin

unbundle bit_operations_syntax

text \<open>
  Flow states the fast path can be in, and what each step of the flow code does to them.  \<open>tx_ok\<close> says that the
  send ring's positions are in range and that the bytes sent but not acknowledged and the bytes not yet sent
  fit the ring together; \<open>rx_ok\<close> that the receive position is in range and the free space fits the ring.
\<close>

definition ring_dist :: "nat \<Rightarrow> nat \<Rightarrow> nat \<Rightarrow> nat" where
  "ring_dist l p h = (if p \<le> h then h - p else h + l - p)"

definition ring_add :: "nat \<Rightarrow> nat \<Rightarrow> nat \<Rightarrow> nat" where
  "ring_add l p n = (if p + n \<ge> l then p + n - l else p + n)"

definition tx_view :: "flowst \<Rightarrow> nat \<Rightarrow> nat \<Rightarrow> nat \<Rightarrow> nat \<Rightarrow> bool" where
  "tx_view fs l p h n \<longleftrightarrow> unat (tx_len fs) = l \<and> unat (tx_next_pos fs) = p \<and> unat (tx_head fs) = h \<and>
     unat (tx_sent fs) = n \<and> l < 2147483648 \<and> p < l \<and> h < l \<and> n + ring_dist l p h < l"

definition tx_ok :: "flowst \<Rightarrow> bool" where
  "tx_ok fs \<longleftrightarrow> (\<exists>l p h n. tx_view fs l p h n)"

definition rx_ok :: "flowst \<Rightarrow> bool" where
  "rx_ok fs \<longleftrightarrow> unat (rx_len fs) < 2147483648 \<and> rx_next_pos fs < rx_len fs \<and> rx_avail fs \<le> rx_len fs"

lemma tx_view_unsent: "tx_view fs l p h n \<Longrightarrow> unat (tx_unsent fs) = ring_dist l p h"
  by (auto simp: tx_view_def tx_unsent_def u32_nat ring_dist_def)

text \<open>Moving a ring position by at most the ring's length.\<close>

lemma ring_step:
  fixes l p n :: u32
  assumes "unat l = l'" "unat p = p'" "unat n = n'" "l' < 2147483648" "p' < l'" "n' \<le> l'"
  shows "unat (if p + n \<ge> l then p + n - l else p + n) = ring_add l' p' n'"
  using assms by (auto simp: u32_nat ring_add_def)

lemma tx_advance_view:
  assumes "tx_view fs l p h s" "unat n \<le> ring_dist l p h"
  shows "tx_view (tx_advance fs n) l (ring_add l p (unat n)) h (s + unat n)"
    "ring_dist l (ring_add l p (unat n)) h = ring_dist l p h - unat n"
proof -
  have fs: "unat (tx_len fs) = l" "unat (tx_next_pos fs) = p" "unat (tx_head fs) = h" "unat (tx_sent fs) = s"
    "l < 2147483648" "p < l" "h < l" "s + ring_dist l p h < l"
    using assms(1) by (simp_all add: tx_view_def)
  have pos: "unat (tx_next_pos (tx_advance fs n)) = ring_add l p (unat n)"
    using ring_step [OF fs(1,2) refl fs(5,6)] assms(2) fs(8) by (simp add: tx_advance_def Let_def)
  have snt: "unat (tx_sent (tx_advance fs n)) = s + unat n"
    using fs assms(2) by (simp add: tx_advance_def Let_def unat_u32_add)
  have same: "tx_len (tx_advance fs n) = tx_len fs" "tx_head (tx_advance fs n) = tx_head fs"
    by (simp_all add: tx_advance_def Let_def)
  show d: "ring_dist l (ring_add l p (unat n)) h = ring_dist l p h - unat n"
    using fs assms(2) by (auto simp: ring_dist_def ring_add_def split: if_splits)
  have "ring_add l p (unat n) < l"
    using fs assms(2) by (auto simp: ring_add_def ring_dist_def split: if_splits)
  then show "tx_view (tx_advance fs n) l (ring_add l p (unat n)) h (s + unat n)"
    unfolding tx_view_def d pos snt same using fs assms(2) by simp
qed

lemma ack_advance_view:
  assumes "tx_view fs l p h s" "unat b \<le> s + ring_dist l p h"
  shows "\<exists>p' s'. tx_view (ack_advance fs b) l p' h s' \<and> s' + ring_dist l p' h = s + ring_dist l p h - unat b"
proof (cases "b \<le> tx_sent fs")
  case True
  then have "tx_view (ack_advance fs b) l p h (s - unat b)"
    using assms by (auto simp: tx_view_def ack_advance_def u32_nat)
  then show ?thesis
    using assms True by (intro exI [of _ p] exI [of _ "s - unat b"]) (simp add: tx_view_def word_le_nat_alt)
next
  case False
  have fs: "unat (tx_len fs) = l" "unat (tx_next_pos fs) = p" "unat (tx_head fs) = h" "unat (tx_sent fs) = s"
    "l < 2147483648" "p < l" "h < l" "s + ring_dist l p h < l"
    using assms(1) by (simp_all add: tx_view_def)
  let ?d = "b - tx_sent fs"
  have d: "unat ?d = unat b - s" using False fs by (simp add: u32_nat)
  have dl: "unat ?d \<le> ring_dist l p h" using d assms(2) by linarith
  note a = tx_advance_view [OF assms(1) dl]
  have "tx_view (ack_advance fs b) l (ring_add l p (unat ?d)) h 0"
    using a(1) False unfolding tx_view_def by (simp add: ack_advance_def tx_advance_def Let_def)
  then show ?thesis
    using a(2) d False fs by (intro exI conjI) (assumption, simp add: word_le_nat_alt)
qed

lemma flow_reset_view:
  assumes "tx_view fs l p h s"
  shows "tx_view (flow_reset_retransmit fs) l (if s \<le> p then p - s else p + l - s) h 0"
    "ring_dist l (if s \<le> p then p - s else p + l - s) h = s + ring_dist l p h"
proof -
  have fs: "unat (tx_len fs) = l" "unat (tx_next_pos fs) = p" "unat (tx_head fs) = h" "unat (tx_sent fs) = s"
    "l < 2147483648" "p < l" "h < l" "s + ring_dist l p h < l"
    using assms(1) by (simp_all add: tx_view_def)
  show d: "ring_dist l (if s \<le> p then p - s else p + l - s) h = s + ring_dist l p h"
    using fs by (auto simp: ring_dist_def split: if_splits)
  have pos: "unat (tx_next_pos (flow_reset_retransmit fs)) = (if s \<le> p then p - s else p + l - s)"
    using fs by (auto simp: flow_reset_retransmit_def Let_def u32_nat)
  have same: "tx_len (flow_reset_retransmit fs) = tx_len fs" "tx_head (flow_reset_retransmit fs) = tx_head fs"
    "tx_sent (flow_reset_retransmit fs) = 0"
    by (simp_all add: flow_reset_retransmit_def Let_def)
  show "tx_view (flow_reset_retransmit fs) l (if s \<le> p then p - s else p + l - s) h 0"
    unfolding tx_view_def pos same d using fs by auto
qed


section \<open>Receive side\<close>

lemma trim_in_window:
  assumes "rx_avail fs \<le> 0xFFFF0000" "\<not> trim_rxbuf_defect fs seq n" "tcp_trim_rxbuf fs seq n = Some (ts, te)"
    and i: "unat ts \<le> i" "i < unat n - unat te"
  shows "in_rx_window fs (seq + of_nat i)"
proof -
  have b: "unat n < 65536" "unat (rx_avail fs) \<le> 4294901760" "unat seq < 4294967296" "unat (rx_next_seq fs) < 4294967296"
    using assms(1) by (simp_all add: word_le_nat_alt unat_u16_bound unat_u32_bound)
  have "i < unat n" using i by simp
  from trim_rxbuf_byte [OF b(1) this b(2-4) refl refl refl refl _ assms(2)] this b(1) show ?thesis
    using assms(3) i by (simp add: unat_of_nat)
qed

lemma trim_sum:
  assumes "rx_avail fs \<le> 0xFFFF0000" "tcp_trim_rxbuf fs seq n = Some (ts, te)"
  shows "unat ts + unat te \<le> unat n"
proof -
  have b: "unat n < 65536" "unat (rx_avail fs) \<le> 4294901760" "unat seq < 4294967296" "unat (rx_next_seq fs) < 4294967296"
    using assms(1) by (simp_all add: word_le_nat_alt unat_u16_bound unat_u32_bound)
  from trim_rxbuf_sum [OF b refl refl refl refl assms(2)] show ?thesis .
qed

text \<open>What is left of a trimmed segment fits the window.\<close>

lemma trim_fits:
  assumes a: "rx_avail fs \<le> 0xFFFF0000" "\<not> trim_rxbuf_defect fs seq n" "tcp_trim_rxbuf fs seq n = Some (ts, te)"
    and pos: "unat n - unat te - unat ts > 0"
  shows "unat (seq + ucast ts - rx_next_seq fs) + (unat n - unat te - unat ts) \<le> unat (rx_avail fs)"
proof (rule ccontr)
  let ?d = "unat (seq + ucast ts - rx_next_seq fs)" and ?v = "unat (rx_avail fs)"
  assume big: "\<not> ?thesis"
  have off: "seq + of_nat (unat ts + k) - rx_next_seq fs = of_nat (?d + k)" for k
    by (simp add: algebra_simps)
  have "in_rx_window fs (seq + of_nat (unat ts + 0))"
    using trim_in_window [OF a, of "unat ts"] pos by simp
  then have "?d < ?v" by (simp add: in_rx_window_def word_less_nat_alt)
  then obtain k where k: "?v = ?d + k" "0 < k" by (metis less_imp_add_positive)
  then have "in_rx_window fs (seq + of_nat (unat ts + k))"
    using trim_in_window [OF a, of "unat ts + k"] big by linarith
  then have "of_nat ?v < rx_avail fs"
    unfolding in_rx_window_def off k(1) .
  then show False by simp
qed

lemma rx_advance_ok:
  assumes "rx_ok fs" "unat n \<le> unat (rx_avail fs)"
  shows "\<exists>pos. rx_advance fs n = Inr (fs\<lparr>rx_avail := rx_avail fs - n, rx_next_pos := pos, rx_next_seq := rx_next_seq fs + n\<rparr>) \<and>
    unat pos = ring_add (unat (rx_len fs)) (unat (rx_next_pos fs)) (unat n) \<and> pos < rx_len fs"
proof -
  let ?pos = "if rx_next_pos fs + n \<ge> rx_len fs then rx_next_pos fs + n - rx_len fs else rx_next_pos fs + n"
  have p: "unat ?pos = ring_add (unat (rx_len fs)) (unat (rx_next_pos fs)) (unat n)"
    using assms by (intro ring_step) (auto simp: rx_ok_def word_less_nat_alt word_le_nat_alt)
  then have "?pos < rx_len fs"
    using assms by (auto simp: word_less_nat_alt ring_add_def rx_ok_def word_le_nat_alt)
  then show ?thesis using p by (intro exI [of _ ?pos]) (simp add: rx_advance_def Let_def)
qed

lemma rx_ok_advanced:
  assumes "rx_ok fs" "unat n \<le> unat (rx_avail fs)" "pos < rx_len fs"
  shows "rx_ok (fs\<lparr>rx_avail := rx_avail fs - n, rx_next_pos := pos, rx_next_seq := q\<rparr>)"
  using assms by (auto simp: rx_ok_def u32_nat)

end
