(* ===== verification/FlowSafe.thy ===== *)
theory FlowSafe
  imports FlowInv
begin

unbundle bit_operations_syntax

text \<open>
  The receive path of a flow is memory safe.  Lemmas about the writes into the receive ring, the delivery of
  in-order bytes and of the out-of-order interval, the notification of the application and the critical section
  of \<open>fast_flows_packet\<close>; then the segments that the transmit path builds, and what the queue manager's slot
  sends.  Object connections (\<open>FLOWST_OBJCONN\<close>) are outside \<open>flow_ok\<close>: their headers come from the peer and
  from the application, and several branches assert on them.
\<close>

section \<open>Buffers of a flow\<close>

lemma dma_write_take: "dma_write mem a n src = dma_write mem a n (take (unat n) src)"
  by (simp add: dma_write_def)

definition rx_buf :: "flowst \<Rightarrow> nat" where
  "rx_buf fs = unat (rx_base_sp fs AND FLOWST_RX_MASK)"

definition rx_mem_ok :: "u8 list \<Rightarrow> flowst \<Rightarrow> bool" where
  "rx_mem_ok mem fs \<longleftrightarrow> rx_buf fs + unat (rx_len fs) \<le> length mem \<and> length mem < 2 ^ 64"

definition ring_written :: "nat \<Rightarrow> nat \<Rightarrow> nat \<Rightarrow> u8 list \<Rightarrow> u8 list \<Rightarrow> u8 list \<Rightarrow> bool" where
  "ring_written base blen pos xs mem mem' \<longleftrightarrow> length mem' = length mem \<and>
     (\<forall>j < length mem. mem' ! j = (if ring_hit base blen pos (length xs) j then xs ! ring_idx base blen pos j else mem ! j))"

text \<open>Only the bytes at the addresses \<open>R\<close> may differ; \<open>rx_region\<close> is the receive ring of a flow.\<close>

definition mem_frame :: "nat set \<Rightarrow> u8 list \<Rightarrow> u8 list \<Rightarrow> bool" where
  "mem_frame R mem mem' \<longleftrightarrow> length mem' = length mem \<and> (\<forall>j < length mem. j \<notin> R \<longrightarrow> mem' ! j = mem ! j)"

definition rx_region :: "flowst \<Rightarrow> nat set" where
  "rx_region fs = {rx_buf fs ..< rx_buf fs + unat (rx_len fs)}"

lemma mem_frame_length: "mem_frame R mem mem' \<Longrightarrow> length mem' = length mem"
  by (simp add: mem_frame_def)

lemma mem_frame_refl [simp]: "mem_frame R mem mem"
  by (simp add: mem_frame_def)

lemma mem_frame_trans: "mem_frame R m m1 \<Longrightarrow> mem_frame R' m1 m2 \<Longrightarrow> mem_frame (R \<union> R') m m2"
  by (auto simp: mem_frame_def)

lemma mem_frame_mono: "mem_frame R m m' \<Longrightarrow> R \<subseteq> R' \<Longrightarrow> mem_frame R' m m'"
  by (auto simp: mem_frame_def)

lemma ring_written_frame: "ring_written base blen pos xs mem mem' \<Longrightarrow> mem_frame {base ..< base + blen} mem mem'"
  by (auto simp: ring_written_def mem_frame_def ring_hit_def)

lemma flow_rx_write_ok:
  assumes mem: "rx_mem_ok mem fs" and rx: "unat (rx_len fs) < 2147483648" "pos < rx_len fs" "unat len \<le> unat (rx_len fs)"
    "unat len \<le> length src"
  shows "\<exists>mem'. flow_rx_write mem fs pos len src = Inr mem' \<and>
    ring_written (rx_buf fs) (unat (rx_len fs)) (unat pos) (take (unat len) src) mem mem'"
proof -
  define base where "base = rx_base_sp fs AND FLOWST_RX_MASK"
  define l p n where "l = unat (rx_len fs)" and "p = unat pos" and "n = unat len"
  have B: "rx_buf fs = unat base" by (simp add: rx_buf_def base_def)
  have m: "unat base + l \<le> length mem" "length mem < 2 ^ 64" "p < l" "n \<le> l" "l < 2147483648" "n < 65536" "n \<le> length src"
    using assms unat_u16_bound [of len] by (simp_all add: rx_mem_ok_def B l_def p_def n_def word_less_nat_alt)
  have xs: "length (take n src) = n" using m by simp
  have test: "pos + ucast len \<le> rx_len fs \<longleftrightarrow> p + n \<le> l"
    using m by (simp add: u32_nat p_def n_def l_def)
  have a: "(of_nat (unat base + p) :: u64) = base + ucast pos" "(of_nat n :: u64) = ucast len" "(of_nat (unat base) :: u64) = base"
    by (simp_all add: p_def n_def)
  have "\<exists>mem'. flow_rx_write mem fs pos len src = Inr mem' \<and> ring_written (unat base) l p (take n src) mem mem'"
  proof (cases "p + n \<le> l")
    case True
    obtain m' where w: "dma_write mem (base + ucast pos) (ucast len) (take n src) = Some m'"
      "ring_written (unat base) l p (take n src) mem m'"
      using dma.wr_flat [of "unat base" l mem p "take n src"] m True unfolding ring_written_def xs a by auto
    have "flow_rx_write mem fs pos len src = Inr m'"
      unfolding flow_rx_write_def Let_def base_def [symmetric] test dma_write_take [of _ _ _ src]
      using True m w(1) by (simp add: n_def)
    then show ?thesis using w(2) by blast
  next
    case False
    let ?part = "rx_len fs - pos"
    have part: "unat ?part = l - p" "unat (ucast len - ?part) = n - (l - p)"
      using m False by (simp_all add: u32_nat p_def n_def l_def)
    have pu: "(of_nat (l - p) :: u64) = ucast ?part" "(of_nat (n - (l - p)) :: u64) = ucast (ucast len - ?part)"
      unfolding part(2) [symmetric] by (simp_all add: part(1) [symmetric])
    have n1: "take (l - p) (take n src) = take (l - p) src" "drop (l - p) (take n src) = take (n - (l - p)) (drop (l - p) src)"
      using False by (simp_all add: drop_take min_absorb1)
    have n2: "length (take (n - (l - p)) (drop (l - p) src)) = n - (l - p)" "length (take (l - p) src) = l - p"
      using False m by simp_all
    obtain m1 m' where w: "dma_write mem (base + ucast pos) (ucast ?part) (take (l - p) src) = Some m1"
      "dma_write m1 base (ucast (ucast len - ?part)) (take (n - (l - p)) (drop (l - p) src)) = Some m'"
      "ring_written (unat base) l p (take n src) mem m'"
      using dma.wr_wrapped [OF m(1-3), of "take n src", unfolded xs, OF _ m(4), unfolded n1, unfolded n2, unfolded pu a] False
      unfolding ring_written_def xs by auto
    have "flow_rx_write mem fs pos len src = Inr m'"
      unfolding flow_rx_write_def Let_def base_def [symmetric] test dma_write_take [of _ _ _ src] dma_write_take [of _ _ _ "drop _ src"]
      using False m w(1,2) by (simp add: n_def part)
    then show ?thesis using w(3) by blast
  qed
  then show ?thesis by (simp add: B l_def p_def n_def)
qed


definition tx_mem_ok :: "u8 list \<Rightarrow> flowst \<Rightarrow> bool" where
  "tx_mem_ok mem fs \<longleftrightarrow> unat (tx_base fs) + unat (tx_len fs) \<le> length mem \<and> length mem < 2 ^ 64"

lemma flow_tx_read_ok:
  assumes mem: "tx_mem_ok mem fs" and tx: "unat (tx_len fs) < 2147483648" "pos < tx_len fs" "unat len \<le> unat (tx_len fs)"
  shows "flow_tx_read mem fs pos len =
    Inr (dma.ring_bytes mem (unat (tx_base fs)) (unat (tx_len fs)) (unat pos) (unat len))"
proof -
  define base where "base = tx_base fs"
  define l p n where "l = unat (tx_len fs)" and "p = unat pos" and "n = unat len"
  have m: "unat base + l \<le> length mem" "length mem < 2 ^ 64" "p < l" "n \<le> l" "l < 2147483648" "n < 65536"
    using assms unat_u16_bound [of len] by (simp_all add: tx_mem_ok_def base_def l_def p_def n_def word_less_nat_alt)
  have test: "pos + ucast len \<le> tx_len fs \<longleftrightarrow> p + n \<le> l"
    using m by (simp add: u32_nat p_def n_def l_def)
  have a: "(of_nat (unat base + p) :: u64) = base + ucast pos" "(of_nat n :: u64) = ucast len" "(of_nat (unat base) :: u64) = base"
    by (simp_all add: p_def n_def)
  have "flow_tx_read mem fs pos len = Inr (dma.ring_bytes mem (unat base) l p n)"
  proof (cases "p + n \<le> l")
    case True
    then show ?thesis
      using dma.rd_flat [OF m(1,2) True m(3), unfolded a] test
      by (simp add: flow_tx_read_def base_def [symmetric])
  next
    case False
    let ?part = "tx_len fs - pos"
    have part: "unat ?part = l - p" "unat (ucast len - ?part) = n - (l - p)"
      using m False by (simp_all add: u32_nat p_def n_def l_def)
    have pu: "(of_nat (l - p) :: u64) = ucast ?part" "(of_nat (n - (l - p)) :: u64) = ucast (ucast len - ?part)"
      unfolding part(2) [symmetric] by (simp_all add: part(1) [symmetric])
    obtain x y where "dma_read mem (base + ucast pos) (ucast ?part) = Some x"
      "dma_read mem base (ucast (ucast len - ?part)) = Some y" "x @ y = dma.ring_bytes mem (unat base) l p n"
      using dma.rd_wrapped [OF m(1-3) _ m(4), unfolded pu a] False by auto
    then show ?thesis
      using False test by (simp add: flow_tx_read_def base_def [symmetric] Let_def)
  qed
  then show ?thesis by (simp add: base_def l_def p_def n_def)
qed

lemma rx_ok_len: "rx_ok fs \<Longrightarrow> rx_avail fs \<le> 0xFFFF0000"
  by (simp add: rx_ok_def word_le_nat_alt)

text \<open>A flow's buffers and send ring, which the receive side leaves alone.\<close>

definition kept :: "flowst \<Rightarrow> u64 \<times> u64 \<times> u32 \<times> u32 \<times> u32 \<times> u32 \<times> u32 \<times> u32 \<times> u32" where
  "kept fs = (rx_base_sp fs, tx_base fs, rx_len fs, tx_len fs, qman_qid fs, tx_sent fs, tx_next_pos fs, tx_head fs, flow_group fs)"

lemma kept_cong:
  assumes "kept fs' = kept fs"
  shows "tx_ok fs' = tx_ok fs" "rx_mem_ok mem fs' = rx_mem_ok mem fs" "tx_mem_ok mem fs' = tx_mem_ok mem fs"
    "qman_qid fs' = qman_qid fs" "rx_len fs' = rx_len fs" "rx_base_sp fs' = rx_base_sp fs" "flow_group fs' = flow_group fs"
  using assms by (simp_all add: kept_def tx_ok_def tx_view_def rx_mem_ok_def rx_buf_def tx_mem_ok_def)

lemma no_defect: "unat seq + unat n < 4294967296 \<Longrightarrow> \<not> trim_rxbuf_defect fs seq n"
  by (simp add: trim_rxbuf_defect_def u32_nat)

lemma ooo_merge_ok:
  assumes rx: "rx_ok fs" and o: "unat (rx_ooo_len fs) < 65536" "unat (rx_ooo_start fs) + unat (rx_ooo_len fs) < 4294967296"
  shows "\<exists>fs' n. ooo_merge fs = Inr (fs', n) \<and> rx_ok fs' \<and> kept fs' = kept fs \<and> db_id fs' = db_id fs \<and>
    unat n \<le> unat (rx_avail fs) \<and> rx_next_seq fs' = rx_next_seq fs + n \<and> rx_avail fs' = rx_avail fs - n \<and>
    unat (rx_next_pos fs') = ring_add (unat (rx_len fs)) (unat (rx_next_pos fs)) (unat n)"
proof -
  have id: "unat (rx_next_pos fs) = ring_add (unat (rx_len fs)) (unat (rx_next_pos fs)) 0"
    using rx by (simp add: rx_ok_def ring_add_def word_less_nat_alt)
  have un: "unat (ucast (rx_ooo_len fs) :: u16) = unat (rx_ooo_len fs)"
    using o(1) by (simp add: unat_u32_u16)
  show ?thesis
  proof (cases "rx_ooo_len fs = 0 \<or> tcp_trim_rxbuf fs (rx_ooo_start fs) (ucast (rx_ooo_len fs)) = None")
    case True
    then show ?thesis
      using rx id by (auto simp: ooo_merge_def rx_ok_def kept_def)
  next
    case False
    then obtain ts te where tr: "tcp_trim_rxbuf fs (rx_ooo_start fs) (ucast (rx_ooo_len fs)) = Some (ts, te)"
      by (metis option.exhaust surj_pair)
    define g where "g = fs\<lparr>rx_ooo_start := rx_ooo_start fs + ucast ts, rx_ooo_len := rx_ooo_len fs - (ucast ts + ucast te)\<rparr>"
    have sum: "unat ts + unat te \<le> unat (rx_ooo_len fs)"
      using trim_sum [OF rx_ok_len [OF rx] tr] un by simp
    have gl: "unat (rx_ooo_len g) = unat (rx_ooo_len fs) - unat te - unat ts"
      using sum o(1) by (simp add: g_def u32_nat)
    have g: "rx_ok g" "kept g = kept fs" "rx_avail g = rx_avail fs" "rx_next_seq g = rx_next_seq fs" "rx_len g = rx_len fs"
      "rx_next_pos g = rx_next_pos fs" "db_id g = db_id fs"
      using rx by (simp_all add: g_def rx_ok_def kept_def)
    have eq: "ooo_merge fs = (if rx_ooo_len g > 0 \<and> rx_ooo_start g = rx_next_seq g
      then bind_res (rx_advance g (rx_ooo_len g)) (\<lambda>fs. Inr (fs\<lparr>rx_ooo_len := 0\<rparr>, rx_ooo_len g)) else Inr (g, 0))"
      unfolding ooo_merge_def tr option.case prod.case Let_def g_def [symmetric] using False by simp
    show ?thesis
    proof (cases "rx_ooo_len g > 0 \<and> rx_ooo_start g = rx_next_seq g")
      case True
      have "unat (ucast (rx_ooo_len fs) :: u16) - unat te - unat ts > 0"
        using True gl un by (simp add: word_less_nat_alt)
      from trim_fits [OF rx_ok_len [OF rx] no_defect tr this] have fit: "unat (rx_ooo_len g) \<le> unat (rx_avail g)"
        using o(2) un gl True by (simp add: g_def)
      then obtain pos where pos: "rx_advance g (rx_ooo_len g) = Inr (g\<lparr>rx_avail := rx_avail g - rx_ooo_len g, rx_next_pos := pos,
           rx_next_seq := rx_next_seq g + rx_ooo_len g\<rparr>)" "unat pos = ring_add (unat (rx_len g)) (unat (rx_next_pos g)) (unat (rx_ooo_len g))"
        "pos < rx_len g"
        using rx_advance_ok [OF g(1) fit] by blast
      let ?h = "g\<lparr>rx_avail := rx_avail g - rx_ooo_len g, rx_next_pos := pos, rx_next_seq := rx_next_seq g + rx_ooo_len g, rx_ooo_len := 0\<rparr>"
      have "ooo_merge fs = Inr (?h, rx_ooo_len g)"
        using True pos(1) eq by simp
      moreover have "rx_ok ?h" using rx_ok_advanced [OF g(1) fit pos(3)] by (simp add: rx_ok_def)
      ultimately show ?thesis
        using g fit pos(2) by (intro exI [of _ ?h] exI [of _ "rx_ooo_len g"]) (simp add: kept_def)
    next
      case nomerge: False
      then have "ooo_merge fs = Inr (g, 0)"
        using eq by auto
      then show ?thesis using g id by (intro exI [of _ g] exI [of _ 0]) simp
    qed
  qed
qed


text \<open>Delivering the in-order bytes of a segment that fits the window.\<close>

lemma rx_deliver_ok:
  assumes rx: "rx_ok fs" and mem: "rx_mem_ok mem fs" and n: "unat n < 65536" "unat n \<le> unat (rx_avail fs)" "unat n \<le> length src"
    and o: "unat (rx_ooo_len fs) < 65536" "unat (rx_ooo_start fs) + unat (rx_ooo_len fs) < 4294967296"
  shows "\<exists>mem' fs' k. rx_deliver mem fs n src = Inr (mem', fs', k) \<and> rx_ok fs' \<and> kept fs' = kept fs \<and> db_id fs' = db_id fs \<and>
    ring_written (rx_buf fs) (unat (rx_len fs)) (unat (rx_next_pos fs)) (take (unat n) src) mem mem' \<and>
    unat n \<le> unat k \<and> unat k \<le> unat (rx_avail fs) \<and> rx_next_seq fs' = rx_next_seq fs + k \<and> rx_avail fs' = rx_avail fs - k"
proof (cases "n = 0")
  case True
  then show ?thesis
    using rx by (intro exI [of _ mem] exI [of _ fs] exI [of _ 0]) (simp add: rx_deliver_def ring_written_def ring_hit_def)
next
  case False
  have nn: "n > 0" and u: "unat (ucast n :: u16) = unat n"
    using False n(1) by (simp_all add: word_gt_0 unat_u32_u16)
  have r: "unat (rx_len fs) < 2147483648" "rx_next_pos fs < rx_len fs" "unat n \<le> unat (rx_len fs)"
    using rx n(2) by (auto simp: rx_ok_def word_le_nat_alt)
  obtain mem' where w: "flow_rx_write mem fs (rx_next_pos fs) (ucast n) src = Inr mem'"
    "ring_written (rx_buf fs) (unat (rx_len fs)) (unat (rx_next_pos fs)) (take (unat n) src) mem mem'"
    using flow_rx_write_ok [OF mem r(1,2), of "ucast n" src] r(3) n(3) u by auto
  obtain pos where pos: "rx_advance fs n = Inr (fs\<lparr>rx_avail := rx_avail fs - n, rx_next_pos := pos, rx_next_seq := rx_next_seq fs + n\<rparr>)"
    "pos < rx_len fs"
    using rx_advance_ok [OF rx n(2)] by blast
  let ?g = "fs\<lparr>rx_avail := rx_avail fs - n, rx_next_pos := pos, rx_next_seq := rx_next_seq fs + n\<rparr>"
  have g: "rx_ok ?g" by (rule rx_ok_advanced [OF rx n(2) pos(2)])
  have og: "unat (rx_ooo_len ?g) < 65536" "unat (rx_ooo_start ?g) + unat (rx_ooo_len ?g) < 4294967296"
    using o by simp_all
  obtain fs' k where m: "ooo_merge ?g = Inr (fs', k)" "rx_ok fs'" "kept fs' = kept ?g" "db_id fs' = db_id ?g" "unat k \<le> unat (rx_avail ?g)"
    "rx_next_seq fs' = rx_next_seq ?g + k" "rx_avail fs' = rx_avail ?g - k"
    using ooo_merge_ok [OF g og] by blast
  have av: "unat (rx_avail ?g) = unat (rx_avail fs) - unat n"
    using n(2) by (simp add: u32_nat)
  have nk: "unat (n + k) = unat n + unat k"
    using av m(5) n(2) unat_u32_bound [of "rx_avail fs"] by (simp add: unat_u32_add)
  have "rx_deliver mem fs n src = Inr (mem', fs', n + k)"
    using nn w(1) pos(1) m(1) by (simp add: rx_deliver_def)
  then show ?thesis
    using m w(2) av nk n(2) by (intro exI [of _ mem'] exI [of _ fs'] exI [of _ "n + k"]) (simp add: kept_def)
qed

lemma flow_rx_seq_write_ok:
  assumes rx: "rx_ok fs" and mem: "rx_mem_ok mem fs"
    and d: "unat (seq - rx_next_seq fs) + unat n \<le> unat (rx_avail fs)" "unat n > 0" "unat n \<le> length src"
  shows "\<exists>mem'. flow_rx_seq_write mem fs seq n src = Inr mem' \<and> mem_frame (rx_region fs) mem mem'"
proof -
  let ?p = "rx_next_pos fs + (seq - rx_next_seq fs)"
  let ?pos = "if ?p \<ge> rx_len fs then ?p - rx_len fs else ?p"
  have r: "unat (rx_len fs) < 2147483648" "unat (rx_next_pos fs) < unat (rx_len fs)" "unat (rx_avail fs) \<le> unat (rx_len fs)"
    using rx by (auto simp: rx_ok_def u32_nat)
  have dl: "unat (seq - rx_next_seq fs) < unat (rx_len fs)" using d r by linarith
  have "unat ?pos = ring_add (unat (rx_len fs)) (unat (rx_next_pos fs)) (unat (seq - rx_next_seq fs))"
    using r dl by (intro ring_step) auto
  then have pos: "?pos < rx_len fs"
    using r dl by (auto simp: word_less_nat_alt ring_add_def)
  have "unat n \<le> unat (rx_len fs)" using d r by linarith
  from flow_rx_write_ok [OF mem r(1) pos this d(3)] show ?thesis
    using pos ring_written_frame by (auto simp: flow_rx_seq_write_def Let_def rx_region_def)
qed

lemma rx_ooo_cases:
  "rx_ooo mem fs seq n src = Inr (mem, fs) \<or>
   (n \<noteq> 0 \<and> (\<exists>a b. rx_ooo mem fs seq n src =
      bind_res (flow_rx_seq_write mem (fs\<lparr>rx_ooo_start := a, rx_ooo_len := b\<rparr>) seq (ucast n) src)
        (\<lambda>m. Inr (m, fs\<lparr>rx_ooo_start := a, rx_ooo_len := b\<rparr>))))"
proof (cases "n = 0 \<or> rx_ooo_len fs = 0 \<or> seq + n = rx_ooo_start fs")
  case True
  then show ?thesis by (auto simp: rx_ooo_def Let_def)
next
  case False
  have "rx_ooo mem fs seq n src = (if rx_ooo_start fs + rx_ooo_len fs = seq
     then bind_res (flow_rx_seq_write mem (fs\<lparr>rx_ooo_len := rx_ooo_len fs + n\<rparr>) seq (ucast n) src)
       (\<lambda>m. Inr (m, fs\<lparr>rx_ooo_len := rx_ooo_len fs + n\<rparr>)) else Inr (mem, fs))"
    using False by (simp add: rx_ooo_def Let_def)
  then show ?thesis
    using False by (cases "rx_ooo_start fs + rx_ooo_len fs = seq")
      (intro disjI2 conjI exI [of _ "rx_ooo_start fs"] exI [of _ "rx_ooo_len fs + n"], auto)
qed

lemma rx_ooo_ok:
  assumes rx: "rx_ok fs" and mem: "rx_mem_ok mem fs"
    and d: "n \<noteq> 0 \<longrightarrow> unat (seq - rx_next_seq fs) + unat n \<le> unat (rx_avail fs)" "unat n < 65536" "unat n \<le> length src"
  shows "\<exists>mem' fs'. rx_ooo mem fs seq n src = Inr (mem', fs') \<and> rx_ok fs' \<and> kept fs' = kept fs \<and> db_id fs' = db_id fs \<and>
     mem_frame (rx_region fs) mem mem' \<and> rx_avail fs' = rx_avail fs \<and> rx_next_seq fs' = rx_next_seq fs \<and> rx_next_pos fs' = rx_next_pos fs"
proof -
  have u: "unat (ucast n :: u16) = unat n" using d(2) by (simp add: unat_u32_u16)
  have w: "\<exists>mem'. flow_rx_seq_write mem (fs\<lparr>rx_ooo_start := a, rx_ooo_len := b\<rparr>) seq (ucast n) src = Inr mem' \<and> mem_frame (rx_region fs) mem mem'"
    if "n \<noteq> 0" for a b
    using that rx mem d u flow_rx_seq_write_ok [of "fs\<lparr>rx_ooo_start := a, rx_ooo_len := b\<rparr>" mem seq "ucast n" src]
    by (auto simp: rx_ok_def rx_mem_ok_def rx_region_def rx_buf_def unat_gt_0)
  have k: "kept (fs\<lparr>rx_ooo_start := a, rx_ooo_len := b\<rparr>) = kept fs" "rx_ok (fs\<lparr>rx_ooo_start := a, rx_ooo_len := b\<rparr>)" for a b
    using rx by (simp_all add: kept_def rx_ok_def)
  consider "rx_ooo mem fs seq n src = Inr (mem, fs)"
    | a b where "n \<noteq> 0" "rx_ooo mem fs seq n src = bind_res (flow_rx_seq_write mem (fs\<lparr>rx_ooo_start := a, rx_ooo_len := b\<rparr>) seq (ucast n) src)
        (\<lambda>m. Inr (m, fs\<lparr>rx_ooo_start := a, rx_ooo_len := b\<rparr>))"
    using rx_ooo_cases by blast
  then show ?thesis
  proof cases
    case 1
    then show ?thesis using rx by simp
  next
    case 2
    then obtain mem' where "flow_rx_seq_write mem (fs\<lparr>rx_ooo_start := a, rx_ooo_len := b\<rparr>) seq (ucast n) src = Inr mem'"
      "mem_frame (rx_region fs) mem mem'" using w by blast
    then show ?thesis using 2 k by simp
  qed
qed

section \<open>A core and its queues\<close>

definition actx_ok :: "nat \<Rightarrow> appctx \<Rightarrow> bool" where
  "actx_ok n a \<longleftrightarrow> unat (ax_rx_base a) + unat (ax_rx_len a) \<le> n \<and> unat (ax_rx_len a) < 2147483648 \<and>
     64 dvd unat (ax_rx_len a) \<and> 64 dvd unat (ax_rx_head a) \<and> ax_rx_head a < ax_rx_len a"

definition dp_ok :: "dp \<Rightarrow> bool" where
  "dp_ok s \<longleftrightarrow> length (dmem s) < 2 ^ 64 \<and> qman_inv (qm s) \<and> unat (core_id s) < length (appctxs s) \<and>
     length (appctxs s ! unat (core_id s)) = APPCTX_NUM \<and> (\<forall>a \<in> set (appctxs s ! unat (core_id s)). actx_ok (length (dmem s)) a) \<and>
     (\<forall>c \<in> set (steering s). unat c < length (kctxs s))"

definition flow_ok :: "dp \<Rightarrow> flowst \<Rightarrow> bool" where
  "flow_ok s fs \<longleftrightarrow> tx_ok fs \<and> rx_ok fs \<and> rx_mem_ok (dmem s) fs \<and> tx_mem_ok (dmem s) fs \<and>
     unat (qman_qid fs) < length (queues (qm s)) \<and> unat (db_id fs) < APPCTX_NUM \<and>
     unat (flow_group fs) < length (steering s) \<and> \<not> objconn fs"

lemma length_put: "a + length xs \<le> length bs \<Longrightarrow> length (put bs a xs) = length bs"
  by (simp add: put_def)

lemma flow_ok_sizes:
  assumes "flow_ok s fs" "length (dmem s') = length (dmem s)" "length (queues (qm s')) = length (queues (qm s))"
    "steering s' = steering s"
  shows "flow_ok s' fs"
  using assms by (simp add: flow_ok_def rx_mem_ok_def tx_mem_ok_def)

lemma actx_ok_step:
  assumes "actx_ok n a"
  shows "actx_ok n (a\<lparr>ax_rx_head := (if ax_rx_head a + 64 \<ge> ax_rx_len a then ax_rx_head a + 64 - ax_rx_len a else ax_rx_head a + 64),
     ax_last_ts := x\<rparr>)" (is "actx_ok n ?b")
proof -
  define l h where "l = unat (ax_rx_len a)" and "h = unat (ax_rx_head a)"
  have a: "64 dvd l" "64 dvd h" "h < l" "l < 2147483648"
    using assms by (simp_all add: actx_ok_def l_def h_def word_less_nat_alt)
  have hl: "h + 64 \<le> l" using a(1-3) by (auto elim!: dvdE)
  have "unat (ax_rx_head ?b) = (if h + 64 \<ge> l then h + 64 - l else h + 64)"
    using a hl by (simp add: u32_nat l_def h_def)
  then have "unat (ax_rx_head ?b) = (if h + 64 = l then 0 else h + 64)"
    using hl by auto
  then show ?thesis
    using assms a hl by (auto simp: actx_ok_def l_def [symmetric] word_less_nat_alt)
qed

lemma rxq_entry:
  assumes "actx_ok (length mem) a" "length mem < 2 ^ 64"
  shows "dma_pointer mem (ax_rx_base a + ucast (ax_rx_head a)) 64 = Some (ax_rx_base a + ucast (ax_rx_head a))"
    "unat (ax_rx_base a + ucast (ax_rx_head a)) = unat (ax_rx_base a) + unat (ax_rx_head a)"
    "unat (ax_rx_base a) + unat (ax_rx_head a) + 64 \<le> length mem"
proof -
  define l h where "l = unat (ax_rx_len a)" and "h = unat (ax_rx_head a)"
  have "64 dvd l" "64 dvd h" "h < l" "unat (ax_rx_base a) + l \<le> length mem"
    using assms(1) by (simp_all add: actx_ok_def l_def h_def word_less_nat_alt)
  then have b: "unat (ax_rx_base a) + h + 64 \<le> length mem" by (auto elim!: dvdE)
  have e: "ax_rx_base a + ucast (ax_rx_head a) = of_nat (unat (ax_rx_base a) + h)"
    by (simp add: h_def)
  note v = dma_valid_nat [OF b assms(2)]
  show "dma_pointer mem (ax_rx_base a + ucast (ax_rx_head a)) 64 = Some (ax_rx_base a + ucast (ax_rx_head a))"
    using v(1) unfolding dma_pointer_def e by simp
  show "unat (ax_rx_base a + ucast (ax_rx_head a)) = unat (ax_rx_base a) + unat (ax_rx_head a)"
    unfolding e using v(2) by (simp only: h_def)
  show "unat (ax_rx_base a) + unat (ax_rx_head a) + 64 \<le> length mem" using b by (simp add: h_def)
qed

text \<open>The notification queue of an application context on this core, and what a notification may change.\<close>

definition arx_region :: "dp \<Rightarrow> u16 \<Rightarrow> nat set" where
  "arx_region s c = (let a = appctxs s ! unat (core_id s) ! unat c in {unat (ax_rx_base a) ..< unat (ax_rx_base a) + unat (ax_rx_len a)})"

definition notified :: "nat set \<Rightarrow> dp \<Rightarrow> dp \<Rightarrow> bool" where
  "notified R s s' \<longleftrightarrow> dp_ok s' \<and> flows s' = flows s \<and> qm s' = qm s \<and> txq s' = txq s \<and> core_id s' = core_id s \<and>
     steering s' = steering s \<and> kctxs s' = kctxs s \<and> mem_frame R (dmem s) (dmem s')"

lemma put_frame: "a + length xs \<le> length bs \<Longrightarrow> mem_frame {a ..< a + length xs} bs (put bs a xs)"
  by (auto simp: mem_frame_def put_def nth_append not_less)

lemma fast_actx_rxq_add_ok:
  assumes ok: "dp_ok s" and c: "unat c < APPCTX_NUM"
  shows "fast_actx_rxq_add s (core_id s) c a = Inr None \<or>
    (\<exists>s'. fast_actx_rxq_add s (core_id s) c a = Inr (Some s') \<and> notified (arx_region s c) s s')"
proof -
  let ?row = "appctxs s ! unat (core_id s)" let ?a = "?row ! unat c"
  have row: "length ?row = 16" "unat (core_id s) < length (appctxs s)" and len: "length (dmem s) < 2 ^ 64"
    using ok by (simp_all add: dp_ok_def)
  have a: "actx_ok (length (dmem s)) ?a"
    using ok c row by (auto simp: dp_ok_def)
  note e = rxq_entry [OF a len]
  let ?h = "if ax_rx_head ?a + 64 \<ge> ax_rx_len ?a then ax_rx_head ?a + 64 - ax_rx_len ?a else ax_rx_head ?a + 64"
  let ?b = "?a\<lparr>ax_rx_head := ?h, ax_last_ts := now_us s\<rparr>"
  let ?addr = "unat (ax_rx_base ?a) + unat (ax_rx_head ?a)"
  let ?mem = "put (dmem s) ?addr (arx_bytes (a\<lparr>arx_tx_head := ax_tx_head ?a\<rparr>))"
  let ?k = "now_us s - ax_last_ts ?a > POLL_CYCLE"
  let ?s = "s\<lparr>appctxs := (appctxs s)[unat (core_id s) := ?row[unat c := ?b]], dmem := ?mem,
     kicks := kicks s @ (if ?k then [KickApp (core_id s) c] else [])\<rparr>"
  have lb: "length (arx_bytes (a\<lparr>arx_tx_head := ax_tx_head ?a\<rparr>)) = 64" by (simp add: arx_bytes_def)
  have lm: "length ?mem = length (dmem s)"
    using e(3) by (intro length_put) (simp add: lb)
  have h: "unat (ax_rx_head ?a) + 64 \<le> unat (ax_rx_len ?a)"
    using a by (auto simp: actx_ok_def word_less_nat_alt elim!: dvdE)
  have fr: "mem_frame (arx_region s c) (dmem s) ?mem"
    using put_frame [of ?addr "arx_bytes (a\<lparr>arx_tx_head := ax_tx_head ?a\<rparr>)" "dmem s"] e(3) h
    unfolding lb by (rule_tac mem_frame_mono) (auto simp: arx_region_def Let_def)
  have r: "fast_actx_rxq_add s (core_id s) c a = (if dmem s ! (?addr + 63) \<noteq> 0 then Inr None else Inr (Some ?s))"
    unfolding fast_actx_rxq_add_def Let_def using e by (simp add: util_flexnic_kick_def)
  have "actx_ok (length (dmem s)) x" if "x \<in> set (?row[unat c := ?b])" for x
    using set_update_subset_insert [of ?row "unat c" ?b] that actx_ok_step [OF a] ok by (auto simp: dp_ok_def)
  then have "notified (arx_region s c) s ?s"
    using ok row lm fr by (auto simp: notified_def dp_ok_def)
  then show ?thesis using r by auto
qed

lemma qset_ok:
  assumes "dp_ok s" "unat qid < length (queues (qm s))"
  shows "\<exists>t. qset s qid rate avail mc opq flags = Inr (s\<lparr>qm := t\<rparr>) \<and> dp_ok (s\<lparr>qm := t\<rparr>) \<and> length (queues t) = length (queues (qm s))"
proof -
  obtain t where t: "set_impl (qm s) qid rate avail mc opq flags = Inr t" "qman_inv t"
    "map qcore (queues t) = (map qcore (queues (qm s)))[unat qid := qcore (set_queue rate avail mc opq flags (getq (qm s) qid))]"
    using qman_set_inv [of "qm s" qid rate avail mc opq flags] assms by (auto simp: dp_ok_def)
  have "length (queues t) = length (queues (qm s))"
    using arg_cong [OF t(3), of length] by simp
  then show ?thesis
    using t assms by (intro exI [of _ t]) (simp add: qset_def qman_set_def dp_ok_def)
qed


lemma putfs_ok: "dp_ok s \<Longrightarrow> dp_ok (putfs s fid fs)"
  by (simp add: dp_ok_def)

text \<open>The result of the critical section: only the flow and the bytes at \<open>R\<close> change, sizes are kept, at most one frame is added.\<close>

definition rx_result :: "nat set \<Rightarrow> dp \<Rightarrow> dp \<Rightarrow> u32 \<Rightarrow> flowst \<Rightarrow> bool" where
  "rx_result R s s' fid fs \<longleftrightarrow> dp_ok s' \<and> flows s' = (flows s)[unat fid := fs] \<and> mem_frame R (dmem s) (dmem s') \<and>
     length (queues (qm s')) = length (queues (qm s)) \<and> length (txq s') \<le> Suc (length (txq s)) \<and> steering s' = steering s"

lemma rx_result_length: "rx_result R s s' fid fs \<Longrightarrow> length (dmem s') = length (dmem s)"
  by (auto simp: rx_result_def dest: mem_frame_length)

lemma rx_finish_ok:
  assumes ok: "dp_ok s" and q: "unat (qman_qid fs) < length (queues (qm s))" and db: "unat db < APPCTX_NUM"
    and tx: "length (txq s) < TXBUF_SIZE"
  shows "\<exists>s' r. rx_finish e s fid fs p ts_off db rx_bump rx_pos tx_bump old_avail trigger_ack ts = Inr (s', p, r) \<and>
    rx_result (arx_region s db) s s' fid fs \<and> 0 \<le> r"
proof -
  let ?s = "putfs s fid fs"
  let ?arx = "\<lparr>arx_opaque = opaque fs, arx_rx_bump = rx_bump, arx_rx_pos = rx_pos, arx_tx_bump = tx_bump,
              arx_tx_head = 0, arx_type = (if objconn fs then ARX_OBJUPDATE else ARX_CONNUPDATE)\<rparr>"
  define n where "n = (if rx_bump \<noteq> 0 \<or> tx_bump \<noteq> 0 then
          bind_res (fast_actx_rxq_add ?s (core_id ?s) db ?arx) (\<lambda>r. case r of None \<Rightarrow> Inr ?s | Some s \<Rightarrow> Inr s)
        else Inr ?s)"
  have ok1: "dp_ok ?s" by (rule putfs_ok [OF ok])
  have reg: "arx_region ?s db = arx_region s db" by (simp add: arx_region_def)
  have id: "notified (arx_region s db) ?s ?s" using ok1 by (simp add: notified_def)
  have "\<exists>s1. n = Inr s1 \<and> notified (arx_region s db) ?s s1"
    unfolding n_def using fast_actx_rxq_add_ok [OF ok1 db, of ?arx, unfolded reg] id
    by (elim disjE exE conjE) (simp_all split del: if_split, simp_all)
  then obtain s1 where s1: "n = Inr s1" "notified (arx_region s db) ?s s1" by blast
  have ok1': "dp_ok s1" and q1: "unat (qman_qid fs) < length (queues (qm s1))"
    using s1(2) q by (simp_all add: notified_def)
  define m where "m = (let new_avail = tcp_txavail fs None in if new_avail > old_avail then
          if \<not> objconn fs
          then qset s1 (qman_qid fs) (tx_rate fs) (new_avail - old_avail) (ucast TCP_MSS) APP_QMAN_FLOW QF_ADD
          else if old_avail = 0 then qset s1 (qman_qid fs) 0 1 1 APP_QMAN_FLOW QF_ADD
          else Inr s1
        else Inr s1)"
  have "\<exists>t. m = Inr (s1\<lparr>qm := t\<rparr>) \<and> dp_ok (s1\<lparr>qm := t\<rparr>) \<and> length (queues t) = length (queues (qm s1))"
  proof -
    have "m = Inr s1 \<or> (\<exists>rate avail mc. m = qset s1 (qman_qid fs) rate avail mc APP_QMAN_FLOW QF_ADD)"
      unfolding m_def Let_def by auto
    then show ?thesis
    proof (elim disjE exE)
      assume "m = Inr s1"
      then show ?thesis using ok1' by (intro exI [of _ "qm s1"]) simp
    qed (use qset_ok [OF ok1' q1] in simp)
  qed
  then obtain t where t: "m = Inr (s1\<lparr>qm := t\<rparr>)" "dp_ok (s1\<lparr>qm := t\<rparr>)" "length (queues t) = length (queues (qm s1))"
    by blast
  let ?f = "take (PKT_TCP_SZ + (TCPH_HDRLEN p - 5) * 4)
     (pkt_bytes (ack_pkt e p (tx_next_seq fs) (rx_next_seq fs) (rx_avail fs) (tx_next_ts fs) ts ts_off))"
  have l1: "length (txq s1) < TXBUF_SIZE" using s1(2) tx by (simp add: notified_def)
  have "rx_finish e s fid fs p ts_off db rx_bump rx_pos tx_bump old_avail trigger_ack ts =
     bind_res n (\<lambda>s. bind_res (let new_avail = tcp_txavail fs None in if new_avail > old_avail then
          if \<not> objconn fs
          then qset s (qman_qid fs) (tx_rate fs) (new_avail - old_avail) (ucast TCP_MSS) APP_QMAN_FLOW QF_ADD
          else if old_avail = 0 then qset s (qman_qid fs) 0 1 1 APP_QMAN_FLOW QF_ADD
          else Inr s
        else Inr s) (\<lambda>s. if trigger_ack then
       bind_res (flow_tx_ack e s p (tx_next_seq fs) (rx_next_seq fs) (rx_avail fs) (tx_next_ts fs) ts ts_off)
         (\<lambda>s. Inr (s, p, 1)) else Inr (s, p, 0)))"
    unfolding rx_finish_def n_def Let_def ..
  also have "\<dots> = (if trigger_ack then Inr (s1\<lparr>qm := t, txq := txq s1 @ [?f]\<rparr>, p, 1) else Inr (s1\<lparr>qm := t\<rparr>, p, 0))"
    unfolding s1(1) bind_res_simps m_def [symmetric] t(1) using l1
    by (simp add: flow_tx_ack_def tx_send_def)
  finally show ?thesis
    using t s1(2) by (cases trigger_ack) (auto simp: rx_result_def notified_def dp_ok_def)
qed

text \<open>What acknowledgement processing leaves alone.\<close>

definition rxpart :: "flowst \<Rightarrow> u64 \<times> u32 \<times> u32 \<times> u32 \<times> u32 \<times> u32 \<times> u32 \<times> u64 \<times> u32 \<times> u32 \<times> u16 \<times> u32" where
  "rxpart fs = (rx_base_sp fs, rx_len fs, rx_next_pos fs, rx_avail fs, rx_next_seq fs, rx_ooo_start fs, rx_ooo_len fs,
     tx_base fs, tx_len fs, qman_qid fs, db_id fs, flow_group fs)"

lemma rxpart_simps:
  assumes "rxpart fs' = rxpart fs"
  shows "rx_ok fs' = rx_ok fs" "rx_mem_ok mem fs' = rx_mem_ok mem fs" "tx_mem_ok mem fs' = tx_mem_ok mem fs"
    "rx_avail fs' = rx_avail fs" "rx_next_seq fs' = rx_next_seq fs" "rx_ooo_start fs' = rx_ooo_start fs"
    "rx_ooo_len fs' = rx_ooo_len fs" "qman_qid fs' = qman_qid fs" "db_id fs' = db_id fs" "rx_base_sp fs' = rx_base_sp fs"
    "rx_next_pos fs' = rx_next_pos fs" "rx_len fs' = rx_len fs" "flow_group fs' = flow_group fs"
    "rx_region fs' = rx_region fs"
  using assms by (simp_all add: rxpart_def rx_ok_def rx_mem_ok_def rx_region_def rx_buf_def tx_mem_ok_def)

lemma flow_ok_rxpart: "rxpart fs' = rxpart fs \<Longrightarrow> tx_ok fs' \<Longrightarrow> flow_ok s fs \<Longrightarrow> flow_ok s fs'"
  using rxpart_simps [of fs' fs] by (simp add: flow_ok_def)

lemma rxpart_ack_advance [simp]: "rxpart (ack_advance fs b) = rxpart fs"
  by (simp add: rxpart_def ack_advance_def Let_def)

lemma rxpart_reset [simp]: "rxpart (flow_reset_retransmit fs) = rxpart fs"
  by (simp add: rxpart_def flow_reset_retransmit_def Let_def)

lemma tx_ok_cnt [simp]:
  "tx_ok (fs\<lparr>cnt_rx_ack_bytes := a\<rparr>) = tx_ok fs" "tx_ok (fs\<lparr>rx_dupack_cnt := a\<rparr>) = tx_ok fs"
  "tx_ok (fs\<lparr>cnt_rx_acks := a\<rparr>) = tx_ok fs" "tx_ok (fs\<lparr>cnt_rx_ecn := a\<rparr>) = tx_ok fs"
  by (simp_all add: tx_ok_def tx_view_def)

lemma rxpart_cnt [simp]:
  "rxpart (fs\<lparr>cnt_rx_ack_bytes := a\<rparr>) = rxpart fs" "rxpart (fs\<lparr>rx_dupack_cnt := a\<rparr>) = rxpart fs"
  "tx_unsent (fs\<lparr>cnt_rx_ack_bytes := a\<rparr>) = tx_unsent fs"
  by (simp_all add: rxpart_def tx_unsent_def)

lemma rx_stats_ok: "tx_ok (rx_stats fs p) = tx_ok fs" "rxpart (rx_stats fs p) = rxpart fs"
  by (simp_all add: rx_stats_def Let_def rxpart_def)

lemma ack_advance_ok:
  assumes "tx_ok fs" "b \<le> tx_sent fs + tx_unsent fs"
  shows "tx_ok (ack_advance fs b)"
proof -
  obtain l p h s where v: "tx_view fs l p h s" using assms(1) by (auto simp: tx_ok_def)
  have "unat (tx_sent fs + tx_unsent fs) = s + ring_dist l p h"
    using v tx_view_unsent [OF v] by (simp add: tx_view_def unat_u32_add)
  then have "unat b \<le> s + ring_dist l p h" using assms(2) by (simp add: word_le_nat_alt)
  from ack_advance_view [OF v this] show ?thesis by (auto simp: tx_ok_def)
qed

lemma flow_reset_ok: "tx_ok fs \<Longrightarrow> tx_ok (flow_reset_retransmit fs)"
  using flow_reset_view by (fastforce simp: tx_ok_def)

lemma rx_ack_ok:
  assumes "tx_ok fs" "rx_ack fs p n = (fs', b, r)"
  shows "tx_ok fs'" "rxpart fs' = rxpart fs"
proof -
  have "tx_ok fs' \<and> rxpart fs' = rxpart fs"
  proof (cases "TCPH_FLAGS p AND TCP_ACK = TCP_ACK \<and> tcp_valid_rxack fs (tcp_ackno p) \<noteq> None")
    case True
    then obtain d where d: "tcp_valid_rxack fs (tcp_ackno p) = Some d" by auto
    then have le: "d \<le> tx_sent fs + tx_unsent fs" by (auto simp: valid_rxack_dist Let_def split: if_splits)
    define g where "g = ack_advance (fs\<lparr>cnt_rx_ack_bytes := cnt_rx_ack_bytes fs + d\<rparr>) d"
    have g: "tx_ok g" "rxpart g = rxpart fs"
      using assms(1) le ack_advance_ok [of "fs\<lparr>cnt_rx_ack_bytes := cnt_rx_ack_bytes fs + d\<rparr>" d]
      by (simp_all add: g_def)
    have "fs' = g\<lparr>rx_dupack_cnt := 0\<rparr> \<or> fs' = g \<or> fs' = g\<lparr>rx_dupack_cnt := rx_dupack_cnt g + 1\<rparr> \<or>
       fs' = flow_reset_retransmit (g\<lparr>rx_dupack_cnt := rx_dupack_cnt g + 1\<rparr>)"
      using assms(2) True d by (auto simp: rx_ack_def Let_def g_def [symmetric] split: if_splits)
    then show ?thesis using g flow_reset_ok by auto
  next
    case False
    then show ?thesis using assms by (auto simp: rx_ack_def split: if_splits option.splits)
  qed
  then show "tx_ok fs'" "rxpart fs' = rxpart fs" by auto
qed

lemma rx_rtt_ok: "tx_ok (rx_rtt fs p a b c) = tx_ok fs" "rxpart (rx_rtt fs p a b c) = rxpart fs"
  by (simp_all add: rx_rtt_def Let_def rxpart_def tx_ok_def tx_view_def)

lemma unat_pkt_payload:
  assumes "40 + (TCPH_HDRLEN p - 5) * 4 \<le> unat (ip_len p)"
  shows "unat (pkt_payload p) = unat (ip_len p) - (40 + (TCPH_HDRLEN p - 5) * 4)" "unat (pkt_payload p) < 65536"
proof -
  have h: "(TCPH_HDRLEN p - 5) * 4 \<le> 40" using TCPH_HDRLEN_bound [of p] by simp
  have e: "unat (20 + 20 + of_nat ((TCPH_HDRLEN p - 5) * 4) :: u32) = 40 + (TCPH_HDRLEN p - 5) * 4"
    using h by (simp add: unat_word_ariths unat_of_nat)
  show "unat (pkt_payload p) = unat (ip_len p) - (40 + (TCPH_HDRLEN p - 5) * 4)"
    unfolding pkt_payload_def unat_u32_sub e using assms by simp
  then show "unat (pkt_payload p) < 65536" using unat_u16_bound [of "ip_len p"] by simp
qed


lemma tcp_parse_opt_loop_off:
  "tcp_parse_opt_loop f opt n off ts = Some (Some (Some t)) \<Longrightarrow> (case ts of None \<Rightarrow> True | Some u \<Rightarrow> u < n) \<Longrightarrow> t < n"
proof (induction f arbitrary: off ts)
  case (Suc f)
  then show ?case
    by (auto simp: Let_def split: if_splits option.splits)
qed simp

lemma tcp_parse_options_off:
  assumes "tcp_parse_options f p len = Some (Some (Some t))"
  shows "t < 40"
proof -
  have "tcp_parse_opt_loop f (pbody p) (TCPH_HDRLEN p * 4 - 20) 0 None = Some (Some (Some t))"
    using assms by (auto simp: tcp_parse_options_def Let_def split: if_splits)
  then have "t < TCPH_HDRLEN p * 4 - 20" by (rule tcp_parse_opt_loop_off) simp
  then show ?thesis using TCPH_HDRLEN_bound [of p] by linarith
qed

text \<open>A segment the receive path can take: the IP length covers the headers, the frame is in the buffer, and
  neither the segment nor the out-of-order interval crosses sequence number \<open>2^32\<close>.\<close>

definition segment_ok :: "flowst \<Rightarrow> pkt_tcp \<Rightarrow> u16 \<Rightarrow> bool" where
  "segment_ok fs p len \<longleftrightarrow> 40 + (TCPH_HDRLEN p - 5) * 4 \<le> unat (ip_len p) \<and> 50 \<le> length (pbody p) \<and>
     unat len \<le> PKT_TCP_SZ + length (pbody p) \<and> unat (tcp_seqno p) + unat (pkt_payload p) < 2 ^ 32 \<and>
     unat (rx_ooo_len fs) < 65536 \<and> unat (rx_ooo_start fs) + unat (rx_ooo_len fs) < 2 ^ 32"

lemma rx_buf_slowpath: "rx_buf (fs\<lparr>rx_base_sp := rx_base_sp fs OR FLOWST_SLOWPATH\<rparr>) = rx_buf fs"
proof -
  have "(x OR 1) AND NOT 15 = x AND NOT (15 :: u64)" for x
  proof (rule bit_word_eqI)
    fix k
    have "bit (15 :: u64) 0" by simp
    then show "bit ((x OR 1) AND NOT 15) k = bit (x AND NOT (15 :: u64)) k"
      by (cases "k = 0") (simp_all only: bit_and_iff bit_or_iff bit_not_iff bit_1_iff simp_thms)
  qed
  then show ?thesis by (simp add: rx_buf_def)
qed

lemma objconn_slowpath: "(x OR FLOWST_SLOWPATH) AND FLOWST_OBJCONN = x AND FLOWST_OBJCONN"
  for x :: u64
  by (rule bit_word_eqI) (auto simp: bit_simps)

lemma kept_sp: "kept fs' = kept fs \<Longrightarrow> rx_base_sp fs' = rx_base_sp fs"
  by (simp add: kept_def)

lemma flow_ok_kept: "kept fs' = kept fs \<Longrightarrow> rx_ok fs' \<Longrightarrow> db_id fs' = db_id fs \<Longrightarrow> flow_ok s fs \<Longrightarrow> flow_ok s fs'"
  using kept_cong [of fs' fs] by (auto simp: flow_ok_def dest: kept_sp)

lemma rx_result_mem:
  "rx_result R' (s\<lparr>dmem := m\<rparr>) s' fid fs \<Longrightarrow> mem_frame R (dmem s) m \<Longrightarrow> rx_result (R \<union> R') s s' fid fs"
  by (auto simp: rx_result_def intro: mem_frame_trans)

lemma dp_ok_mem: "dp_ok s \<Longrightarrow> length m = length (dmem s) \<Longrightarrow> dp_ok (s\<lparr>dmem := m\<rparr>)"
  by (simp add: dp_ok_def)

lemma arx_region_mem: "arx_region (s\<lparr>dmem := m\<rparr>) c = arx_region s c"
  by (simp add: arx_region_def)

lemma rx_locked_ok:
  assumes ok: "dp_ok s" and fid: "unat fid < length (flows s)" and fl: "flow_ok s (flows s ! unat fid)"
    and tx: "length (txq s) < TXBUF_SIZE"
    and seg: "segment_ok (flows s ! unat fid) p len" and len: "unat (ip_len p) + 14 \<le> unat len"
  shows "\<exists>s' p' r fs'. rx_locked e s fid p ts_off ts = Inr (s', p', r) \<and>
    rx_result (rx_region (flows s ! unat fid) \<union> arx_region s (db_id (flows s ! unat fid))) s s' fid fs' \<and> flow_ok s fs'"
proof -
  let ?f0 = "flows s ! unat fid"
  let ?R = "rx_region ?f0 \<union> arx_region s (db_id ?f0)"
  have no: "\<not> objconn ?f0" using fl by (simp add: flow_ok_def)
  let ?x = "(TCPH_HDRLEN p - 5) * 4"
  define n where "n = pkt_payload p"
  obtain fs tx_bump reset where a: "rx_ack (rx_stats ?f0 p) p n = (fs, tx_bump, reset)" by (metis surj_pair)
  have n: "unat n = unat (ip_len p) - (40 + ?x)" "unat n < 65536"
    using unat_pkt_payload [of p] seg by (simp_all add: segment_ok_def n_def)
  have nb: "?x + unat n \<le> length (pbody p)" using n(1) seg len unfolding segment_ok_def by linarith
  have f: "tx_ok fs" "rxpart fs = rxpart ?f0"
    using rx_ack_ok [OF _ a] fl by (simp_all add: rx_stats_ok flow_ok_def)
  note fr = rxpart_simps [OF f(2)]
  have fok: "flow_ok s fs" by (rule flow_ok_rxpart [OF f(2,1) fl])
  have db: "unat (db_id ?f0) < APPCTX_NUM" using fl by (simp add: flow_ok_def)
  have slow: "\<exists>s' p' r fs'. rx_slowpath s fid g q b = Inr (s', p', r) \<and> rx_result ?R s s' fid fs' \<and> flow_ok s fs'"
    if "flow_ok s g" for g q b
  proof -
    have "flow_ok s (g\<lparr>rx_base_sp := rx_base_sp g OR FLOWST_SLOWPATH\<rparr>)"
      using that by (simp add: flow_ok_def rx_ok_def rx_mem_ok_def tx_mem_ok_def rx_buf_slowpath tx_ok_def tx_view_def
          objconn_slowpath)
    then show ?thesis using that ok by (auto simp: rx_slowpath_def rx_result_def putfs_ok)
  qed
  define old where "old = tcp_txavail ?f0 None"
  define fin where "fin = (\<lambda>s fs rx_bump. rx_finish e s fid fs p ts_off (db_id ?f0) rx_bump (rx_next_pos ?f0) tx_bump old (n > 0) ts)"
  have fin: "\<exists>s' p' r fs'. fin (s\<lparr>dmem := m\<rparr>) g k = Inr (s', p', r) \<and> rx_result ?R s s' fid fs' \<and> flow_ok s fs'"
    if "flow_ok s g" "mem_frame (rx_region ?f0) (dmem s) m" for m g k
  proof -
    have q: "unat (qman_qid g) < length (queues (qm (s\<lparr>dmem := m\<rparr>)))" and t: "length (txq (s\<lparr>dmem := m\<rparr>)) < TXBUF_SIZE"
      using that tx by (simp_all add: flow_ok_def)
    show ?thesis
      using rx_finish_ok [OF dp_ok_mem [OF ok mem_frame_length [OF that(2)]] q db t, of e fid p ts_off k "rx_next_pos ?f0" tx_bump old "n > 0" ts]
        rx_result_mem [OF _ that(2)] that unfolding fin_def arx_region_mem by blast
  qed
  have fin0: "\<exists>s' p' r fs'. fin s g 0 = Inr (s', p', r) \<and> rx_result ?R s s' fid fs' \<and> flow_ok s fs'" if "flow_ok s g" for g
    using fin [OF that mem_frame_refl, of 0] by simp
  define r where "r = rx_rtt fs p (be32_of (slice (pbody p) (ts_off + 2) 4)) (be32_of (slice (pbody p) (ts_off + 6) 4)) ts"
  have eq: "rx_locked e s fid p ts_off ts =
    (if rx_base_sp ?f0 AND FLOWST_SLOWPATH \<noteq> 0 then rx_slowpath s fid ?f0 p False
     else if TCPH_FLAGS p AND NOT (TCP_ACK OR TCP_PSH OR TCP_ECE OR TCP_CWR) \<noteq> 0
     then rx_slowpath s fid ?f0 p (TCPH_FLAGS p AND TCP_SYN \<noteq> 0)
     else if reset then fin s fs 0
     else case tcp_trim_rxbuf fs (tcp_seqno p) (ucast n) of None \<Rightarrow> fin s fs 0
       | Some (tb, te) \<Rightarrow>
           if tcp_seqno p + ucast tb \<noteq> rx_next_seq fs
           then bind_res (rx_ooo (dmem s) fs (tcp_seqno p + ucast tb) (n - (ucast tb + ucast te)) (drop (?x + unat tb) (pbody p)))
              (\<lambda>(mem, fs). fin (s\<lparr>dmem := mem\<rparr>) fs 0)
           else bind_res (rx_obj e s r (drop (?x + unat tb) (pbody p)) (n - (ucast tb + ucast te))) (\<lambda>(g, ok).
             if \<not> ok then rx_slowpath s fid g (p\<lparr>pbody := take (?x + unat tb) (pbody p) @
                 clear_magic r (n - (ucast tb + ucast te)) (drop (?x + unat tb) (pbody p))\<rparr>) False
             else bind_res (rx_deliver (dmem s) g (n - (ucast tb + ucast te))
                 (clear_magic r (n - (ucast tb + ucast te)) (drop (?x + unat tb) (pbody p)))) (\<lambda>(mem, fs, rx_bump).
                   fin (s\<lparr>dmem := mem\<rparr>) fs rx_bump)))"
    unfolding rx_locked_def Let_def n_def [symmetric] a prod.case fin_def old_def r_def ..
  show ?thesis
  proof (cases "rx_base_sp ?f0 AND FLOWST_SLOWPATH \<noteq> 0 \<or> TCPH_FLAGS p AND NOT (TCP_ACK OR TCP_PSH OR TCP_ECE OR TCP_CWR) \<noteq> 0")
    case True
    then show ?thesis unfolding eq using slow [OF fl] by auto
  next
    case fast: False
    show ?thesis
    proof (cases "reset \<or> tcp_trim_rxbuf fs (tcp_seqno p) (ucast n) = None")
      case True
      then show ?thesis unfolding eq using fast fin0 [OF fok] by auto
    next
      case False
      then obtain tb te where tr: "tcp_trim_rxbuf fs (tcp_seqno p) (ucast n) = Some (tb, te)" by (metis option.exhaust surj_pair)
      define m where "m = n - (ucast tb + ucast te)"
      let ?src = "drop (?x + unat tb) (pbody p)" and ?seq = "tcp_seqno p + ucast tb"
      have u: "unat (ucast n :: u16) = unat n" using n(2) by (simp add: unat_u32_u16)
      have rx: "rx_ok fs" and mem: "rx_mem_ok (dmem s) fs" using fok by (simp_all add: flow_ok_def)
      have sum: "unat tb + unat te \<le> unat n" using trim_sum [OF rx_ok_len [OF rx] tr] u by simp
      have m: "unat m = unat n - unat te - unat tb" "unat m < 65536"
        using sum n(2) by (simp_all add: m_def u32_nat)
      have nd: "\<not> trim_rxbuf_defect fs (tcp_seqno p) (ucast n)"
        using seg u by (intro no_defect) (simp add: segment_ok_def n_def [symmetric])
      have fit: "unat (?seq - rx_next_seq fs) + unat m \<le> unat (rx_avail fs)" if "m \<noteq> 0"
        using trim_fits [OF rx_ok_len [OF rx] nd tr] that m(1) u by (simp add: unat_gt_0 [symmetric])
      have src: "unat m \<le> length ?src" using nb m(1) sum by simp
      note eq' = eq [unfolded tr option.case prod.case m_def [symmetric]]
      show ?thesis
      proof (cases "?seq = rx_next_seq fs")
        case inorder: False
        obtain mem' fs' where o: "rx_ooo (dmem s) fs ?seq m ?src = Inr (mem', fs')" "rx_ok fs'" "kept fs' = kept fs"
          "db_id fs' = db_id fs" "mem_frame (rx_region ?f0) (dmem s) mem'"
          using rx_ooo_ok [OF rx mem _ m(2) src] fit unfolding fr by blast
        show ?thesis unfolding eq' using False fast inorder o(1) fin [OF flow_ok_kept [OF o(3,2,4) fok] o(5)] by auto
      next
        case True
        have r: "rxpart r = rxpart ?f0" "tx_ok r" using f by (simp_all add: r_def rx_rtt_ok)
        have rok: "flow_ok s r" by (rule flow_ok_rxpart [OF r fl])
        note rr = rxpart_simps [OF r(1)]
        have ro: "rx_obj e s r ?src m = Inr (r, True)" "clear_magic r m ?src = ?src"
          using no rr(10) by (simp_all add: rx_obj_def clear_magic_def)
        have mv: "unat m \<le> unat (rx_avail r)" using fit True rr(4) fr(4) by (cases "m = 0") auto
        have oo: "unat (rx_ooo_len r) < 65536" "unat (rx_ooo_start r) + unat (rx_ooo_len r) < 4294967296"
          using seg rr by (simp_all add: segment_ok_def)
        obtain mem' fs' k where d: "rx_deliver (dmem s) r m ?src = Inr (mem', fs', k)" "rx_ok fs'" "kept fs' = kept r"
          "db_id fs' = db_id r" "ring_written (rx_buf r) (unat (rx_len r)) (unat (rx_next_pos r)) (take (unat m) ?src) (dmem s) mem'"
          using rx_deliver_ok [OF _ _ m(2) mv src oo, of "dmem s"] rok by (auto simp: flow_ok_def)
        have fr5: "mem_frame (rx_region ?f0) (dmem s) mem'"
          using ring_written_frame [OF d(5)] rr(14) by (simp add: rx_region_def)
        show ?thesis unfolding eq' using False fast True ro d(1) fin [OF flow_ok_kept [OF d(3,2,4) rok] fr5] by auto
      qed
    qed
  qed
qed


lemma fast_flows_packet_ok:
  assumes ok: "dp_ok s" and fid: "unat fid < length (flows s)" and fl: "flow_ok s (flows s ! unat fid)"
    and tx: "length (txq s) < TXBUF_SIZE"
    and seg: "segment_ok (flows s ! unat fid) p len" and opt: "tcp_parse_options OPT_FUEL p len \<noteq> None"
  shows "\<exists>s' p' r fs'. fast_flows_packet e s p len fid ts = Inr (s', p', r) \<and>
    rx_result (rx_region (flows s ! unat fid) \<union> arx_region s (db_id (flows s ! unat fid))) s s' fid fs' \<and> flow_ok s' fs'"
  (is "\<exists>s' p' r fs'. _ \<and> rx_result ?R s s' fid fs' \<and> _")
proof (cases "hdr_ok p len \<and> (\<exists>off. tcp_parse_options OPT_FUEL p len = Some (Some (Some off)))")
  case True
  then obtain off where off: "tcp_parse_options OPT_FUEL p len = Some (Some (Some off))" by blast
  have db: "unat (db_id (flows s ! unat fid)) < 16" using fl by (simp add: flow_ok_def)
  let ?a = "appctxs s ! unat (core_id s) ! unat (db_id (flows s ! unat fid))"
  have "actx_ok (length (dmem s)) ?a" using ok db by (auto simp: dp_ok_def)
  from rxq_entry(1) [OF this] have pf: "fast_actx_rxq_pf s (core_id s) (db_id (flows s ! unat fid))"
    using ok by (simp add: fast_actx_rxq_pf_def dp_ok_def)
  have "\<not> length (pbody p) < off + TS_OPT_SZ"
    using tcp_parse_options_off [OF off] seg by (simp add: segment_ok_def)
  then have e: "fast_flows_packet e s p len fid ts = rx_locked e s fid p off ts"
    using True off pf db by (simp add: fast_flows_packet_def)
  have "unat (ip_len p) + 14 \<le> unat len" using True by (simp add: hdr_ok_def)
  from rx_locked_ok [OF ok fid fl tx seg this] obtain s' p' r fs' where
    r: "rx_locked e s fid p off ts = Inr (s', p', r)" "rx_result ?R s s' fid fs'" "flow_ok s fs'" by blast
  have "flow_ok s' fs'" using flow_ok_sizes [OF r(3) rx_result_length [OF r(2)]] r(2) by (simp add: rx_result_def)
  then show ?thesis using e r(1,2) by auto
next
  case False
  then have "fast_flows_packet e s p len fid ts = Inr (s, p, -1)"
    using opt by (auto simp: fast_flows_packet_def split: option.splits)
  moreover have "rx_result ?R s s fid (flows s ! unat fid)" using ok by (simp add: rx_result_def)
  ultimately show ?thesis using fl by blast
qed


definition ex_actx :: appctx where
  "ex_actx = \<lparr>ax_rx_base = 128, ax_tx_base = 192, ax_rx_len = 64, ax_tx_len = 64, ax_qman_qid = 0, ax_appst_id = 0, ax_rx_head = 0,
     ax_tx_head = 0, ax_last_ts = 0\<rparr>"

definition ex_flow :: flowst where
  "ex_flow = flowst_zero\<lparr>rx_base_sp := 0, tx_base := 64, rx_len := 64, tx_len := 64, rx_avail := 64, rx_next_seq := 1000,
     rx_remote_avail := 100, tx_head := 20, tx_next_seq := 5000\<rparr>"

definition ex_dp :: dp where
  "ex_dp = \<lparr>dmem = replicate 256 0, appctxs = [replicate 16 ex_actx], flows = [ex_flow], flowht = [], qmant = [0],
     kctxs = [ex_actx], appsts = [], steering = [0], core_id = 0, qm = qman_thread_init 1 0 0, fwd = [], txq = [],
     kicks = [], now_us = 0, klast_ts = 0\<rparr>"

definition ex_env :: env where
  "ex_env = \<lparr>xsum = (\<lambda>p. 0), hash_crc = (\<lambda>bs. of_nat (length bs)), ring_ok = (\<lambda>c q. length q < 8192), own_mac = 7\<rparr>"

definition ex_seg :: pkt_tcp where
  "ex_seg = segment_pkt ex_env ex_flow 1000 5000 100 4 77 88 ([1, 2, 3, 4] @ replicate 40 0)"

lemma ex_dp_ok: "dp_ok ex_dp"
  using qman_init_inv [of 1 0 0]
  by (auto simp: dp_ok_def ex_dp_def actx_ok_def ex_actx_def)

lemma ex_flow_ok: "flow_ok ex_dp ex_flow"
  unfolding flow_ok_def tx_ok_def tx_view_def rx_ok_def rx_mem_ok_def rx_buf_def tx_mem_ok_def ring_dist_def
  by (simp add: ex_flow_def flowst_zero_def ex_dp_def qman_thread_init_def)

lemma ex_seg_ok: "segment_ok ex_flow ex_seg 70"
  by (simp add: segment_ok_def ex_seg_def segment_pkt_def ex_flow_def flowst_zero_def TCPH_HDRLEN_def TCPH_HDRLEN_FLAGS_def
      pkt_payload_def ts_opt_bytes_def)

lemma ts_opt_parse: "tcp_parse_opt_loop (Suc (Suc f)) (ts_opt_bytes a b @ dat) 12 0 None = Some (Some (Some 0))"
  by (simp add: ts_opt_bytes_def be32_bytes_def Let_def)

lemma segment_hdrlen: "TCPH_HDRLEN (segment_pkt e fs seq ack w n te tm dat) = 8"
  by (simp add: segment_pkt_def TCPH_HDRLEN_def TCPH_HDRLEN_FLAGS_def)

lemma segment_options:
  assumes "66 \<le> unat len"
  shows "tcp_parse_options OPT_FUEL (segment_pkt e fs seq ack w n te tm dat) len = Some (Some (Some 0))"
proof -
  have f: "41 = Suc (Suc 39)" by simp
  have "unat (ucast len - 54 :: u64) = unat len - 54"
    using assms by (subst unat_sub) (simp_all add: word_le_nat_alt)
  then have "\<not> (of_nat 12 > (ucast len - of_nat 54 :: u64))"
    using assms by (simp add: word_less_nat_alt)
  then show ?thesis
    unfolding tcp_parse_options_def segment_hdrlen f Let_def using ts_opt_parse [of 39 tm te dat]
    by (simp add: segment_pkt_def)
qed

lemma ex_seg_opts: "tcp_parse_options OPT_FUEL ex_seg 70 = Some (Some (Some 0))"
  unfolding ex_seg_def by (rule segment_options) simp


section \<open>Segments\<close>

text \<open>What a frame built for \<open>n\<close> payload bytes \<open>dat\<close> looks like to a receiver of \<open>66 + n\<close> bytes.\<close>

definition carries :: "pkt_tcp \<Rightarrow> u16 \<Rightarrow> u32 \<Rightarrow> u32 \<Rightarrow> u8 list \<Rightarrow> bool" where
  "carries p n te tm dat \<longleftrightarrow> length (pkt_bytes p) = unat (66 + n) \<and> hdr_ok p (66 + n) \<and> unat (pkt_payload p) = unat n \<and>
     tcp_parse_options OPT_FUEL p (66 + n) = Some (Some (Some 0)) \<and>
     be32_of (slice (pbody p) 2 4) = tm \<and> be32_of (slice (pbody p) 6 4) = te \<and>
     drop ((TCPH_HDRLEN p - 5) * 4) (pbody p) = dat \<and> TCPH_FLAGS p = TCP_PSH OR TCP_ACK"

lemma tcp_checksums_same:
  "pbody (tcp_checksums e p) = pbody p" "ip_len (tcp_checksums e p) = ip_len p"
  "tcp_hdrlen_flags (tcp_checksums e p) = tcp_hdrlen_flags p" "hdr_ok (tcp_checksums e p) = hdr_ok p"
  "pkt_payload (tcp_checksums e p) = pkt_payload p" "TCPH_HDRLEN (tcp_checksums e p) = TCPH_HDRLEN p"
  "TCPH_FLAGS (tcp_checksums e p) = TCPH_FLAGS p"
  "tcp_parse_options f (tcp_checksums e p) = tcp_parse_options f p"
  "ip_src (tcp_checksums e p) = ip_src p" "ip_dest (tcp_checksums e p) = ip_dest p"
  "tcp_src (tcp_checksums e p) = tcp_src p" "tcp_dest (tcp_checksums e p) = tcp_dest p"
  "tcp_seqno (tcp_checksums e p) = tcp_seqno p" "tcp_ackno (tcp_checksums e p) = tcp_ackno p"
  "tcp_wnd (tcp_checksums e p) = tcp_wnd p"
proof -
  show h: "TCPH_HDRLEN (tcp_checksums e p) = TCPH_HDRLEN p" and "pbody (tcp_checksums e p) = pbody p"
    by (simp_all add: Let_def tcp_checksums_def TCPH_HDRLEN_def)
  then show "tcp_parse_options f (tcp_checksums e p) = tcp_parse_options f p"
    by (intro ext) (simp only: tcp_parse_options_def)
  show "hdr_ok (tcp_checksums e p) = hdr_ok p" "pkt_payload (tcp_checksums e p) = pkt_payload p"
    unfolding fun_eq_iff hdr_ok_def pkt_payload_def h by (simp_all add: Let_def tcp_checksums_def IPH_V_def IPH_HL_def)
qed (simp_all add: Let_def tcp_checksums_def TCPH_FLAGS_def)

lemma segment_carries:
  assumes "unat n \<le> 1448" "length dat = unat n"
  shows "carries (tcp_checksums e (segment_pkt e fs seq ack w n te tm dat)) n te tm dat"
proof -
  let ?p = "segment_pkt e fs seq ack w n te tm dat"
  have l: "unat (66 + n) = 66 + unat n" "unat (52 + n) = 52 + unat n"
    using assms(1) by (simp_all add: unat_word_ariths)
  have ip: "unat (ip_len ?p) = 52 + unat n" using l(2) by (simp add: segment_pkt_def)
  have h: "hdr_ok ?p (66 + n)"
    unfolding hdr_ok_def segment_hdrlen l(1) ip by (simp add: segment_pkt_def IPH_V_def IPH_HL_def)
  have pay: "unat (pkt_payload ?p) = unat n"
    using unat_pkt_payload(1) [of ?p] ip by (simp add: segment_hdrlen)
  have fl: "TCPH_FLAGS ?p = TCP_PSH OR TCP_ACK"
    by (simp add: segment_pkt_def TCPH_FLAGS_def TCPH_HDRLEN_FLAGS_def)
  have opt: "tcp_parse_options OPT_FUEL ?p (66 + n) = Some (Some (Some 0))"
    by (rule segment_options) (simp add: l)
  have b: "length (pbody ?p) = 12 + unat n" "be32_of (slice (pbody ?p) 2 4) = tm"
      "be32_of (slice (pbody ?p) 6 4) = te" "drop 12 (pbody ?p) = dat"
    using assms(2) by (simp_all add: segment_pkt_def ts_opt_bytes_def)
  show ?thesis
    unfolding carries_def tcp_checksums_same length_pkt_bytes segment_hdrlen
    using h pay fl opt b l by simp
qed

lemma ring_bytes_length: "length (dma.ring_bytes mem b l p n) = n"
  by (simp add: dma.ring_bytes_def)

lemma flow_tx_segment_ok:
  assumes mem: "tx_mem_ok (dmem s) fs" and l: "unat (tx_len fs) < 2147483648" "n > 0 \<Longrightarrow> pos < tx_len fs" "unat n \<le> unat (tx_len fs)"
    and n: "unat n \<le> 1448" and q: "length (txq s) < TXBUF_SIZE"
  shows "\<exists>p. flow_tx_segment e s fs seq ack w n pos te tm = Inr (s\<lparr>txq := txq s @ [pkt_bytes p]\<rparr>) \<and>
    carries p n te tm (dma.ring_bytes (dmem s) (unat (tx_base fs)) (unat (tx_len fs)) (unat pos) (unat n)) \<and>
    tcp_seqno p = seq \<and> tcp_ackno p = ack \<and> tcp_wnd p = wnd_field w \<and> pkt_key p =
      \<lparr>k_local_ip = remote_ip fs, k_remote_ip = local_ip fs, k_local_port = remote_port fs, k_remote_port = local_port fs\<rparr>"
proof -
  let ?dat = "dma.ring_bytes (dmem s) (unat (tx_base fs)) (unat (tx_len fs)) (unat pos) (unat n)"
  let ?p = "tcp_checksums e (segment_pkt e fs seq ack w n te tm ?dat)"
  have c: "carries ?p n te tm ?dat" by (rule segment_carries [OF n ring_bytes_length])
  have rd: "(if n > 0 then flow_tx_read (dmem s) fs pos n else Inr []) = Inr ?dat"
    using flow_tx_read_ok [OF mem l(1) l(2) l(3)] by (auto simp: word_gt_0 dma.ring_bytes_def)
  have "take (unat (66 + n)) (pkt_bytes ?p) = pkt_bytes ?p" using c by (simp add: carries_def)
  then have "flow_tx_segment e s fs seq ack w n pos te tm = Inr (s\<lparr>txq := txq s @ [pkt_bytes ?p]\<rparr>)"
    using rd q by (simp add: flow_tx_segment_def tx_send_def Let_def)
  moreover have "tcp_seqno ?p = seq \<and> tcp_ackno ?p = ack \<and> tcp_wnd ?p = wnd_field w \<and> pkt_key ?p =
      \<lparr>k_local_ip = remote_ip fs, k_remote_ip = local_ip fs, k_local_port = remote_port fs, k_remote_port = local_port fs\<rparr>"
    by (simp add: tcp_checksums_same segment_pkt_def pkt_key_def)
  ultimately show ?thesis using c by blast
qed


lemma txavail_le_unsent: "unat (tcp_txavail fs None) \<le> unat (tx_unsent fs)"
  by (simp add: unat_tcp_txavail tx_unsent_def algebra_simps)

lemma kept_but_tx_advance:
  "rxpart (tx_advance fs n) = rxpart fs" "tx_len (tx_advance fs n) = tx_len fs" "tx_base (tx_advance fs n) = tx_base fs"
  "local_ip (tx_advance fs n) = local_ip fs" "remote_ip (tx_advance fs n) = remote_ip fs"
  "local_port (tx_advance fs n) = local_port fs" "remote_port (tx_advance fs n) = remote_port fs"
  by (simp_all add: tx_advance_def rxpart_def Let_def)

lemma fast_flows_qman_send:
  assumes ok: "dp_ok s" and qu: "unat queue < length (qmant s)"
    and fid: "fid = qmant s ! unat queue AND 0x3FFFFFFF" "unat fid < length (flows s)"
    and fl: "flow_ok s (flows s ! unat fid)"
    and core: "ucast (steering s ! unat (flow_group (flows s ! unat fid))) = core_id s"
    and avail: "tcp_txavail (flows s ! unat fid) None \<noteq> 0" and q: "length (txq s) < TXBUF_SIZE"
  shows "let fs = flows s ! unat fid; n = min 1448 (unat (tcp_txavail fs None)) in
    \<exists>p s'. fast_flows_qman e s queue ts = Inr (s', 0) \<and> dp_ok s' \<and> flow_ok s' (flows s' ! unat fid) \<and>
      s' = s\<lparr>flows := (flows s)[unat fid := tx_advance fs (of_nat n)], txq := txq s @ [pkt_bytes p]\<rparr> \<and>
      carries p (of_nat n) (tx_next_ts fs) ts
        (map (\<lambda>i. dmem s ! (unat (tx_base fs) + (unat (tx_next_pos fs) + i) mod unat (tx_len fs))) [0..<n]) \<and>
      tcp_seqno p = tx_next_seq fs \<and> tcp_ackno p = rx_next_seq fs \<and> tcp_wnd p = wnd_field (rx_avail fs) \<and>
      pkt_key p = \<lparr>k_local_ip = remote_ip fs, k_remote_ip = local_ip fs,
                    k_local_port = remote_port fs, k_remote_port = local_port fs\<rparr>"
proof -
  have no: "\<not> objconn (flows s ! unat fid)" and grp: "unat (flow_group (flows s ! unat fid)) < length (steering s)"
    using fl by (simp_all add: flow_ok_def)
  define fs where "fs = flows s ! unat fid"
  define av where "av = tcp_txavail fs None"
  define n where "n = min 1448 (unat av)"
  define len where "len = (if TCP_MSS < av then TCP_MSS else av)"
  have ln: "len = of_nat n" "unat len = n"
    by (auto simp: len_def n_def word_less_nat_alt min_def)
  have n16: "ucast len = (of_nat n :: u16)" "unat (of_nat n :: u16) = n"
  proof -
    have "n < 65536" by (simp add: n_def min_def)
    then show "unat (of_nat n :: u16) = n" by (simp add: unat_of_nat)
    show "ucast len = (of_nat n :: u16)" by (simp flip: ln(2))
  qed
  have tx: "tx_ok fs" "tx_mem_ok (dmem s) fs" using fl by (simp_all add: flow_ok_def fs_def)
  then obtain l p h sent where v: "tx_view fs l p h sent" by (auto simp: tx_ok_def)
  have le: "unat len \<le> ring_dist l p h"
    using txavail_le_unsent [of fs] tx_view_unsent [OF v] ln(2) by (simp add: n_def av_def)
  note adv = tx_advance_view(1) [OF v le]
  let ?fs = "tx_advance fs len" and ?s = "putfs s fid (tx_advance fs len)"
  have lim: "l < 2147483648" "p < l" "unat len \<le> l" "unat (tx_len fs) = l" "unat (tx_next_pos fs) = p"
    using v le by (auto simp: tx_view_def)
  have mem: "tx_mem_ok (dmem ?s) ?fs" using tx(2) by (simp add: tx_mem_ok_def kept_but_tx_advance)
  have b: "unat (ucast len :: u16) \<le> 1448" using n16 by (simp add: n_def)
  obtain pk where pk: "flow_tx_segment e ?s ?fs (tx_next_seq fs) (rx_next_seq fs) (rx_avail fs) (ucast len)
        (tx_next_pos fs) (tx_next_ts ?fs) ts = Inr (?s\<lparr>txq := txq ?s @ [pkt_bytes pk]\<rparr>)"
      "carries pk (ucast len) (tx_next_ts ?fs) ts
        (dma.ring_bytes (dmem ?s) (unat (tx_base ?fs)) (unat (tx_len ?fs)) (unat (tx_next_pos fs)) (unat (ucast len :: u16)))"
      "tcp_seqno pk = tx_next_seq fs" "tcp_ackno pk = rx_next_seq fs" "tcp_wnd pk = wnd_field (rx_avail fs)"
      "pkt_key pk = \<lparr>k_local_ip = remote_ip ?fs, k_remote_ip = local_ip ?fs, k_local_port = remote_port ?fs, k_remote_port = local_port ?fs\<rparr>"
    using flow_tx_segment_ok [OF mem, of "ucast len" "tx_next_pos fs" e "tx_next_seq fs" "rx_next_seq fs" "rx_avail fs" "tx_next_ts ?fs" ts]
      lim b n16 ln(2) q by (auto simp: kept_but_tx_advance word_less_nat_alt)
  let ?s' = "?s\<lparr>txq := txq s @ [pkt_bytes pk]\<rparr>"
  have run: "fast_flows_qman e s queue ts = Inr (?s', 0)"
    using core no avail pk(1) qu fid(2) grp unfolding fast_flows_qman_def fid(1) [symmetric] Let_def fs_def [symmetric]
    unfolding av_def [symmetric] len_def [symmetric] by (simp add: fs_def)
  have f': "flow_ok ?s' (flows ?s' ! unat fid)"
    using flow_ok_rxpart [OF kept_but_tx_advance(1), of fs len s] adv fl fid(2)
    by (auto simp: tx_ok_def fs_def flow_ok_def rx_mem_ok_def tx_mem_ok_def)
  have d': "dp_ok ?s'" using ok by (simp add: dp_ok_def)
  have "carries pk (of_nat n) (tx_next_ts fs) ts
        (map (\<lambda>i. dmem s ! (unat (tx_base fs) + (unat (tx_next_pos fs) + i) mod unat (tx_len fs))) [0..<n])"
    using pk(2) unfolding n16 by (simp add: kept_but_tx_advance dma.ring_bytes_def tx_advance_def Let_def)
  then show ?thesis
    using run f' d' pk(3-6) unfolding Let_def fs_def [symmetric] av_def [symmetric] n_def [symmetric] ln(1)
    by (intro exI [of _ pk] exI [of _ ?s']) (simp add: kept_but_tx_advance ln(1))
qed

text \<open>
  C15: when the queue manager schedules a flow that stays on this core and can send, \<open>fast_flows_qman\<close> queues
  exactly one frame, which carries the next \<open>min MSS avail\<close> bytes of the send ring under the right sequence
  number, acknowledgement, window and addresses in a form the receive path accepts, and advances the flow by
  that many bytes.
\<close>

theorem fast_flows_qman_sends:
  assumes ok: "dp_ok s" and qu: "unat queue < length (qmant s)"
    and fid: "fid = qmant s ! unat queue AND 0x3FFFFFFF" "unat fid < length (flows s)"
    and fl: "flow_ok s (flows s ! unat fid)"
    and core: "ucast (steering s ! unat (flow_group (flows s ! unat fid))) = core_id s"
    and avail: "tcp_txavail (flows s ! unat fid) None \<noteq> 0" and q: "length (txq s) < TXBUF_SIZE"
  shows "let fs = flows s ! unat fid; n = min 1448 (unat (tcp_txavail fs None)) in
    \<exists>p s'. fast_flows_qman e s queue ts = Inr (s', 0) \<and> flow_ok s' (flows s' ! unat fid) \<and>
      s' = s\<lparr>flows := (flows s)[unat fid := tx_advance fs (of_nat n)], txq := txq s @ [pkt_bytes p]\<rparr> \<and>
      carries p (of_nat n) (tx_next_ts fs) ts
        (map (\<lambda>i. dmem s ! (unat (tx_base fs) + (unat (tx_next_pos fs) + i) mod unat (tx_len fs))) [0..<n]) \<and>
      tcp_seqno p = tx_next_seq fs \<and> tcp_ackno p = rx_next_seq fs \<and> tcp_wnd p = wnd_field (rx_avail fs) \<and>
      pkt_key p = \<lparr>k_local_ip = remote_ip fs, k_remote_ip = local_ip fs,
                    k_local_port = remote_port fs, k_remote_port = local_port fs\<rparr>"
  using fast_flows_qman_send [OF assms, of e ts] unfolding Let_def by blast

theorem fast_flows_qman_sends_witness:
  "\<exists>p s'. fast_flows_qman ex_env ex_dp 0 99 = Inr (s', 0) \<and>
     carries p 20 0 99 (map (\<lambda>i. dmem ex_dp ! (64 + i mod 64)) [0..<20]) \<and> tcp_seqno p = 5000"
proof -
  let ?fs = "flows ex_dp ! unat (0 :: u32)"
  have f: "?fs = ex_flow" by (simp add: ex_dp_def)
  have e: "tcp_txavail ex_flow None = 20" "unat (tx_base ex_flow) = 64" "unat (tx_len ex_flow) = 64"
      "unat (tx_next_pos ex_flow) = 0" "tx_next_ts ex_flow = 0" "tx_next_seq ex_flow = 5000"
    by (simp_all add: tcp_txavail_def ex_flow_def flowst_zero_def)
  have 1: "unat (0 :: u32) < length (qmant ex_dp)" "0 = qmant ex_dp ! unat (0 :: u32) AND 0x3FFFFFFF" "unat (0 :: u32) < length (flows ex_dp)"
      "length (txq ex_dp) < TXBUF_SIZE"
    by (simp_all add: ex_dp_def)
  have 2: "flow_ok ex_dp ?fs" "ucast (steering ex_dp ! unat (flow_group ?fs)) = core_id ex_dp"
      "tcp_txavail ?fs None \<noteq> 0"
    unfolding f e(1) by (rule ex_flow_ok) (simp_all add: ex_flow_def flowst_zero_def ex_dp_def)
  show ?thesis
    using fast_flows_qman_sends [OF ex_dp_ok 1(1,2,3) 2 1(4), of ex_env 99]
    unfolding f Let_def e by auto
qed

end
