(* ===== verification/FastPath.thy ===== *)
theory FastPath
  imports FlowSafe
begin

unbundle bit_operations_syntax

text \<open>
  Properties of the fast path as a whole: what a wrong length field does, the order of application bumps,
  retransmission, the flow hash table, and the invariant of every run of a core's critical sections.
\<close>

section \<open>A length field that does not cover the headers\<close>

text \<open>
  C18: when the IP length does not cover the IP and TCP headers, \<open>payload_bytes\<close> wraps to almost \<open>2^32\<close>
  and the 16-bit length handed to the trimming and copying code is at least 65456 bytes, whatever the frame
  holds.  The witness is a frame that passes the header test.
\<close>

theorem pkt_payload_underflow:
  assumes "unat (ip_len p) < 40 + (TCPH_HDRLEN p - 5) * 4"
  shows "unat (pkt_payload p) \<ge> 4294967216 \<and> unat (ucast (pkt_payload p) :: u16) \<ge> 65456"
proof -
  define h where "h = 40 + (TCPH_HDRLEN p - 5) * 4"
  define l where "l = unat (ip_len p)"
  have h: "h \<le> 80" using TCPH_HDRLEN_bound [of p] by (simp add: h_def)
  have lh: "l < h" using assms by (simp add: h_def l_def)
  have "pkt_payload p = of_nat l - of_nat h"
    by (simp add: pkt_payload_def h_def l_def)
  then have "unat (pkt_payload p) = 4294967296 - (h - l)"
    using h lh by (simp add: u32_nat unat_of_nat)
  moreover have "unat (ucast (pkt_payload p) :: u16) = unat (pkt_payload p) mod 65536"
    by (simp add: unsigned_ucast_eq take_bit_eq_mod)
  moreover have "(4294967296 - (h - l)) mod 65536 = 65536 - (h - l)"
  proof -
    have "4294967296 - (h - l) = 65535 * 65536 + (65536 - (h - l))" using h by simp
    then show ?thesis using lh h by (simp only: mod_mult_self3) simp
  qed
  ultimately have "unat (pkt_payload p) = 4294967296 - (h - l)" "unat (ucast (pkt_payload p) :: u16) = 65536 - (h - l)"
    by (simp_all only:)
  then show ?thesis using h lh by (intro conjI; linarith)
qed

theorem pkt_payload_underflow_witness:
  "let p = ex_seg\<lparr>ip_len := 20\<rparr> in hdr_ok p 70 \<and> unat (pkt_payload p) \<ge> 4294967216"
proof -
  have "unat (ip_len (ex_seg\<lparr>ip_len := 20\<rparr>)) < 40 + (TCPH_HDRLEN (ex_seg\<lparr>ip_len := 20\<rparr>) - 5) * 4" by simp
  from pkt_payload_underflow [OF this] show ?thesis
    by (simp add: hdr_ok_def ex_seg_def segment_pkt_def IPH_V_def IPH_HL_def TCPH_HDRLEN_def TCPH_HDRLEN_FLAGS_def)
qed

section \<open>Ordering of bumps\<close>

text \<open>
  Bumps are applied in sequence order: a bump less than \<open>2^30\<close> ahead of the current one is accepted and one
  that is less than \<open>2^30\<close> behind is dropped, also across the wrap of the counter.
\<close>

theorem bump_order:
  "(unat (new - cur) \<le> 1073741823 \<longrightarrow> \<not> bump_stale new cur) \<and>
   (0 < unat (cur - new) \<and> unat (cur - new) \<le> 1073741823 \<longrightarrow> bump_stale new cur)"
proof -
  define a b where "a = unat new" and "b = unat cur"
  have ab: "a < 4294967296" "b < 4294967296" using unat_u32_bound by (simp_all add: a_def b_def)
  have c: "(UINT32_MAX div 2 :: u32) = 2147483647" "(UINT32_MAX div 4 * 3 :: u32) = 3221225469" "(UINT32_MAX div 4 :: u32) = 1073741823"
    by simp_all
  have s: "bump_stale new cur \<longleftrightarrow> a \<ge> b \<and> a - b > 2147483647 \<or> a < b \<and> (b < 3221225469 \<or> a > 1073741823)"
    unfolding bump_stale_def c by (auto simp: u32_nat a_def b_def)
  have d: "unat (new - cur) = (if a \<ge> b then a - b else a + 4294967296 - b)"
      "unat (cur - new) = (if b \<ge> a then b - a else b + 4294967296 - a)"
    by (simp_all add: u32_nat a_def b_def)
  show ?thesis unfolding s d using ab by (auto split: if_splits)
qed

theorem bump_order_witness: "\<not> bump_stale 5 0xFFFFFFF0 \<and> bump_stale 0xFFFFFFF0 5"
  using bump_order [of 5 "0xFFFFFFF0"] bump_order [of "0xFFFFFFF0" 5] by simp

section \<open>Retransmission\<close>

text \<open>
  C16: \<open>flow_reset_retransmit\<close> puts a flow back to its first unacknowledged byte: nothing is in flight, the bytes
  that were become unsent again, and sending them once more leads to the position and sequence number it
  had before.
\<close>

theorem retransmit_restores:
  assumes "tx_ok fs"
  shows "let fs' = flow_reset_retransmit fs; fs2 = tx_advance fs' (tx_sent fs) in
    tx_ok fs' \<and> tx_sent fs' = 0 \<and> tx_unsent fs' = tx_sent fs + tx_unsent fs \<and> tx_ok fs2 \<and>
    tx_next_seq fs2 = tx_next_seq fs \<and> tx_next_pos fs2 = tx_next_pos fs \<and> tx_sent fs2 = tx_sent fs"
proof -
  obtain l p h n where v: "tx_view fs l p h n" using assms by (auto simp: tx_ok_def)
  then have fs: "unat (tx_len fs) = l" "unat (tx_next_pos fs) = p" "unat (tx_head fs) = h" "unat (tx_sent fs) = n"
    "l < 2147483648" "p < l" "h < l" "n + ring_dist l p h < l" by (simp_all add: tx_view_def)
  define fs' where "fs' = flow_reset_retransmit fs"
  define q where "q = (if n \<le> p then p - n else p + l - n)"
  have v': "tx_view fs' l q h 0" using flow_reset_view [OF v] by (simp add: fs'_def q_def)
  have dist: "ring_dist l q h = n + ring_dist l p h"
    using fs(5-8) by (auto simp: q_def ring_dist_def split: if_splits)
  have "unat (tx_unsent fs') = unat (tx_sent fs + tx_unsent fs)"
    using tx_view_unsent [OF v'] tx_view_unsent [OF v] dist fs by (simp add: unat_u32_add)
  then have u: "tx_unsent fs' = tx_sent fs + tx_unsent fs" by (simp only: word_unat_eq_iff)
  have le: "unat (tx_sent fs) \<le> ring_dist l q h" using dist fs(4) by simp
  note v2 = tx_advance_view(1) [OF v' le]
  have "ring_add l q n = p" using fs(5-8) by (auto simp: q_def ring_add_def ring_dist_def split: if_splits)
  then have "unat (tx_next_pos (tx_advance fs' (tx_sent fs))) = unat (tx_next_pos fs)"
      "unat (tx_sent (tx_advance fs' (tx_sent fs))) = unat (tx_sent fs)"
    using v2 fs(2,4) by (simp_all add: tx_view_def)
  then have "tx_next_pos (tx_advance fs' (tx_sent fs)) = tx_next_pos fs" "tx_sent (tx_advance fs' (tx_sent fs)) = tx_sent fs"
    by (simp_all only: word_unat_eq_iff)
  moreover have "tx_next_seq (tx_advance fs' (tx_sent fs)) = tx_next_seq fs" "tx_sent fs' = 0"
    by (simp_all add: tx_advance_def fs'_def flow_reset_retransmit_def Let_def)
  ultimately show ?thesis
    unfolding Let_def fs'_def [symmetric] using v' v2 u by (auto simp: tx_ok_def)
qed

theorem retransmit_restores_witness:
  "let fs = ex_flow\<lparr>tx_next_pos := 4, tx_sent := 30, tx_next_seq := 5030\<rparr>;
       fs2 = tx_advance (flow_reset_retransmit fs) (tx_sent fs) in
   tx_ok (flow_reset_retransmit fs) \<and> tx_next_pos (flow_reset_retransmit fs) = 38 \<and> tx_next_pos fs2 = 4"
proof -
  let ?fs = "ex_flow\<lparr>tx_next_pos := 4, tx_sent := 30, tx_next_seq := 5030\<rparr>"
  have "tx_view ?fs 64 4 20 30" by (simp add: tx_view_def ex_flow_def flowst_zero_def ring_dist_def)
  then have "tx_ok ?fs" by (auto simp: tx_ok_def)
  from retransmit_restores [OF this] show ?thesis
    unfolding Let_def by (simp add: flow_reset_retransmit_def Let_def) (simp add: ex_flow_def flowst_zero_def)
qed

section \<open>Flow lookup\<close>

text \<open>Slot \<open>j\<close> of the neighbourhood of hash \<open>h\<close> names flow \<open>fid\<close>, whose addresses are those of \<open>k\<close>.\<close>

definition slot_hit :: "dp \<Rightarrow> flow_key \<Rightarrow> u32 \<Rightarrow> nat \<Rightarrow> u32 \<Rightarrow> bool" where
  "slot_hit s k h j fid \<longleftrightarrow> (case flowht s ! (unat (h + of_nat j) mod length (flowht s)) of (ffid, eh) \<Rightarrow>
     ffid AND FLOWHTE_VALID \<noteq> 0 \<and> eh = h \<and> fid = ffid AND FLOWHTE_POSMASK \<and> key_matches (flows s ! unat fid) k)"

lemma slot_hit_fid: "slot_hit s k h j fid \<Longrightarrow>
    fid = fst (flowht s ! (unat (h + of_nat j) mod length (flowht s))) AND FLOWHTE_POSMASK"
  by (simp add: slot_hit_def split: prod.splits)

lemma flow_probe_step:
  "flow_probe s k h (j # js) =
    (let fid = fst (flowht s ! (unat (h + of_nat j) mod length (flowht s))) AND FLOWHTE_POSMASK in
     if slot_hit s k h j fid then Some fid else flow_probe s k h js)"
  by (cases "flowht s ! (unat (h + of_nat j) mod length (flowht s))") (simp add: slot_hit_def Let_def)

lemma flow_probe_some: "flow_probe s k h js = Some fid \<Longrightarrow> \<exists>j \<in> set js. slot_hit s k h j fid"
  by (induction js) (auto simp: flow_probe_step Let_def simp del: flow_probe.simps(2) split: if_splits)

lemma flow_probe_none: "flow_probe s k h js = None \<Longrightarrow> j \<in> set js \<Longrightarrow> \<not> slot_hit s k h j fid"
  by (induction js) (auto simp: flow_probe_step Let_def dest: slot_hit_fid simp del: flow_probe.simps(2) split: if_splits)

text \<open>
  C17: \<open>fast_flow_lookup\<close> returns a flow of the hash neighbourhood with the packet's addresses, and reports a
  miss only if no slot of the neighbourhood has one.
\<close>

theorem fast_flow_lookup_correct:
  "case fast_flow_lookup e s k of
     Some fid \<Rightarrow> key_matches (flows s ! unat fid) k \<and> (\<exists>j < 4. slot_hit s k (flow_hash e k) j fid)
   | None \<Rightarrow> \<not> (\<exists>j < 4. \<exists>fid. slot_hit s k (flow_hash e k) j fid)"
proof (cases "fast_flow_lookup e s k")
  case None
  then show ?thesis using flow_probe_none [of s k "flow_hash e k" "[0..<4]"] by (auto simp: fast_flow_lookup_def)
next
  case (Some fid)
  then obtain j where "j < 4" "slot_hit s k (flow_hash e k) j fid"
    using flow_probe_some [of s k "flow_hash e k" "[0..<4]" fid] by (auto simp: fast_flow_lookup_def)
  then show ?thesis using Some by (auto simp: slot_hit_def split: prod.splits)
qed

text \<open>
  The batched lookup with prefetching gives for every packet what the plain lookup gives.
\<close>

theorem packet_fss_lookup:
  "fast_flows_packet_fss e s ps = map (\<lambda>p. fast_flow_lookup e s (pkt_key p)) ps"
  by (induction ps) (simp_all add: fast_flows_packet_fss_def fast_flow_lookup_def)

section \<open>Runs of the fast path\<close>

text \<open>What the application promises when it bumps its queue pointers.\<close>

definition bump_args_ok :: "flowst \<Rightarrow> u32 \<Rightarrow> u32 \<Rightarrow> bool" where
  "bump_args_ok fs rx_tail tx_hd \<longleftrightarrow> tx_ok (fs\<lparr>tx_head := tx_hd\<rparr>) \<and> bump_rx_avail fs rx_tail \<le> rx_len fs"

definition dp_inv :: "dp \<Rightarrow> bool" where
  "dp_inv s \<longleftrightarrow> dp_ok s \<and> (\<forall>fs \<in> set (flows s). flow_ok s fs) \<and> length (txq s) \<le> TXBUF_SIZE"

lemma dp_inv_flow: "dp_inv s \<Longrightarrow> i < length (flows s) \<Longrightarrow> flow_ok s (flows s ! i)"
  by (simp add: dp_inv_def)

text \<open>Replacing one good flow state keeps the invariant, whatever happens to the rest of the state as long as the sizes are kept.\<close>

lemma dp_inv_update:
  assumes "dp_inv s" "dp_ok s'" "flows s' = (flows s)[i := fs]" "flow_ok s' fs" "length (dmem s') = length (dmem s)"
    "length (queues (qm s')) = length (queues (qm s))" "steering s' = steering s" "length (txq s') \<le> TXBUF_SIZE"
  shows "dp_inv s'"
proof -
  have "flow_ok s' g" if "g \<in> set (flows s)" for g
    using assms(1,5,6,7) that flow_ok_sizes [of s g s'] by (simp add: dp_inv_def)
  then show ?thesis
    using assms(2-4,8) set_update_subset_insert [of "flows s" i fs] by (auto simp: dp_inv_def)
qed

lemma qset_inv:
  assumes "dp_inv s" "unat qid < length (queues (qm s))"
  shows "\<exists>t. qset s qid rate avail mc opq flags = Inr (s\<lparr>qm := t\<rparr>) \<and> dp_inv (s\<lparr>qm := t\<rparr>) \<and>
    length (queues t) = length (queues (qm s))"
proof -
  obtain t where t: "qset s qid rate avail mc opq flags = Inr (s\<lparr>qm := t\<rparr>)" "dp_ok (s\<lparr>qm := t\<rparr>)"
      "length (queues t) = length (queues (qm s))"
    using qset_ok [of s qid rate avail mc opq flags] assms by (auto simp: dp_inv_def)
  have "flow_ok (s\<lparr>qm := t\<rparr>) fs" if "flow_ok s fs" for fs
    using flow_ok_sizes [OF that] t(3) by simp
  then show ?thesis using t assms(1) by (auto simp: dp_inv_def)
qed

lemma dp_inv_putfs:
  assumes "dp_inv s" "flow_ok s fs"
  shows "dp_inv (putfs s fid fs)"
  using assms by (intro dp_inv_update [OF assms(1)])
    (auto simp: dp_inv_def putfs_ok intro: flow_ok_sizes [OF assms(2)])

lemma dp_inv_txq: "dp_inv s \<Longrightarrow> length q \<le> TXBUF_SIZE \<Longrightarrow> dp_inv (s\<lparr>txq := q\<rparr>)"
  by (simp add: dp_inv_def dp_ok_def flow_ok_def)

lemma fast_flows_qman_fwd_ok:
  assumes "dp_inv s" "unat fid < length (flows s)"
  shows "\<exists>s'. fast_flows_qman_fwd s fid = Inr s' \<and> dp_inv s' \<and> flows s' = flows s"
  using qset_inv [OF assms(1)] dp_inv_flow [OF assms] unfolding fast_flows_qman_fwd_def Let_def flow_ok_def by fastforce

lemma fast_flows_retransmit_ok:
  assumes "dp_inv s" "unat fid < length (flows s)"
  shows "\<exists>s'. fast_flows_retransmit s fid = Inr s' \<and> dp_inv s'"
proof -
  let ?f = "flows s ! unat fid"
  have f: "flow_ok s ?f" by (rule dp_inv_flow [OF assms])
  have r: "flow_ok s (flow_reset_retransmit ?f)"
    using f flow_ok_rxpart [OF rxpart_reset, of ?f s] flow_reset_ok by (simp add: flow_ok_def)
  have i: "dp_inv (putfs s fid (flow_reset_retransmit ?f))" by (rule dp_inv_putfs [OF assms(1) r])
  have "unat (qman_qid (flow_reset_retransmit ?f)) < length (queues (qm (putfs s fid (flow_reset_retransmit ?f))))"
    using r by (simp add: flow_ok_def)
  note q = qset_inv [OF i this]
  show ?thesis
  proof (cases "tx_sent ?f \<noteq> 0 \<and> tcp_txavail (flow_reset_retransmit ?f) None > tcp_txavail ?f None")
    case True
    then show ?thesis
      unfolding fast_flows_retransmit_def Let_def
      using q [of "tx_rate (flow_reset_retransmit ?f)"
          "tcp_txavail (flow_reset_retransmit ?f) None - tcp_txavail ?f None" "ucast TCP_MSS" APP_QMAN_FLOW QF_ADD]
      by auto
  qed (use i assms(1) in \<open>auto simp: fast_flows_retransmit_def Let_def\<close>)
qed

lemma bump_rx_avail_seq [simp]: "bump_rx_avail (fs\<lparr>bump_seq := b\<rparr>) t = bump_rx_avail fs t"
  by (simp add: bump_rx_avail_def Let_def)

lemma flow_ok_bump:
  assumes "flow_ok s fs" "bump_args_ok fs rx_tail tx_hd"
  shows "flow_ok s (fs\<lparr>bump_seq := b, tx_head := tx_hd, rx_avail := bump_rx_avail fs rx_tail\<rparr>)"
  using assms by (auto simp: flow_ok_def bump_args_ok_def rx_ok_def rx_mem_ok_def rx_buf_def tx_mem_ok_def tx_ok_def tx_view_def)

lemma flast_flows_bump_ok:
  assumes inv: "dp_inv s" and fid: "unat fid < length (flows s)" and q: "length (txq s) < TXBUF_SIZE"
    and args: "bump_args_ok (flows s ! unat fid) rx_tail tx_hd"
  shows "\<exists>s' r. flast_flows_bump e s fid bs rx_tail tx_hd ts = Inr (s', r) \<and> dp_inv s'"
proof (cases "bump_stale bs (bump_seq (flows s ! unat fid))")
  case True
  then show ?thesis using inv by (simp add: flast_flows_bump_def Let_def)
next
  case False
  define f where "f = flows s ! unat fid"
  define f1 where "f1 = f\<lparr>bump_seq := bs\<rparr>"
  define old where "old = tcp_txavail f1 None"
  define new where "new = tcp_txavail f1 (Some tx_hd)"
  define f2 where "f2 = f1\<lparr>tx_head := tx_hd, rx_avail := bump_rx_avail f1 rx_tail\<rparr>"
  have fok: "flow_ok s f" using dp_inv_flow [OF inv fid] by (simp add: f_def)
  have no: "\<not> objconn f1" and qid: "unat (qman_qid f1) < length (queues (qm s))"
    using fok by (simp_all add: flow_ok_def f1_def)
  have f2: "flow_ok s f2"
    using flow_ok_bump [OF fok args [folded f_def], of bs] by (simp add: f2_def f1_def)
  obtain s1 where s1: "(if old < new then qset s (qman_qid f1) (tx_rate f1) (new - old) (ucast TCP_MSS) APP_QMAN_FLOW QF_ADD
      else Inr s) = Inr s1" "dp_inv s1" "dmem s1 = dmem s" "length (queues (qm s1)) = length (queues (qm s))" "txq s1 = txq s"
    "steering s1 = steering s"
    using qset_inv [OF inv qid, of "tx_rate f1" "new - old" "ucast TCP_MSS" APP_QMAN_FLOW QF_ADD] inv by (cases "old < new") auto
  have f2s: "flow_ok s1 f2" using flow_ok_sizes [OF f2] s1 by simp
  have i: "dp_inv (putfs s1 fid f2)" by (rule dp_inv_putfs [OF s1(2) f2s])
  have eq: "flast_flows_bump e s fid bs rx_tail tx_hd ts =
    (if new = 0 \<and> rx_avail f1 = 0 \<and> rx_avail f2 \<noteq> 0 then
       bind_res (flow_tx_segment e (putfs s1 fid f2) f2 (tx_next_seq f2) (rx_next_seq f2) (rx_avail f2) 0 0 (tx_next_ts f2) ts)
         (\<lambda>s. Inr (s, 0))
     else Inr (putfs s1 fid f2, -1))"
    using False no s1(1) unfolding flast_flows_bump_def Let_def f_def [symmetric] f1_def [symmetric]
    unfolding old_def [symmetric] new_def [symmetric] f2_def [symmetric] by simp
  have "\<exists>p. flow_tx_segment e (putfs s1 fid f2) f2 (tx_next_seq f2) (rx_next_seq f2) (rx_avail f2) 0 0 (tx_next_ts f2) ts
      = Inr ((putfs s1 fid f2)\<lparr>txq := txq s1 @ [pkt_bytes p]\<rparr>)"
    using flow_tx_segment_ok [of "putfs s1 fid f2" f2 0 0 e "tx_next_seq f2" "rx_next_seq f2" "rx_avail f2" "tx_next_ts f2" ts]
      f2s q s1(5) by (auto simp: flow_ok_def tx_ok_def tx_view_def)
  then show ?thesis
    unfolding eq using i dp_inv_txq [OF i] q s1(5) by auto
qed


lemma fast_flows_qman_ok:
  assumes inv: "dp_inv s" and q: "length (txq s) < TXBUF_SIZE"
    and qu: "unat queue < length (qmant s)" and fid: "unat (qmant s ! unat queue AND 0x3FFFFFFF) < length (flows s)"
    and ring: "\<And>c. ring_ok e c (fwd s)"
  shows "\<exists>s' r. fast_flows_qman e s queue ts = Inr (s', r) \<and> dp_inv s'"
proof -
  define i where "i = qmant s ! unat queue AND 0x3FFFFFFF"
  define f where "f = flows s ! unat i"
  define c where "c = steering s ! unat (flow_group f)"
  have i: "unat i < length (flows s)" using fid by (simp add: i_def)
  have fok: "flow_ok s f" using dp_inv_flow [OF inv i] by (simp add: f_def)
  have grp: "unat (flow_group f) < length (steering s)" using fok by (simp add: flow_ok_def)
  then have "c \<in> set (steering s)" by (simp add: c_def)
  then have core: "unat c < length (kctxs s)" using inv by (auto simp: dp_inv_def dp_ok_def)
  consider "ucast c \<noteq> core_id s" | "ucast c = core_id s" "tcp_txavail f None = 0" | "ucast c = core_id s" "tcp_txavail f None \<noteq> 0"
    by blast
  then show ?thesis
  proof cases
    case 1
    let ?s = "s\<lparr>fwd := fwd s @ [(c, i)]\<rparr>"
    have "dp_inv ?s" "unat (qman_qid f) < length (queues (qm ?s))"
      using inv fok by (auto simp: dp_inv_def dp_ok_def flow_ok_def)
    from qset_inv [OF this, of 0 0 0 APP_QMAN_FLOW QF_SET] obtain t where
      t: "qset ?s (qman_qid f) 0 0 0 APP_QMAN_FLOW QF_SET = Inr (?s\<lparr>qm := t\<rparr>)" "dp_inv (?s\<lparr>qm := t\<rparr>)"
      by auto
    have d: "dp_inv (?s\<lparr>qm := t, kctxs := (kctxs s)[n := k], kicks := z\<rparr>)" for n k z
      using t(2) by (auto simp: dp_inv_def dp_ok_def flow_ok_def)
    show ?thesis
      unfolding fast_flows_qman_def i_def [symmetric] Let_def f_def [symmetric] c_def [symmetric]
      using 1 ring t(1) d qu i grp core by (simp split: prod.splits)
  next
    case 2
    then show ?thesis
      using inv qu i grp by (simp add: fast_flows_qman_def Let_def flip: i_def f_def c_def)
  next
    case 3
    obtain p s' where r: "fast_flows_qman e s queue ts = Inr (s', 0)" "dp_ok s'" "flow_ok s' (flows s' ! unat i)"
        "s' = s\<lparr>flows := (flows s)[unat i := tx_advance f (of_nat (min 1448 (unat (tcp_txavail f None))))],
                txq := txq s @ [pkt_bytes p]\<rparr>"
      using fast_flows_qman_send [of s queue i e ts] inv i fok 3 q qu
      by (auto simp: Let_def dp_inv_def i_def f_def [symmetric] c_def [symmetric] simp flip: i_def)
    have "dp_inv s'"
      using r i q by (intro dp_inv_update [OF inv r(2), of "unat i" "flows s' ! unat i"]) auto
    then show ?thesis using r(1) by blast
  qed
qed

text \<open>
  One critical section of the fast path on a core: a received segment, a queue manager slot, an application
  bump, a retransmission, a forwarded flow, or the transmit buffer being flushed to the NIC.  The premises are what the
  environment owes: a segment that satisfies \<open>segment_ok\<close>, an application that keeps to its rings, queue and flow
  numbers in range, room on the forwarding rings, transmit buffer space (\<open>poll_*\<close> in fastemu.c take no more work than fits the buffer).
\<close>

inductive fast_step :: "env \<Rightarrow> dp \<Rightarrow> dp \<Rightarrow> bool" for e where
  step_rx: "\<lbrakk>unat fid < length (flows s); length (txq s) < TXBUF_SIZE; segment_ok (flows s ! unat fid) p len;
    tcp_parse_options OPT_FUEL p len \<noteq> None; fast_flows_packet e s p len fid ts = Inr (s', p', r)\<rbrakk> \<Longrightarrow> fast_step e s s'"
| step_qman: "\<lbrakk>unat queue < length (qmant s); unat (qmant s ! unat queue AND 0x3FFFFFFF) < length (flows s); length (txq s) < TXBUF_SIZE;
    \<And>c. ring_ok e c (fwd s); fast_flows_qman e s queue ts = Inr (s', r)\<rbrakk> \<Longrightarrow> fast_step e s s'"
| step_bump: "\<lbrakk>unat fid < length (flows s); length (txq s) < TXBUF_SIZE; bump_args_ok (flows s ! unat fid) rx_tail tx_hd;
    flast_flows_bump e s fid bs rx_tail tx_hd ts = Inr (s', r)\<rbrakk> \<Longrightarrow> fast_step e s s'"
| step_retransmit: "\<lbrakk>unat fid < length (flows s); fast_flows_retransmit s fid = Inr s'\<rbrakk> \<Longrightarrow> fast_step e s s'"
| step_fwd: "\<lbrakk>unat fid < length (flows s); fast_flows_qman_fwd s fid = Inr s'\<rbrakk> \<Longrightarrow> fast_step e s s'"
| step_flush: "fast_step e s (s\<lparr>txq := []\<rparr>)"
| step_time: "fast_step e s (s\<lparr>now_us := t\<rparr>)"

lemma fast_step_inv:
  assumes "fast_step e s s'" "dp_inv s"
  shows "dp_inv s'"
  using assms
proof cases
  case (step_rx fid p len ts p' r)
  obtain R s2 p2 r2 fs' where x: "fast_flows_packet e s p len fid ts = Inr (s2, p2, r2)" "rx_result R s s2 fid fs'" "flow_ok s2 fs'"
    using fast_flows_packet_ok [of s fid p len e ts] dp_inv_flow [OF assms(2) step_rx(1)] step_rx assms(2)
    by (auto simp: dp_inv_def)
  then have "dp_inv s2"
    using step_rx(2) rx_result_length [OF x(2)]
    by (intro dp_inv_update [OF assms(2), of s2 "unat fid" fs']) (auto simp: rx_result_def)
  then show ?thesis using x(1) step_rx(5) by simp
next
  case (step_qman queue ts r)
  then show ?thesis using fast_flows_qman_ok [OF assms(2), of queue e ts] by auto
next
  case (step_bump fid rx_tail tx_hd bs ts r)
  then show ?thesis using flast_flows_bump_ok [OF assms(2), of fid rx_tail tx_hd e bs ts] by auto
next
  case (step_retransmit fid)
  then show ?thesis using fast_flows_retransmit_ok [OF assms(2), of fid] by auto
next
  case (step_fwd fid)
  then show ?thesis using fast_flows_qman_fwd_ok [OF assms(2), of fid] by auto
next
  case step_flush
  then show ?thesis using assms(2) by (auto intro: dp_inv_txq)
next
  case (step_time t)
  then show ?thesis using assms(2) by (simp add: dp_inv_def dp_ok_def flow_ok_def)
qed

text \<open>
  C12: in every run of critical sections of the fast path on a core, in any order, whose inputs meet the premises
  of \<open>fast_step\<close>, the queue manager's lists, the application queues and the rings of every flow stay well formed
  and the transmit buffer within its size.  The premises are conditions the code does not establish itself: a
  segment covers its headers and does not cross sequence number \<open>2^32\<close>, the out-of-order interval the flow has
  stored is shorter than 64K and does not cross it either (\<open>segment_ok\<close>); the application keeps to its rings
  (\<open>bump_args_ok\<close>); queue and flow numbers are in range, the forwarding ring has room and a segment finds space
  in the transmit buffer.  Object connections are excluded by \<open>dp_inv\<close>.
\<close>

theorem fast_path_invariant:
  assumes "(fast_step e)\<^sup>*\<^sup>* s s'" "dp_inv s"
  shows "dp_inv s'"
  using assms by (induction rule: rtranclp_induct) (auto intro: fast_step_inv)

lemma ex_dp_inv: "dp_inv ex_dp"
  using ex_dp_ok ex_flow_ok by (simp add: dp_inv_def ex_dp_def)

theorem fast_path_invariant_witness:
  "\<exists>s'. (fast_step ex_env)\<^sup>*\<^sup>* ex_dp s' \<and> dp_inv s' \<and> length (txq s') = 1"
proof -
  have f: "flows ex_dp ! unat (0 :: u32) = ex_flow" by (simp add: ex_dp_def)
  obtain p s' where r: "fast_flows_qman ex_env ex_dp 0 99 = Inr (s', 0)" "txq s' = [pkt_bytes p]"
    using fast_flows_qman_send [of ex_dp 0 0 ex_env 99] ex_dp_ok ex_flow_ok unfolding Let_def f
    by (auto simp: ex_dp_def ex_flow_def flowst_zero_def tcp_txavail_def)
  have "fast_step ex_env ex_dp s'"
    by (rule step_qman [OF _ _ _ _ r(1)]) (simp_all add: ex_dp_def ex_env_def)
  then have "(fast_step ex_env)\<^sup>*\<^sup>* ex_dp s'" by blast
  then show ?thesis using fast_path_invariant [OF _ ex_dp_inv] r(2) by auto
qed

text \<open>
  C13: in a state that satisfies the invariant, and with transmit buffer space, no critical section aborts, fails
  an assertion or accesses memory out of bounds on inputs that meet the premises of \<open>fast_step\<close>.  The invariant
  says that the steering table names existing cores and that every flow group is an index of the table.
\<close>

theorem fast_path_no_abort:
  assumes "dp_inv s" "unat fid < length (flows s)" "length (txq s) < TXBUF_SIZE"
  shows "(segment_ok (flows s ! unat fid) p len \<and> tcp_parse_options OPT_FUEL p len \<noteq> None \<longrightarrow>
            (\<exists>s' p' r. fast_flows_packet e s p len fid ts = Inr (s', p', r) \<and> fast_step e s s')) \<and>
    (bump_args_ok (flows s ! unat fid) rx_tail tx_hd \<longrightarrow>
            (\<exists>s' r. flast_flows_bump e s fid bs rx_tail tx_hd ts = Inr (s', r) \<and> fast_step e s s')) \<and>
    (unat queue < length (qmant s) \<and> qmant s ! unat queue AND 0x3FFFFFFF = fid \<and> (\<forall>c. ring_ok e c (fwd s)) \<longrightarrow>
            (\<exists>s' r. fast_flows_qman e s queue ts = Inr (s', r) \<and> fast_step e s s')) \<and>
    (\<exists>s'. fast_flows_retransmit s fid = Inr s' \<and> fast_step e s s') \<and>
    (\<exists>s'. fast_flows_qman_fwd s fid = Inr s' \<and> fast_step e s s')"
proof (intro conjI impI)
  assume a: "segment_ok (flows s ! unat fid) p len \<and> tcp_parse_options OPT_FUEL p len \<noteq> None"
  then obtain s' p' r where x: "fast_flows_packet e s p len fid ts = Inr (s', p', r)"
    using fast_flows_packet_ok [of s fid p len e ts] dp_inv_flow [OF assms(1,2)] assms by (auto simp: dp_inv_def)
  show "\<exists>s' p' r. fast_flows_packet e s p len fid ts = Inr (s', p', r) \<and> fast_step e s s'"
    using step_rx [OF assms(2,3) _ _ x] a x by blast
next
  assume a: "bump_args_ok (flows s ! unat fid) rx_tail tx_hd"
  then show "\<exists>s' r. flast_flows_bump e s fid bs rx_tail tx_hd ts = Inr (s', r) \<and> fast_step e s s'"
    using flast_flows_bump_ok [OF assms a, of e bs ts] step_bump [OF assms(2,3) a] by blast
next
  assume a: "unat queue < length (qmant s) \<and> qmant s ! unat queue AND 0x3FFFFFFF = fid \<and> (\<forall>c. ring_ok e c (fwd s))"
  then have qu: "unat queue < length (qmant s)" and i: "unat (qmant s ! unat queue AND 0x3FFFFFFF) < length (flows s)" using assms(2) by simp_all
  show "\<exists>s' r. fast_flows_qman e s queue ts = Inr (s', r) \<and> fast_step e s s'"
    using fast_flows_qman_ok [OF assms(1,3) qu i, of e ts] step_qman [OF qu i assms(3)] a by blast
next
  show "\<exists>s'. fast_flows_retransmit s fid = Inr s' \<and> fast_step e s s'"
    using fast_flows_retransmit_ok [OF assms(1,2)] step_retransmit [OF assms(2)] by blast
  show "\<exists>s'. fast_flows_qman_fwd s fid = Inr s' \<and> fast_step e s s'"
    using fast_flows_qman_fwd_ok [OF assms(1,2)] step_fwd [OF assms(2)] by blast
qed

theorem fast_path_no_abort_witness:
  "(\<exists>s' r. flast_flows_bump ex_env ex_dp 0 1 0 40 99 = Inr (s', r) \<and> fast_step ex_env ex_dp s') \<and>
   (\<exists>s' p' r. fast_flows_packet ex_env ex_dp ex_seg 70 0 99 = Inr (s', p', r) \<and> fast_step ex_env ex_dp s')"
proof -
  have f: "flows ex_dp ! unat (0 :: u32) = ex_flow" by (simp add: ex_dp_def)
  have s: "unat (0 :: u32) < length (flows ex_dp)" "length (txq ex_dp) < TXBUF_SIZE" by (simp_all add: ex_dp_def)
  have "tx_view (ex_flow\<lparr>tx_head := 40\<rparr>) 64 0 40 0" by (simp add: tx_view_def ex_flow_def flowst_zero_def ring_dist_def)
  then have "bump_args_ok ex_flow 0 40"
    by (auto simp: bump_args_ok_def tx_ok_def) (simp add: bump_rx_avail_def ex_flow_def flowst_zero_def)
  moreover have "tcp_parse_options OPT_FUEL ex_seg 70 \<noteq> None" using ex_seg_opts by simp
  ultimately show ?thesis
    using fast_path_no_abort [OF ex_dp_inv s, of ex_seg 70 ex_env 99 0 40 1 0] ex_seg_ok unfolding f by blast
qed

end
