(* ===== verification/PacketMem.thy ===== *)
theory PacketMem
  imports Prelude "HOL-Library.Multiset"
begin

text \<open>
  The packet memory allocator of the kernel (kernel/packetmem.c): first fit over a list of free regions.
  The linked list of handles is a list of regions; \<open>sys\<close> says whether \<open>malloc\<close> gives a new handle.  The
  properties: the free and the allocated regions always partition the memory, and freed memory is not always
  merged.
\<close>

record handle =
  h_base :: u64
  h_len :: u64

section \<open>Operations\<close>

definition packetmem_init :: "u64 \<Rightarrow> bool \<Rightarrow> handle list option" where
  "packetmem_init dma_mem_size sys = (if \<not> sys then None else Some [\<lparr>h_base = 0, h_len = dma_mem_size\<rparr>])"

text \<open>The loop looking for the first fit: what lies before it, the fit, what lies behind.\<close>

fun first_fit :: "handle list \<Rightarrow> u64 \<Rightarrow> (handle list \<times> handle \<times> handle list) option" where
  "first_fit [] length' = None"
| "first_fit (ph # rest) length' =
    (if h_len ph < length' then map_option (\<lambda>(pre, x, suf). (ph # pre, x, suf)) (first_fit rest length')
     else Some ([], ph, rest))"

text \<open>\<open>None\<close> is the result -1 (no fit, or no memory for the handle); the handle carries the offset.\<close>

definition packetmem_alloc :: "handle list \<Rightarrow> u64 \<Rightarrow> bool \<Rightarrow> (handle \<times> handle list) option" where
  "packetmem_alloc freelist length' sys =
    (case first_fit freelist length' of None \<Rightarrow> None
     | Some (pre, ph, suf) \<Rightarrow>
         if h_len ph = length' then Some (ph, pre @ suf)
         else if \<not> sys then None
         else Some (\<lparr>h_base = h_base ph, h_len = length'\<rparr>,
                    pre @ \<lparr>h_base = h_base ph + length', h_len = h_len ph - length'\<rparr> # suf))"

text \<open>Iterations of the loop in \<open>packetmem_free\<close>: afterwards \<open>ph\<close> is the element at this index and \<open>ph_prev\<close> the one before it.\<close>

fun free_steps :: "handle list \<Rightarrow> u64 \<Rightarrow> nat" where
  "free_steps (ph # nx # rest) base = (if h_base nx < base then Suc (free_steps (nx # rest) base) else 0)"
| "free_steps _ base = 0"

text \<open>\<open>merge_next fl i\<close> merges the element at \<open>i\<close> with its successor if they touch.\<close>

definition merge_next :: "handle list \<Rightarrow> nat \<Rightarrow> handle list" where
  "merge_next fl i =
    (if Suc i < length fl \<and> h_base (fl ! i) + h_len (fl ! i) = h_base (fl ! Suc i)
     then take i fl @ (fl ! i)\<lparr>h_len := h_len (fl ! i) + h_len (fl ! Suc i)\<rparr> # drop (i + 2) fl
     else fl)"

text \<open>The new item is at index \<open>i\<close>; its predecessor, if any, at \<open>i - 1\<close>.\<close>

definition merge_items :: "handle list \<Rightarrow> nat \<Rightarrow> handle list" where
  "merge_items fl i =
    (if i > 0 \<and> h_base (fl ! (i - 1)) + h_len (fl ! (i - 1)) = h_base (fl ! i)
     then merge_next (merge_next fl (i - 1)) (i - 1)
     else merge_next fl i)"

definition packetmem_free :: "handle list \<Rightarrow> handle \<Rightarrow> handle list" where
  "packetmem_free freelist handle' =
    (let i = free_steps freelist (h_base handle') in
     merge_items (take i freelist @ handle' # drop i freelist) i)"

section \<open>Conservation\<close>

definition region :: "handle \<Rightarrow> nat list" where
  "region p = [unat (h_base p) ..< unat (h_base p) + unat (h_len p)]"

text \<open>A handle stays within the memory; the bytes of a list of handles, with repetitions.\<close>

definition fits :: "nat \<Rightarrow> handle \<Rightarrow> bool" where
  "fits n p \<longleftrightarrow> unat (h_base p) + unat (h_len p) \<le> n"

definition bytes_of :: "handle list \<Rightarrow> nat multiset" where
  "bytes_of ps = (\<Sum>p \<leftarrow> ps. mset (region p))"

lemma bytes_of_simps [simp]:
  "bytes_of [] = {#}" "bytes_of (p # ps) = mset (region p) + bytes_of ps" "bytes_of (ps @ qs) = bytes_of ps + bytes_of qs"
  by (simp_all add: bytes_of_def)

lemma first_fit_split:
  "first_fit fl n = Some (pre, ph, suf) \<Longrightarrow> fl = pre @ ph # suf \<and> h_len ph \<ge> n"
  by (induction fl arbitrary: pre) (auto split: if_splits)

lemma first_fit_none: "first_fit fl n = None \<longleftrightarrow> (\<forall>p \<in> set fl. h_len p < n)"
  by (induction fl) (auto split: if_splits)

lemma upt_split: "a \<le> b \<Longrightarrow> b \<le> c \<Longrightarrow> [a..<b] @ [b..<c] = [a..<c]"
  using upt_add_eq_append [of a b "c - b"] by simp

lemma region_split:
  assumes "fits n ph" "n < 2 ^ 64" "l \<le> h_len ph"
  shows "mset (region \<lparr>h_base = h_base ph, h_len = l\<rparr>) + mset (region \<lparr>h_base = h_base ph + l, h_len = h_len ph - l\<rparr>)
      = mset (region ph)"
    and "fits n \<lparr>h_base = h_base ph, h_len = l\<rparr>" "fits n \<lparr>h_base = h_base ph + l, h_len = h_len ph - l\<rparr>"
proof -
  have l: "unat l \<le> unat (h_len ph)" using assms(3) by (simp add: word_le_nat_alt)
  have u: "unat (h_base ph + l) = unat (h_base ph) + unat l" "unat (h_len ph - l) = unat (h_len ph) - unat l"
    using assms l by (simp_all add: unat_u64_add fits_def unat_sub)
  have "region \<lparr>h_base = h_base ph, h_len = l\<rparr> @ region \<lparr>h_base = h_base ph + l, h_len = h_len ph - l\<rparr> = region ph"
    using l u by (simp add: region_def upt_split)
  then show "mset (region \<lparr>h_base = h_base ph, h_len = l\<rparr>) + mset (region \<lparr>h_base = h_base ph + l, h_len = h_len ph - l\<rparr>)
      = mset (region ph)"
    by (metis mset_append)
  show "fits n \<lparr>h_base = h_base ph, h_len = l\<rparr>" "fits n \<lparr>h_base = h_base ph + l, h_len = h_len ph - l\<rparr>"
    using assms l u by (simp_all add: fits_def)
qed

lemma region_join:
  assumes "fits n p" "fits n q" "n < 2 ^ 64" "h_base p + h_len p = h_base q"
  shows "mset (region (p\<lparr>h_len := h_len p + h_len q\<rparr>)) = mset (region p) + mset (region q)"
    and "fits n (p\<lparr>h_len := h_len p + h_len q\<rparr>)"
proof -
  have b: "unat (h_base q) = unat (h_base p) + unat (h_len p)"
    using unat_u64_add [of "h_base p" "h_len p"] assms by (simp add: fits_def)
  have l: "unat (h_len p + h_len q) = unat (h_len p) + unat (h_len q)"
    using assms b by (simp add: unat_u64_add fits_def)
  have "region p @ region q = region (p\<lparr>h_len := h_len p + h_len q\<rparr>)"
    using b l by (simp add: region_def upt_split add.assoc)
  then show "mset (region (p\<lparr>h_len := h_len p + h_len q\<rparr>)) = mset (region p) + mset (region q)"
    by (metis mset_append)
  show "fits n (p\<lparr>h_len := h_len p + h_len q\<rparr>)"
    using assms(2) b l by (simp add: fits_def)
qed

lemma packetmem_alloc_ok:
  assumes "packetmem_alloc fl l sys = Some (ph, fl')" "\<forall>p \<in> set fl. fits n p" "n < 2 ^ 64"
  shows "h_len ph = l" "mset (region ph) + bytes_of fl' = bytes_of fl" "\<forall>p \<in> set (ph # fl'). fits n p"
proof -
  obtain pre x suf where x: "first_fit fl l = Some (pre, x, suf)"
    using assms(1) by (auto simp: packetmem_alloc_def split: option.splits)
  note s = first_fit_split [OF x]
  have f: "fits n x" using assms(2) s by simp
  note r = region_split [OF f assms(3)]
  have "h_len ph = l \<and> mset (region ph) + bytes_of fl' = bytes_of fl \<and> (\<forall>p \<in> set (ph # fl'). fits n p)"
    using assms(1,2) s r [of l] f unfolding packetmem_alloc_def x
    by (auto split: if_splits simp: ac_simps)
  then show "h_len ph = l" "mset (region ph) + bytes_of fl' = bytes_of fl" "\<forall>p \<in> set (ph # fl'). fits n p" by auto
qed

lemma merge_next_ok:
  assumes "\<forall>p \<in> set fl. fits n p" "n < 2 ^ 64"
  shows "bytes_of (merge_next fl i) = bytes_of fl" "\<forall>p \<in> set (merge_next fl i). fits n p"
proof -
  have "bytes_of (merge_next fl i) = bytes_of fl \<and> (\<forall>p \<in> set (merge_next fl i). fits n p)"
  proof (cases "Suc i < length fl \<and> h_base (fl ! i) + h_len (fl ! i) = h_base (fl ! Suc i)")
    case True
    let ?p = "fl ! i" and ?q = "fl ! Suc i"
    have e: "fl = take i fl @ ?p # ?q # drop (i + 2) fl"
      using True by (simp add: Cons_nth_drop_Suc)
    have "fits n ?p" "fits n ?q" using assms(1) True by simp_all
    note j = region_join [OF this assms(2)]
    have "bytes_of fl = bytes_of (take i fl) + (mset (region ?p) + (mset (region ?q) + bytes_of (drop (i + 2) fl)))"
      by (subst e) simp
    then show ?thesis
      using True j assms(1) by (auto simp: merge_next_def ac_simps dest: in_set_takeD in_set_dropD)
  qed (use assms in \<open>auto simp: merge_next_def\<close>)
  then show "bytes_of (merge_next fl i) = bytes_of fl" "\<forall>p \<in> set (merge_next fl i). fits n p" by auto
qed

lemma merge_items_ok:
  assumes "\<forall>p \<in> set fl. fits n p" "n < 2 ^ 64"
  shows "bytes_of (merge_items fl i) = bytes_of fl" "\<forall>p \<in> set (merge_items fl i). fits n p"
  using merge_next_ok [OF assms] merge_next_ok [OF merge_next_ok(2) [OF assms] assms(2)]
  by (auto simp: merge_items_def)

lemma packetmem_free_ok:
  assumes "\<forall>p \<in> set fl. fits n p" "fits n ph" "n < 2 ^ 64"
  shows "bytes_of (packetmem_free fl ph) = mset (region ph) + bytes_of fl" "\<forall>p \<in> set (packetmem_free fl ph). fits n p"
proof -
  define i where "i = free_steps fl (h_base ph)"
  have f: "\<forall>p \<in> set (take i fl @ ph # drop i fl). fits n p"
    using assms(1,2) by (auto dest: in_set_takeD in_set_dropD)
  have "bytes_of (take i fl) + bytes_of (drop i fl) = bytes_of fl"
    by (metis append_take_drop_id bytes_of_simps(3))
  then show "bytes_of (packetmem_free fl ph) = mset (region ph) + bytes_of fl" "\<forall>p \<in> set (packetmem_free fl ph). fits n p"
    using merge_items_ok [OF f assms(3), of i] by (simp_all add: packetmem_free_def Let_def i_def [symmetric] ac_simps)
qed

section \<open>Runs\<close>

text \<open>The allocator with the regions that are allocated; a handle that is freed was allocated.\<close>

inductive pm_reach :: "u64 \<Rightarrow> handle list \<Rightarrow> handle list \<Rightarrow> bool" for sz where
  pm_init: "packetmem_init sz sys = Some fl \<Longrightarrow> pm_reach sz fl []"
| pm_alloc: "pm_reach sz fl used \<Longrightarrow> packetmem_alloc fl l sys = Some (ph, fl') \<Longrightarrow> pm_reach sz fl' (ph # used)"
| pm_free: "pm_reach sz fl (a @ ph # b) \<Longrightarrow> pm_reach sz (packetmem_free fl ph) (a @ b)"

lemma pm_reach_bytes:
  assumes "pm_reach sz fl used"
  shows "bytes_of (fl @ used) = mset [0..<unat sz] \<and> (\<forall>p \<in> set (fl @ used). fits (unat sz) p)"
  using assms
proof induction
  case (pm_init sys fl)
  then show ?case by (auto simp: packetmem_init_def region_def fits_def split: if_splits)
next
  case (pm_alloc fl used l sys ph fl')
  have b: "unat sz < 2 ^ 64" using unsigned_less [of sz, where 'a = nat] by simp
  have "\<forall>p \<in> set fl. fits (unat sz) p" using pm_alloc.IH by simp
  note a = packetmem_alloc_ok [OF pm_alloc(2) this b]
  have "bytes_of (fl' @ ph # used) = bytes_of (fl @ used)" by (simp flip: a(2) add: ac_simps)
  then show ?case using pm_alloc.IH a(3) by (auto simp del: bytes_of_simps)
next
  case (pm_free fl a ph b)
  have s: "unat sz < 2 ^ 64" using unsigned_less [of sz, where 'a = nat] by simp
  have "\<forall>p \<in> set fl. fits (unat sz) p" "fits (unat sz) ph" using pm_free.IH by auto
  note f = packetmem_free_ok [OF this s]
  have "bytes_of (packetmem_free fl ph @ a @ b) = bytes_of (fl @ a @ ph # b)" by (simp add: f(1) ac_simps)
  then show ?case using pm_free.IH f(2) by (auto simp del: bytes_of_simps)
qed

lemma sum_mset_disjoint:
  assumes "bytes_of ps = mset xs" "distinct xs" "i < j" "j < length ps"
  shows "set (region (ps ! i)) \<inter> set (region (ps ! j)) = {}"
proof -
  have e: "ps = take i ps @ ps ! i # drop (Suc i) ps"
    using assms(3,4) by (simp add: id_take_nth_drop)
  have "ps ! j \<in> set (drop (Suc i) ps)"
    using assms(3,4) by (auto simp: in_set_conv_nth intro!: exI [of _ "j - Suc i"])
  then obtain a b where d: "drop (Suc i) ps = a @ ps ! j # b" by (meson split_list)
  have "mset (region (ps ! i)) + mset (region (ps ! j)) \<subseteq># bytes_of ps"
    by (subst e, subst d) (simp add: subset_mset.add_increasing subset_mset.add_increasing2)
  then have "mset (region (ps ! i) @ region (ps ! j)) \<subseteq># mset xs" using assms(1) by simp
  then obtain ys where "mset xs = mset (region (ps ! i) @ region (ps ! j) @ ys)"
    by (auto simp: mset_subset_eq_exists_conv) (metis add.assoc ex_mset)
  then have "distinct (region (ps ! i) @ region (ps ! j) @ ys)"
    using assms(2) mset_eq_imp_distinct_iff by blast
  then show ?thesis by auto
qed

text \<open>
  C22: in every run of the allocator the free and the allocated regions partition the packet memory: each
  byte lies in exactly one of them, so two buffers never share memory and none is lost.
\<close>

theorem packetmem_partition:
  assumes "pm_reach sz fl used"
  shows "bytes_of (fl @ used) = mset [0..<unat sz] \<and>
    (\<forall>i j. i < j \<and> j < length (fl @ used) \<longrightarrow> set (region ((fl @ used) ! i)) \<inter> set (region ((fl @ used) ! j)) = {})"
  using pm_reach_bytes [OF assms] sum_mset_disjoint [of "fl @ used" "[0..<unat sz]"] by auto

theorem packetmem_partition_witness:
  "\<exists>fl used. pm_reach 100 fl used \<and> length used = 2 \<and> bytes_of (fl @ used) = mset [0..<100]"
proof -
  have "pm_reach 100 [\<lparr>h_base = 0, h_len = 100\<rparr>] []" by (rule pm_init [of _ True]) (simp add: packetmem_init_def)
  then have "pm_reach 100 [\<lparr>h_base = 60, h_len = 40\<rparr>] [\<lparr>h_base = 0, h_len = 60\<rparr>]"
    by (rule pm_alloc [of _ _ _ 60 True]) (simp add: packetmem_alloc_def)
  then have r: "pm_reach 100 [\<lparr>h_base = 80, h_len = 20\<rparr>] [\<lparr>h_base = 60, h_len = 20\<rparr>, \<lparr>h_base = 0, h_len = 60\<rparr>]"
    by (rule pm_alloc [of _ _ _ 20 True]) (simp add: packetmem_alloc_def)
  show ?thesis using packetmem_partition [OF r] r by fastforce
qed

text \<open>
  Freeing does not always merge neighbours.  With at least two regions free, a region that lies between the
  first two is put in front of the first, and merges with neither even if it touches both.
\<close>

theorem packetmem_free_fragments:
  assumes "h_base a + h_len a = h_base ph" "h_base ph + h_len ph = h_base b" "h_base ph \<le> h_base b"
    and "h_base a < h_base b"
  shows "packetmem_free (a # b # fl) ph = ph # a # b # fl"
proof -
  have "\<not> h_base b < h_base ph" using assms(3) by simp
  moreover have "h_base ph + h_len ph \<noteq> h_base a" using assms(2,4) by auto
  ultimately show ?thesis by (simp add: packetmem_free_def merge_items_def merge_next_def)
qed


theorem packetmem_free_fragments_witness:
  "packetmem_alloc (packetmem_free [\<lparr>h_base = 0, h_len = 60\<rparr>, \<lparr>h_base = 80, h_len = 20\<rparr>] \<lparr>h_base = 60, h_len = 20\<rparr>) 100 True = None"
  using packetmem_free_fragments [of "\<lparr>h_base = 0, h_len = 60\<rparr>" "\<lparr>h_base = 60, h_len = 20\<rparr>" "\<lparr>h_base = 80, h_len = 20\<rparr>" "[]"]
  by (simp add: packetmem_alloc_def)

end
