(* ===== verification/KernelBase.thy ===== *)
theory KernelBase
  imports FastBase PacketMem
begin

unbundle bit_operations_syntax

text \<open>
  Data the kernel's components share (kernel/internal.h): the configuration, connections, and the statistics a
  connection's flow state gives the congestion control.
\<close>

section \<open>Configuration\<close>

datatype config_cc_algorithm = CONFIG_CC_DCTCP_WIN | CONFIG_CC_DCTCP_RATE | CONFIG_CC_TIMELY | CONFIG_CC_CONST_RATE

record configuration =
  nic_rx_len :: u64
  nic_tx_len :: u64
  tcp_rxbuf_len :: u64
  tcp_txbuf_len :: u64
  tcp_rtt_init :: u32
  tcp_link_bw :: u32
  tcp_handshake_to :: u32
  tcp_handshake_retries :: u32
  cf_ip :: u32
  cf_ip_prefix :: u8
  arp_to :: u32
  arp_to_max :: u32
  cc_algorithm :: config_cc_algorithm
  cc_control_granularity :: u32
  cc_control_interval :: u32
  cc_rexmit_ints :: u32
  cc_dctcp_weight :: u32
  cc_dctcp_init :: u32
  cc_dctcp_step :: u32
  cc_dctcp_mimd :: u32
  cc_dctcp_min :: u32
  cc_dctcp_minpkts :: u32
  cc_const_rate :: u32
  cc_timely_tlow :: u32
  cc_timely_thigh :: u32
  cc_timely_step :: u32
  cc_timely_init :: u32
  cc_timely_alpha :: u32
  cc_timely_beta :: u32
  cc_timely_min_rtt :: u32
  cc_timely_min_rate :: u32

section \<open>Connections\<close>

datatype connection_status = CONN_SYN_WAIT | CONN_ARP_PENDING | CONN_SYN_SENT | CONN_REG_SYNACK | CONN_OPEN | CONN_FAILED

record cc_dctcp_win =
  dw_ecn_rate :: u32
  dw_window :: u32
  dw_slowstart :: bool

record cc_dctcp_rate =
  dr_unproc_acks :: u32
  dr_unproc_ackb :: u32
  dr_unproc_ecn :: u32
  dr_unproc_drops :: u32
  dr_ecn_rate :: u32
  dr_act_rate :: u32
  dr_slowstart :: bool

text \<open>\<open>rtt_diff\<close> is an \<open>int32_t\<close>, here its value.\<close>

record cc_timely =
  tm_rtt_prev :: u32
  tm_rtt_diff :: int
  tm_hai_cnt :: u32
  tm_act_rate :: u32
  tm_last_ts :: u32
  tm_slowstart :: bool

text \<open>
  \<open>struct connection\<close>.  The union of the algorithms' data is three fields, of which a run uses the one its
  configuration selects; buffers are the regions of packet memory; links between connections are lists of
  the states that own them.
\<close>

record connection =
  c_opaque :: u64
  c_ctx :: nat
  c_db_id :: u32
  c_rx_handle :: handle
  c_tx_handle :: handle
  c_rx_len :: u32
  c_tx_len :: u32
  c_remote_mac :: u64
  c_remote_ip :: u32
  c_local_ip :: u32
  c_remote_port :: u16
  c_local_port :: u16
  c_status :: connection_status
  c_remote_seq :: u32
  c_local_seq :: u32
  c_linux_seq :: u32
  c_syn_ts :: u32
  c_syn_ecr :: u32
  c_timeout :: u32
  c_to_attempts :: u32
  c_to_armed :: bool
  cc_last_ts :: u32
  cc_rtt :: u32
  cc_rate :: u32
  cc_rexmits :: u32
  cc_win :: cc_dctcp_win
  cc_tim :: cc_timely
  cc_drate :: cc_dctcp_rate
  cnt_tx_pending :: u32
  ts_tx_pending :: u32
  comp_status :: int
  c_flow_id :: u32
  c_fn_core :: u32
  c_flags :: u32
  c_flow_group :: u16

record conn_stats =
  st_drops :: u32
  st_acks :: u32
  st_ackb :: u32
  st_ecn :: u32
  st_txp :: bool
  st_rtt :: u32

abbreviation NICIF_CONN_OBJCONN :: u32 where "NICIF_CONN_OBJCONN \<equiv> 1"
abbreviation NICIF_CONN_OBJNOHASH :: u32 where "NICIF_CONN_OBJNOHASH \<equiv> 2"
abbreviation NICIF_CONN_ECN :: u32 where "NICIF_CONN_ECN \<equiv> 4"

text \<open>Division of machine integers, which traps on zero.\<close>

definition cdiv :: "'a::len word \<Rightarrow> 'a word \<Rightarrow> 'a word res" where
  "cdiv a b = (if b = 0 then Inl Div_zero else Inr (a div b))"

lemma cdiv_Inr [simp]: "b \<noteq> 0 \<Longrightarrow> cdiv a b = Inr (a div b)"
  by (simp add: cdiv_def)

end
