(* ===== verification/Nicif.thy ===== *)
theory Nicif
  imports KernelBase
begin

unbundle bit_operations_syntax

text \<open>
  The kernel's interface to the NIC (kernel/nicif.c): registering contexts and flows in the NIC memory, the hash
  table of flows, the queues between kernel and fast path, statistics and rates.  \<open>nic\<close> is the shared NIC and
  DMA memory, the state the fast path of \<open>FastFlows\<close> runs on.
\<close>

record nicif =
  nic :: dp
  fn_cores :: u32
  flow_id_next :: u32
  qman_queues :: "u32 list list"
  qman_ctx_core :: u32
  rxq_bufs :: "u64 list list"
  rxq_base :: "u64 list"
  rxq_len :: u32
  rxq_tail :: "u32 list"
  rxq_next :: u32
  txq_bufs :: "u64 list list"
  txq_base :: "u64 list"
  txq_len :: u32
  txq_tail :: "u32 list"
  freelist :: "handle list"

abbreviation PKTBUF_SIZE :: u64 where "PKTBUF_SIZE \<equiv> 1536"
abbreviation QMANTE_TYPEACTX :: u32 where "QMANTE_TYPEACTX \<equiv> 0"
abbreviation QMANTE_TYPEFLOW :: u32 where "QMANTE_TYPEFLOW \<equiv> 0x40000000"
abbreviation POSSHIFT :: nat where "POSSHIFT \<equiv> 29"

section \<open>Queue manager queues\<close>

text \<open>The loop of \<open>nicif_init\<close> over \<open>i = qmq_num - 1, ..., 1\<close> that deals the queue ids to the cores.\<close>

fun qman_queues_init :: "nat \<Rightarrow> u32 \<Rightarrow> u32 list list \<Rightarrow> u32 list list" where
  "qman_queues_init 0 cores qs = qs"
| "qman_queues_init (Suc n) cores qs =
    (if n = 0 then qs
     else let c = unat ((of_nat n :: u32) mod cores) in qman_queues_init n cores (qs[c := of_nat n # qs ! c]))"

text \<open>The \<open>do .. while\<close> loop: at most \<open>fn_cores\<close> rounds, starting at the next core in turn.\<close>

fun qman_alloc_rounds :: "nat \<Rightarrow> nicif \<Rightarrow> u32 option \<times> nicif" where
  "qman_alloc_rounds 0 n = (None, n)"
| "qman_alloc_rounds (Suc k) n =
    (let c = unat (qman_ctx_core n); n' = n\<lparr>qman_ctx_core := (qman_ctx_core n + 1) mod fn_cores n\<rparr> in
     case qman_queues n ! c of
       q # qs \<Rightarrow> (Some q, n'\<lparr>qman_queues := (qman_queues n)[c := qs]\<rparr>)
     | [] \<Rightarrow> qman_alloc_rounds k n')"

definition qman_alloc_ctx :: "nicif \<Rightarrow> u32 option \<times> nicif" where
  "qman_alloc_ctx n = qman_alloc_rounds (unat (fn_cores n)) n"

definition qman_alloc_flow :: "nicif \<Rightarrow> u32 \<Rightarrow> (u32 option \<times> nicif) res" where
  "qman_alloc_flow n core =
    (if \<not> core < fn_cores n then Inl Assert_fail
     else case qman_queues n ! unat core of
       [] \<Rightarrow> Inr (None, n)
     | q # qs \<Rightarrow> Inr (Some q, n\<lparr>qman_queues := (qman_queues n)[unat core := qs]\<rparr>))"

section \<open>Contexts\<close>

definition set_actx :: "dp \<Rightarrow> nat \<Rightarrow> nat \<Rightarrow> (appctx \<Rightarrow> appctx) \<Rightarrow> dp" where
  "set_actx s core db f = s\<lparr>appctxs := (appctxs s)[core := (appctxs s ! core)[db := f (appctxs s ! core ! db)]]\<rparr>"

text \<open>\<open>rxqs\<close> and \<open>txqs\<close> are the queue addresses per core.\<close>

definition nicif_appctx_add :: "nicif \<Rightarrow> u16 \<Rightarrow> u32 \<Rightarrow> u64 list \<Rightarrow> u32 \<Rightarrow> u64 list \<Rightarrow> u32 \<Rightarrow> nicif option" where
  "nicif_appctx_add n appid db rxqs rxl txqs txl =
    (if unat appid \<ge> APPST_NUM then None
     else
       let ast = appsts (nic n) ! unat appid in
       if unat (ctx_num ast) + 1 \<ge> APPST_CTX_NUM then None
       else
         case qman_alloc_ctx n of (None, n) \<Rightarrow> None
         | (Some qid, n) \<Rightarrow>
             let cores = [0..<unat (fn_cores n)];
                 s = (nic n)\<lparr>qmant := (qmant (nic n))[unat qid := db OR QMANTE_TYPEACTX]\<rparr>;
                 s = fold (\<lambda>i s. set_actx s i (unat db) (\<lambda>a. a\<lparr>ax_qman_qid := qid, ax_appst_id := ucast appid,
                       ax_rx_base := rxqs ! i, ax_tx_base := txqs ! i\<rparr>)) cores s;
                 s = fold (\<lambda>i s. set_actx s i (unat db) (\<lambda>a. a\<lparr>ax_tx_len := txl, ax_rx_len := rxl\<rparr>)) cores s;
                 ast = appsts s ! unat appid;
                 ast = ast\<lparr>ctx_ids := (ctx_ids ast)[unat (ctx_num ast) := ucast db], ctx_num := ctx_num ast + 1\<rparr> in
             Some (n\<lparr>nic := s\<lparr>appsts := (appsts s)[unat appid := ast]\<rparr>\<rparr>))"

section \<open>Flow hash table\<close>

abbreviation hte_valid :: "u32 \<times> u32 \<Rightarrow> bool" where
  "hte_valid e \<equiv> fst e AND FLOWHTE_VALID \<noteq> 0"

text \<open>The position field: how far an entry is from the slot of its hash.\<close>

definition hte_pos :: "u32 \<times> u32 \<Rightarrow> u32" where
  "hte_pos e = drop_bit POSSHIFT (fst e) AND (of_nat FLOWHT_NBSZ - 1)"

text \<open>The first empty slot among \<open>n\<close> slots from index \<open>i\<close> on, as the distance walked.\<close>

fun find_empty :: "(u32 \<times> u32) list \<Rightarrow> nat \<Rightarrow> nat \<Rightarrow> nat \<Rightarrow> nat option" where
  "find_empty ht i d 0 = None"
| "find_empty ht i d (Suc n) =
    (if \<not> hte_valid (ht ! ((i + d) mod length ht)) then Some d else find_empty ht i (Suc d) n)"

text \<open>The inner loop: the first of the slots \<open>i\<close>, \<open>i + 1\<close>, ... before the empty slot \<open>k\<close> whose entry may move to \<open>k\<close>.\<close>

fun find_move :: "(u32 \<times> u32) list \<Rightarrow> nat \<Rightarrow> nat \<Rightarrow> nat \<Rightarrow> nat option res" where
  "find_move ht k i 0 = Inr None"
| "find_move ht k i (Suc n) =
    (if \<not> hte_valid (ht ! i) then Inl Assert_fail
     else if unat ((of_nat k - of_nat i :: u32) mod of_nat (length ht)) \<le> FLOWHT_NBSZ - 1 - unat (hte_pos (ht ! i))
     then Inr (Some i)
     else find_move ht k (Suc i mod length ht) n)"

text \<open>Moving the entry at \<open>i\<close> to the empty slot \<open>k\<close>; the position field is copied as it is.\<close>

definition move_entry :: "(u32 \<times> u32) list \<Rightarrow> nat \<Rightarrow> nat \<Rightarrow> (u32 \<times> u32) list" where
  "move_entry ht i k =
    (let e = ht ! i; d = hte_pos e;
         ht = ht[k := (FLOWHTE_VALID OR push_bit POSSHIFT d OR (FLOWHTE_POSMASK AND fst e), snd e)] in
     ht[i := (0, snd (ht ! i))])"

definition slot_out_of_range :: "nat \<Rightarrow> nat \<Rightarrow> nat \<Rightarrow> bool" where
  "slot_out_of_range j l i \<longleftrightarrow> (j > l \<or> (i < j \<or> i \<ge> l)) \<and> (j < l \<or> (i \<ge> l \<and> i < j))"

text \<open>The outer loop, with fuel; \<open>None\<close> inside is the \<open>return -1\<close>.\<close>

fun slot_move :: "nat \<Rightarrow> (u32 \<times> u32) list \<Rightarrow> nat \<Rightarrow> nat \<Rightarrow> nat \<Rightarrow> ((u32 \<times> u32) list \<times> nat option) res" where
  "slot_move 0 ht j l i = Inl Diverge"
| "slot_move (Suc f) ht j l i =
    (if slot_out_of_range j l i then
       let k = i; i = unat ((of_nat k - of_nat FLOWHT_NBSZ :: u32) mod of_nat (length ht)) in
       bind_res (find_move ht k i FLOWHT_NBSZ) (\<lambda>r. case r of None \<Rightarrow> Inr (ht, None)
         | Some i \<Rightarrow>
             if hte_valid (ht ! k) then Inl Assert_fail
             else slot_move f (move_entry ht i k) j l i)
     else Inr (ht, Some i))"

abbreviation SLOT_FUEL :: nat where "SLOT_FUEL \<equiv> 32"

text \<open>The table, and index and distance of the slot (\<open>None\<close>: no slot).\<close>

definition flow_slot_alloc :: "(u32 \<times> u32) list \<Rightarrow> u32 \<Rightarrow> ((u32 \<times> u32) list \<times> (nat \<times> u32) option) res" where
  "flow_slot_alloc ht h =
    (let E = length ht; j = unat h mod E; l = (j + FLOWHT_NBSZ) mod E in
     case find_empty ht j 0 FLOWHT_NBSZ of Some d \<Rightarrow> Inr (ht, Some ((j + d) mod E, of_nat d))
     | None \<Rightarrow>
         (case find_empty ht l 0 (4 * FLOWHT_NBSZ) of None \<Rightarrow> Inr (ht, None)
          | Some d \<Rightarrow>
              bind_res (slot_move SLOT_FUEL ht j l ((l + d) mod E)) (\<lambda>(ht, r).
                Inr (ht, map_option (\<lambda>i. (i, (of_nat i - of_nat j) mod of_nat E)) r))))"

section \<open>Flows\<close>

record flow_args =
  fa_db :: u32
  fa_mac :: u64
  fa_ip_local :: u32
  fa_port_local :: u16
  fa_ip_remote :: u32
  fa_port_remote :: u16
  fa_rx_base :: u64
  fa_rx_len :: u32
  fa_tx_base :: u64
  fa_tx_len :: u32
  fa_remote_seq :: u32
  fa_local_seq :: u32
  fa_opaque :: u64
  fa_flags :: u32
  fa_rate :: u32
  fa_core :: u32
  fa_group :: u16

definition fa_key :: "flow_args \<Rightarrow> flow_key" where
  "fa_key a = \<lparr>k_local_ip = fa_ip_local a, k_remote_ip = fa_ip_remote a,
     k_local_port = fa_port_local a, k_remote_port = fa_port_remote a\<rparr>"

definition conn_rx_base :: "flow_args \<Rightarrow> u64" where
  "conn_rx_base a =
    (let b = fa_rx_base a; fl = fa_flags a;
         b = (if fl AND NICIF_CONN_OBJCONN = NICIF_CONN_OBJCONN then
                let b = b OR FLOWST_OBJCONN in
                if fl AND NICIF_CONN_OBJNOHASH = NICIF_CONN_OBJNOHASH then b OR FLOWST_OBJNOHASH else b
              else b) in
     if fl AND NICIF_CONN_ECN = NICIF_CONN_ECN then b OR FLOWST_ECN else b)"

text \<open>The fields that \<open>nicif_connection_add\<close> writes into the flow state.\<close>

definition init_flow :: "flow_args \<Rightarrow> u32 \<Rightarrow> flowst \<Rightarrow> flowst" where
  "init_flow a qid fs = fs\<lparr>opaque := fa_opaque a, rx_base_sp := conn_rx_base a, tx_base := fa_tx_base a,
     rx_len := fa_rx_len a, tx_len := fa_tx_len a, qman_qid := qid, remote_mac := be48_of (take 6 (le64_bytes (fa_mac a))),
     db_id := ucast (fa_db a), local_ip := fa_ip_local a, remote_ip := fa_ip_remote a, local_port := fa_port_local a,
     remote_port := fa_port_remote a, flow_group := ucast (fa_group a), rx_avail := fa_rx_len a, rx_next_pos := 0,
     rx_next_seq := fa_remote_seq a, rx_remote_avail := fa_rx_len a, tx_sent := 0, tx_next_pos := 0,
     tx_next_seq := fa_local_seq a, tx_head := 0, tx_objrem := 0, tx_next_ts := 0, tx_rate := fa_rate a, rtt_est := 0\<rparr>"

text \<open>\<open>flow_hash\<close> of nicif.c hashes the same twelve bytes as the fast path's.  \<open>None\<close> is the result -1;
  a failed call may have rearranged the hash table or taken a queue.\<close>

definition nicif_connection_add :: "env \<Rightarrow> nicif \<Rightarrow> flow_args \<Rightarrow> (nicif \<times> u32 option) res" where
  "nicif_connection_add e n a =
    (if unat (flow_id_next n) \<ge> length (flows (nic n)) then Inr (n, None)
     else
       let hash = flow_hash e (fa_key a) in
       bind_res (flow_slot_alloc (flowht (nic n)) hash) (\<lambda>(ht, slot).
       let n = n\<lparr>nic := (nic n)\<lparr>flowht := ht\<rparr>\<rparr> in
       case slot of None \<Rightarrow> Inr (n, None)
       | Some (i, d) \<Rightarrow>
           if \<not> i < length ht \<or> \<not> unat d < FLOWHT_NBSZ then Inl Assert_fail
           else
             bind_res (qman_alloc_flow n (fa_core a)) (\<lambda>(q, n).
             case q of None \<Rightarrow> Inr (n, None)
             | Some qid \<Rightarrow>
                 let f_id = flow_id_next n; s = nic n;
                     s = s\<lparr>flows := (flows s)[unat f_id := init_flow a qid (flows s ! unat f_id)],
                           qmant := (qmant s)[unat qid := f_id OR QMANTE_TYPEFLOW],
                           flowht := (flowht s)[i := (FLOWHTE_VALID OR push_bit POSSHIFT d OR f_id, hash)]\<rparr> in
                 Inr (n\<lparr>nic := s, flow_id_next := f_id + 1\<rparr>, Some f_id))))"

definition nicif_connection_move :: "nicif \<Rightarrow> u32 \<Rightarrow> u32 \<Rightarrow> nicif" where
  "nicif_connection_move n dst_db f_id =
    (let s = nic n in n\<lparr>nic := s\<lparr>flows := (flows s)[unat f_id := (flows s ! unat f_id)\<lparr>db_id := ucast dst_db\<rparr>]\<rparr>\<rparr>)"

section \<open>Statistics and rates\<close>

text \<open>Reading the counters resets them.\<close>

definition nicif_connection_stats :: "nicif \<Rightarrow> u32 \<Rightarrow> (nicif \<times> conn_stats) option" where
  "nicif_connection_stats n f_id =
    (if unat f_id \<ge> length (flows (nic n)) then None
     else
       let s = nic n; fs = flows s ! unat f_id;
           fs' = fs\<lparr>cnt_tx_drops := 0, cnt_rx_acks := 0, cnt_rx_ack_bytes := 0, cnt_rx_ecn := 0\<rparr> in
       Some (n\<lparr>nic := s\<lparr>flows := (flows s)[unat f_id := fs']\<rparr>\<rparr>,
             \<lparr>st_drops = cnt_tx_drops fs, st_acks = cnt_rx_acks fs, st_ackb = cnt_rx_ack_bytes fs, st_ecn = cnt_rx_ecn fs,
              st_txp = (tx_sent fs \<noteq> 0), st_rtt = rtt_est fs\<rparr>))"

definition nicif_connection_setrate :: "nicif \<Rightarrow> u32 \<Rightarrow> u32 \<Rightarrow> nicif option" where
  "nicif_connection_setrate n f_id rate =
    (if unat f_id \<ge> length (flows (nic n)) then None
     else let s = nic n in
       Some (n\<lparr>nic := s\<lparr>flows := (flows s)[unat f_id := (flows s ! unat f_id)\<lparr>tx_rate := rate\<rparr>]\<rparr>\<rparr>))"

section \<open>Kernel transmit queue\<close>

text \<open>
  The next entry: its address in DMA memory, the address of its buffer and the new tail, or \<open>None\<close> when the
  queue is full.  The wrap-around compares with \<open>rxq_len\<close>, as the source does; an entry behind the queue is
  \<open>Oob\<close>.
\<close>

definition ktx_try_alloc :: "nicif \<Rightarrow> nat \<Rightarrow> (nat \<times> u64 \<times> u32) option res" where
  "ktx_try_alloc n core =
    (let tail = txq_tail n ! core; a = unat (txq_base n ! core) + unat tail * KTX_SZ in
     if \<not> tail < txq_len n then Inl Oob
     else if dmem (nic n) ! (a + 63) \<noteq> 0 then Inr None
     else
       let tail' = tail + 1; tail' = (if tail' = rxq_len n then tail' - rxq_len n else tail') in
       Inr (Some (a, txq_bufs n ! core ! unat tail, tail')))"

definition kick_core :: "dp \<Rightarrow> nat \<Rightarrow> dp" where
  "kick_core s core =
    (let (kc, k) = util_flexnic_kick (now_us s) (kctxs s ! core) in
     s\<lparr>kctxs := (kctxs s)[core := kc], kicks := kicks s @ (if k then [KickCore (of_nat core)] else [])\<rparr>)"

definition nicif_connection_retransmit :: "nicif \<Rightarrow> u32 \<Rightarrow> u16 \<Rightarrow> (nicif \<times> bool) res" where
  "nicif_connection_retransmit n f_id fg =
    (let core = unat (steering (nic n) ! unat fg) in
     bind_res (ktx_try_alloc n core) (\<lambda>r. case r of None \<Rightarrow> Inr (n, False)
       | Some (a, buf, tail) \<Rightarrow>
           let s = nic n; s = s\<lparr>dmem := put (put (dmem s) a (le32_bytes f_id)) (a + 63) [KTX_CONNRETRAN]\<rparr> in
           Inr (n\<lparr>nic := kick_core s core, txq_tail := (txq_tail n)[core := tail]\<rparr>, True)))"

text \<open>Allocating a transmit buffer (address of the buffer, opaque tail), and sending it.\<close>

definition nicif_tx_alloc :: "nicif \<Rightarrow> u16 \<Rightarrow> (nicif \<times> (u64 \<times> u32) option) res" where
  "nicif_tx_alloc n len =
    bind_res (ktx_try_alloc n 0) (\<lambda>r. case r of None \<Rightarrow> Inr (n, None)
      | Some (a, buf, tail) \<Rightarrow>
          let s = nic n in
          Inr (n\<lparr>nic := s\<lparr>dmem := put (dmem s) a (le64_bytes buf @ le16_bytes len)\<rparr>\<rparr>, Some (buf, tail)))"

definition nicif_tx_send :: "nicif \<Rightarrow> u32 \<Rightarrow> nicif" where
  "nicif_tx_send n opaque' =
    (let tail = (if opaque' = 0 then txq_len n - 1 else opaque' - 1);
         a = unat (txq_base n ! 0) + unat tail * KTX_SZ; s = nic n in
     n\<lparr>nic := kick_core (s\<lparr>dmem := put (dmem s) (a + 63) [KTX_PACKET]\<rparr>) 0, txq_tail := (txq_tail n)[0 := opaque']\<rparr>)"

section \<open>Queues of a core\<close>

text \<open>\<open>adminq_init_core\<close>: buffers and both queues from packet memory.  \<open>None\<close> inside is the error return, after which
  what had been allocated is free again; allocation of the kernel's own arrays and handles succeeds.\<close>

definition adminq_init_core :: "configuration \<Rightarrow> nicif \<Rightarrow> nat \<Rightarrow> nicif \<times> bool" where
  "adminq_init_core cfg n core =
    (let sz_bufs = ((nic_rx_len cfg + nic_tx_len cfg) * PKTBUF_SIZE + 0xfff) AND NOT 0xfff;
         sz_rx = nic_rx_len cfg * of_nat KRX_SZ; sz_tx = nic_tx_len cfg * of_nat KTX_SZ in
     case packetmem_alloc (freelist n) sz_bufs True of None \<Rightarrow> (n, False)
     | Some (pm_bufs, fl) \<Rightarrow>
       (case packetmem_alloc fl sz_rx True of None \<Rightarrow> (n\<lparr>freelist := packetmem_free fl pm_bufs\<rparr>, False)
        | Some (pm_rx, fl) \<Rightarrow>
          (case packetmem_alloc fl sz_tx True of
             None \<Rightarrow> (n\<lparr>freelist := packetmem_free (packetmem_free fl pm_rx) pm_bufs\<rparr>, False)
           | Some (pm_tx, fl) \<Rightarrow>
               let s = nic n; off_rx = h_base pm_rx; off_tx = h_base pm_tx; nr = unat (rxq_len n);
                   bufs = map (\<lambda>i. h_base pm_bufs + of_nat i * PKTBUF_SIZE) [0..<nr + unat (txq_len n)];
                   mem = put (put (dmem s) (unat off_rx) (replicate (unat sz_rx) 0)) (unat off_tx) (replicate (unat sz_tx) 0);
                   mem = fold (\<lambda>i m. put m (unat off_rx + i * KRX_SZ) (le64_bytes (bufs ! i))) [0..<nr] mem;
                   kc = (kctxs s ! core)\<lparr>ax_rx_base := off_rx, ax_tx_base := off_tx,
                          ax_tx_len := ucast sz_tx, ax_rx_len := ucast sz_rx\<rparr> in
               (n\<lparr>nic := s\<lparr>dmem := mem, kctxs := (kctxs s)[core := kc]\<rparr>,
                  rxq_bufs := (rxq_bufs n)[core := take nr bufs], txq_bufs := (txq_bufs n)[core := drop nr bufs],
                  rxq_base := (rxq_base n)[core := off_rx], txq_base := (txq_base n)[core := off_tx],
                  freelist := fl\<rparr>, True))))"

text \<open>\<open>adminq_init\<close>: the arrays of all cores, then the queues of each core, stopping at the first failure.\<close>

fun adminq_cores :: "configuration \<Rightarrow> nat list \<Rightarrow> nicif \<Rightarrow> nicif \<times> bool" where
  "adminq_cores cfg [] n = (n, True)"
| "adminq_cores cfg (i # is) n =
    (case adminq_init_core cfg n i of (n, ok) \<Rightarrow> if ok then adminq_cores cfg is n else (n, False))"

definition adminq_init :: "configuration \<Rightarrow> nicif \<Rightarrow> nicif \<times> bool" where
  "adminq_init cfg n =
    (let c = unat (fn_cores n) in
     adminq_cores cfg [0..<c]
       (n\<lparr>rxq_len := ucast (nic_rx_len cfg), txq_len := ucast (nic_tx_len cfg), rxq_next := 0,
          rxq_bufs := replicate c [], rxq_base := replicate c 0, rxq_tail := replicate c 0,
          txq_bufs := replicate c [], txq_base := replicate c 0, txq_tail := replicate c 0\<rparr>))"

text \<open>What \<open>rxq_poll\<close> finds in the queue of the next core in turn: the packet (its buffer, length, core and flow group),
  and the state after the entry has been handed back.\<close>

definition rxq_next_core :: "nicif \<Rightarrow> nicif" where
  "rxq_next_core n = n\<lparr>rxq_next := (rxq_next n + 1) mod fn_cores n\<rparr>"

definition rxq_entry_addr :: "nicif \<Rightarrow> nat" where
  "rxq_entry_addr n = (let core = unat (rxq_next n) in unat (rxq_base n ! core) + unat (rxq_tail n ! core) * KRX_SZ)"

definition rxq_packet :: "nicif \<Rightarrow> u8 list \<times> u16 \<times> u16 \<times> u16" where
  "rxq_packet n =
    (let core = unat (rxq_next n); tail = unat (rxq_tail n ! core); m = dmem (nic n); a = rxq_entry_addr n;
         len = le16_of (slice m (a + 8) 2) in
     (slice m (unat (rxq_bufs n ! core ! tail)) (unat PKTBUF_SIZE), len, le16_of (slice m (a + 10) 2), le16_of (slice m (a + 12) 2)))"

definition rxq_done :: "nicif \<Rightarrow> nat \<Rightarrow> nat \<Rightarrow> nicif" where
  "rxq_done n core a =
    (let tail = rxq_tail n ! core + 1; tail = (if tail = rxq_len n then tail - rxq_len n else tail); s = nic n in
     n\<lparr>nic := s\<lparr>dmem := put (dmem s) (a + 71) [0]\<rparr>, rxq_tail := (rxq_tail n)[core := tail]\<rparr>)"

end
