(* ===== verification/NicifInv.thy ===== *)
theory NicifInv
  imports Nicif FlowInv
begin

unbundle bit_operations_syntax

text \<open>
  The flow hash table: the kernel's insertion and the fast path's lookup agree.  The table's length \<open>E\<close> is a power
  of two of at least 32 entries (\<open>FLEXNIC_PL_FLOWHT_ENTRIES\<close> is \<open>2^18\<close>).
\<close>

definition table_ok :: "(u32 \<times> u32) list \<Rightarrow> bool" where
  "table_ok ht \<longleftrightarrow> length ht dvd 2 ^ 32 \<and> 32 \<le> length ht \<and> length ht < 2 ^ 32"

lemma circle_sub:
  assumes "a < E" "b < E" "E dvd 4294967296" "E < 4294967296"
  shows "unat ((of_nat a - of_nat b :: u32) mod of_nat E) = (a + E - b) mod E"
proof -
  have ab: "unat (of_nat a :: u32) = a" "unat (of_nat b :: u32) = b" "unat (of_nat E :: u32) = E"
    using assms by (simp_all add: unat_of_nat)
  obtain q where q: "4294967296 = E * q" using assms(3) unfolding dvd_def by blast
  have "unat (of_nat a - of_nat b :: u32) mod E = (a + E - b) mod E"
  proof (cases "b \<le> a")
    case True
    then show ?thesis using ab assms by (simp add: u32_nat mod_if)
  next
    case False
    have "q > 0" using q by (cases q) auto
    then obtain q' where q': "q = Suc q'" by (cases q) auto
    have "a + 4294967296 - b = (a + E - b) + E * q'" using q q' False assms(2) by simp
    then show ?thesis using False ab by (simp add: u32_nat)
  qed
  then show ?thesis by (simp add: unat_mod ab)
qed

lemma circle_mod: fixes j x E :: nat shows "j < E \<Longrightarrow> x < E \<Longrightarrow> (j + x) mod E = (if j + x < E then j + x else j + x - E)"
  by (simp add: mod_if)

lemma circle_back:
  fixes j x E :: nat
  assumes "4 \<le> x" "4 \<le> E"
  shows "((j + x) mod E + E - 4) mod E = (j + (x - 4)) mod E"
proof -
  have "((j + x) mod E + E - 4) mod E = ((j + x) mod E + (E - 4)) mod E" using assms by simp
  also have "\<dots> = (j + x + (E - 4)) mod E" by (rule mod_add_left_eq)
  also have "j + x + (E - 4) = j + (x - 4) + E" using assms by simp
  finally show ?thesis by simp
qed

lemma circle_dist:
  fixes j z E :: nat
  assumes "j < E" "z < E"
  shows "((j + z) mod E + E - j) mod E = z"
proof -
  have "((j + z) mod E + E - j) mod E = ((j + z) mod E + (E - j)) mod E" using assms by simp
  also have "\<dots> = (j + z + (E - j)) mod E" by (rule mod_add_left_eq)
  also have "j + z + (E - j) = z + E" using assms by simp
  finally show ?thesis using assms by simp
qed

lemma circle_idx:
  fixes j x y E :: nat
  assumes "j < E" "x < E" "y < E"
  shows "(j + x) mod E = (j + y) mod E \<longleftrightarrow> x = y"
  using assms by (auto simp: circle_mod split: if_splits)

lemma slot_range:
  assumes "j < E" "x < E" "32 \<le> E"
  shows "slot_out_of_range j ((j + 4) mod E) ((j + x) mod E) \<longleftrightarrow> 4 \<le> x"
  using assms by (auto simp: slot_out_of_range_def mod_if)

lemma find_empty_some:
  "find_empty ht i d n = Some r \<Longrightarrow> d \<le> r \<and> r < d + n \<and> \<not> hte_valid (ht ! ((i + r) mod length ht)) \<and>
     (\<forall>y. d \<le> y \<and> y < r \<longrightarrow> hte_valid (ht ! ((i + y) mod length ht)))"
proof (induction ht i d n rule: find_empty.induct)
  case (2 ht i d n)
  show ?case
  proof (cases "hte_valid (ht ! ((i + d) mod length ht))")
    case True
    then have "find_empty ht i (Suc d) n = Some r" using 2(2) by simp
    note ih = 2(1) [OF _ this]
    have "hte_valid (ht ! ((i + y) mod length ht))" if "d \<le> y" "y < r" for y
      using ih True that by (cases "y = d") auto
    then show ?thesis using ih True by auto
  qed (use 2 in auto)
qed simp

lemma find_empty_none:
  "find_empty ht i d n = None \<Longrightarrow> d \<le> y \<Longrightarrow> y < d + n \<Longrightarrow> hte_valid (ht ! ((i + y) mod length ht))"
proof (induction ht i d n rule: find_empty.induct)
  case (2 ht i d n)
  then show ?case by (cases "y = d") (auto split: if_splits)
qed simp

text \<open>The candidates for a move, counted from the start of the neighbourhood.\<close>

lemma find_move_ok:
  assumes "table_ok ht" "j < length ht" "x < 20" "k = (j + x) mod length ht"
    and "\<forall>y < x. hte_valid (ht ! ((j + y) mod length ht))" "z + n = x"
  shows "\<exists>r. find_move ht k ((j + z) mod length ht) n = Inr r \<and>
    (case r of None \<Rightarrow> True | Some i \<Rightarrow> \<exists>z'. z \<le> z' \<and> z' < x \<and> i = (j + z') mod length ht)"
  using assms(6)
proof (induction n arbitrary: z)
  case (Suc n)
  have "Suc ((j + z) mod length ht) mod length ht = (j + Suc z) mod length ht" by (simp add: mod_simps)
  then obtain r where r: "find_move ht k (Suc ((j + z) mod length ht) mod length ht) n = Inr r"
      "case r of None \<Rightarrow> True | Some i \<Rightarrow> \<exists>z'. Suc z \<le> z' \<and> z' < x \<and> i = (j + z') mod length ht"
    using Suc.IH [of "Suc z"] Suc.prems by auto
  have "hte_valid (ht ! ((j + z) mod length ht))" using assms(5) Suc.prems by simp
  moreover have "\<exists>z'. z \<le> z' \<and> z' < x \<and> (j + z) mod length ht = (j + z') mod length ht" using Suc.prems by auto
  moreover have "case r of None \<Rightarrow> True | Some i \<Rightarrow> \<exists>z'. z \<le> z' \<and> z' < x \<and> i = (j + z') mod length ht"
    using r(2) by (cases r) (auto intro: Suc_leD)
  ultimately show ?case using r(1) by simp
qed simp

lemma move_entry_facts:
  assumes "i < length ht" "k < length ht" "i \<noteq> k"
  shows "length (move_entry ht i k) = length ht" "\<not> hte_valid (move_entry ht i k ! i)"
    "m \<noteq> i \<Longrightarrow> m \<noteq> k \<Longrightarrow> move_entry ht i k ! m = ht ! m"
  using assms by (simp_all add: move_entry_def Let_def)

lemma slot_move_ok:
  assumes "table_ok ht" "j < length ht" "x < 20" "x < f"
    and "\<forall>y < x. hte_valid (ht ! ((j + y) mod length ht))" "\<not> hte_valid (ht ! ((j + x) mod length ht))"
  shows "\<exists>ht' r. slot_move f ht j ((j + 4) mod length ht) ((j + x) mod length ht) = Inr (ht', r) \<and> length ht' = length ht \<and>
    (case r of None \<Rightarrow> True | Some i \<Rightarrow> \<exists>z < 4. i = (j + z) mod length ht \<and> \<not> hte_valid (ht' ! i))"
  using assms
proof (induction f arbitrary: ht x)
  case (Suc f)
  let ?E = "length ht"
  have E: "32 \<le> ?E" "?E dvd 4294967296" "?E < 4294967296" using Suc.prems(1) by (simp_all add: table_ok_def)
  have x: "x < ?E" using Suc.prems(3) E by simp
  note rng = slot_range [OF Suc.prems(2) x E(1)]
  show ?case
  proof (cases "4 \<le> x")
    case False
    then show ?thesis using rng Suc.prems(6) by (auto intro: exI [of _ x])
  next
    case True
    define k where "k = (j + x) mod ?E"
    have k: "k < ?E" unfolding k_def by (rule mod_less_divisor) (use E in linarith)
    have "unat (of_nat k - 4 :: u32) mod ?E = (k + ?E - 4) mod ?E"
      using circle_sub [of k ?E 4] k E by (simp add: unat_mod unat_of_nat)
    moreover have "unat ((of_nat k - of_nat FLOWHT_NBSZ :: u32) mod of_nat ?E) = unat (of_nat k - 4 :: u32) mod ?E"
      using E by (simp add: unat_mod unat_of_nat)
    moreover have "(k + ?E - 4) mod ?E = (j + (x - 4)) mod ?E"
      unfolding k_def by (rule circle_back) (use True E in linarith)+
    ultimately have start: "unat ((of_nat k - of_nat FLOWHT_NBSZ :: u32) mod of_nat ?E) = (j + (x - 4)) mod ?E" by simp
    obtain r where r: "find_move ht k ((j + (x - 4)) mod ?E) 4 = Inr r"
      "case r of None \<Rightarrow> True | Some i \<Rightarrow> \<exists>z'. x - 4 \<le> z' \<and> z' < x \<and> i = (j + z') mod ?E"
      using find_move_ok [OF Suc.prems(1-3) k_def Suc.prems(5), of "x - 4" 4] True by auto
    have step: "slot_move (Suc f) ht j ((j + 4) mod ?E) k =
        (case r of None \<Rightarrow> Inr (ht, None) | Some i \<Rightarrow> slot_move f (move_entry ht i k) j ((j + 4) mod ?E) i)"
      using rng True Suc.prems(6) r(1) start by (auto simp: k_def [symmetric] Let_def split: option.splits)
    show ?thesis
    proof (cases r)
      case None
      then show ?thesis using step by (simp add: k_def)
    next
      case (Some i)
      then obtain z where z: "z < x" "i = (j + z) mod ?E" using r(2) by auto
      have ik: "i < ?E" unfolding z(2) by (rule mod_less_divisor) (use E in linarith)
      have ik': "i \<noteq> k" using z x circle_idx [OF Suc.prems(2), of z x] unfolding k_def by auto
      note mv = move_entry_facts [OF ik k ik']
      have keep: "\<forall>y < z. hte_valid (move_entry ht i k ! ((j + y) mod ?E))"
      proof (intro allI impI)
        fix y assume y: "y < z"
        have "(j + y) mod ?E \<noteq> i" "(j + y) mod ?E \<noteq> k"
          using y z x circle_idx [OF Suc.prems(2)] by (auto simp: k_def)
        then show "hte_valid (move_entry ht i k ! ((j + y) mod ?E))"
          using mv(3) Suc.prems(5) y z(1) by auto
      qed
      have "\<exists>ht' r. slot_move f (move_entry ht i k) j ((j + 4) mod ?E) i = Inr (ht', r) \<and> length ht' = ?E \<and>
          (case r of None \<Rightarrow> True | Some i \<Rightarrow> \<exists>z < 4. i = (j + z) mod ?E \<and> \<not> hte_valid (ht' ! i))"
      proof -
        have "table_ok (move_entry ht i k)" using Suc.prems(1) mv(1) by (simp add: table_ok_def)
        moreover have "z < 20" "z < f" using z(1) Suc.prems(3,4) by simp_all
        ultimately show ?thesis
          using Suc.IH [of "move_entry ht i k" z] Suc.prems(2) keep mv(2) unfolding mv(1) z(2) [symmetric] by simp
      qed
      then show ?thesis using step Some by (simp add: k_def)
    qed
  qed
qed simp

text \<open>\<open>flow_slot_alloc\<close> never fails an assertion, and a slot it returns is empty and in the neighbourhood of the hash.\<close>

lemma flow_slot_alloc_ok:
  assumes "table_ok ht"
  shows "\<exists>ht' r. flow_slot_alloc ht h = Inr (ht', r) \<and> length ht' = length ht \<and>
    (case r of None \<Rightarrow> True | Some (i, d) \<Rightarrow>
       unat d < 4 \<and> i = (unat h mod length ht + unat d) mod length ht \<and> \<not> hte_valid (ht' ! i))"
proof -
  let ?E = "length ht"
  define j where "j = unat h mod ?E"
  have E: "32 \<le> ?E" "?E dvd 4294967296" "?E < 4294967296" using assms by (simp_all add: table_ok_def)
  have j: "j < ?E" unfolding j_def by (rule mod_less_divisor) (use E in linarith)
  show ?thesis
  proof (cases "find_empty ht j 0 4")
    case (Some d)
    note s = find_empty_some [OF Some]
    have "unat (of_nat d :: u32) = d" using s by (simp add: unat_of_nat)
    then show ?thesis using Some s by (simp add: flow_slot_alloc_def Let_def j_def [symmetric])
  next
    case none: None
    show ?thesis
    proof (cases "find_empty ht ((j + 4) mod ?E) 0 16")
      case None
      then show ?thesis using none by (simp add: flow_slot_alloc_def Let_def j_def [symmetric])
    next
      case (Some d)
      note s = find_empty_some [OF Some]
      have m: "((j + 4) mod ?E + y) mod ?E = (j + (4 + y)) mod ?E" for y by (simp add: mod_simps add.assoc)
      have v: "\<forall>y < 4 + d. hte_valid (ht ! ((j + y) mod ?E))"
      proof (intro allI impI)
        fix y assume y: "y < 4 + d"
        show "hte_valid (ht ! ((j + y) mod ?E))"
        proof (cases "y < 4")
          case True
          then show ?thesis using find_empty_none [OF none, of y] by simp
        next
          case False
          then obtain y' where y': "y = 4 + y'" using le_Suc_ex by (auto simp: not_less)
          then have "hte_valid (ht ! (((j + 4) mod ?E + y') mod ?E))" using s y by simp
          then show ?thesis unfolding m y' .
        qed
      qed
      obtain ht' r where r: "slot_move 32 ht j ((j + 4) mod ?E) ((j + (4 + d)) mod ?E) = Inr (ht', r)" "length ht' = ?E"
        "case r of None \<Rightarrow> True | Some i \<Rightarrow> \<exists>z < 4. i = (j + z) mod ?E \<and> \<not> hte_valid (ht' ! i)"
      proof -
        have "4 + d < 20" "4 + d < 32" "\<not> hte_valid (ht ! ((j + (4 + d)) mod ?E))" using s m [of d] by simp_all
        from slot_move_ok [OF assms j this(1,2) v this(3)] show ?thesis using that by blast
      qed
      have dist: "unat ((of_nat ((j + z) mod ?E) - of_nat j :: u32) mod of_nat ?E) = z" if "z < 4" for z
      proof -
        have "(j + z) mod ?E < ?E" by (rule mod_less_divisor) (use E in linarith)
        then show ?thesis using circle_sub [of "(j + z) mod ?E" ?E j] circle_dist [of j ?E z] that j E by simp
      qed
      have "flow_slot_alloc ht h = Inr (ht', map_option (\<lambda>i. (i, (of_nat i - of_nat j) mod of_nat ?E)) r)"
        using none Some r(1) m [of d] by (simp add: flow_slot_alloc_def Let_def j_def [symmetric])
      then show ?thesis
        using r(2,3) dist by (cases r) (auto simp: j_def [symmetric])
    qed
  qed
qed


section \<open>Insertion and lookup\<close>

text \<open>Flow id and hash of the valid entries.\<close>

definition live :: "(u32 \<times> u32) list \<Rightarrow> (u32 \<times> u32) set" where
  "live ht = (\<lambda>e. (fst e AND FLOWHTE_POSMASK, snd e)) ` {e \<in> set ht. hte_valid e}"

lemma posmask_or:
  fixes d f :: u32
  assumes "unat f < 536870912"
  shows "(FLOWHTE_VALID OR push_bit 29 d OR f) AND FLOWHTE_POSMASK = f"
    "(FLOWHTE_VALID OR push_bit 29 d OR f) AND FLOWHTE_VALID \<noteq> 0"
proof -
  have m: "(FLOWHTE_POSMASK :: u32) = mask 29" by (simp add: mask_eq_exp_minus_1)
  have f: "take_bit 29 f = f" using assms by (simp add: word_unat_eq_iff unsigned_take_bit_eq take_bit_nat_eq_self)
  have "take_bit 29 (FLOWHTE_VALID OR push_bit 29 d OR f) = take_bit 29 f"
    by (rule bit_word_eqI) (auto simp: bit_simps)
  then show "(FLOWHTE_VALID OR push_bit 29 d OR f) AND FLOWHTE_POSMASK = f"
    unfolding m using f by (simp add: take_bit_eq_mask)
  have "bit ((FLOWHTE_VALID OR push_bit 29 d OR f) AND FLOWHTE_VALID) 31" by (simp add: bit_simps)
  then show "(FLOWHTE_VALID OR push_bit 29 d OR f) AND FLOWHTE_VALID \<noteq> 0" by force
qed

lemma live_update: "live (ht[i := e]) \<subseteq> live [e] \<union> live ht"
  by (auto simp: live_def dest!: subsetD [OF set_update_subset_insert])

lemma live_move:
  assumes "i < length ht" "k < length ht" "hte_valid (ht ! i)"
  shows "live (move_entry ht i k) \<subseteq> live ht"
proof -
  let ?e = "(FLOWHTE_VALID OR push_bit 29 (hte_pos (ht ! i)) OR (FLOWHTE_POSMASK AND fst (ht ! i)), snd (ht ! i))"
  have "FLOWHTE_POSMASK AND x = take_bit 29 x" for x :: u32
    by (simp add: take_bit_eq_mask mask_eq_exp_minus_1 and.commute)
  then have "unat (FLOWHTE_POSMASK AND fst (ht ! i)) < 536870912"
    using take_bit_nat_less_exp [of 29 "unat (fst (ht ! i))"] by (simp add: unsigned_take_bit_eq)
  from posmask_or [OF this] have e: "live [?e] \<subseteq> live ht"
    using assms by (auto simp: live_def and.commute)
  have "live (move_entry ht i k) \<subseteq> live (ht[k := ?e])"
    using live_update [of "ht[k := ?e]" i "(0, snd (ht[k := ?e] ! i))"] assms
    by (simp add: move_entry_def Let_def) (auto simp: live_def)
  then show ?thesis using live_update [of ht k ?e] e by blast
qed


lemma find_move_valid: "find_move ht k i n = Inr (Some m) \<Longrightarrow> hte_valid (ht ! m) \<and> (ht \<noteq> [] \<longrightarrow> i < length ht \<longrightarrow> m < length ht)"
  by (induction ht k i n rule: find_move.induct) (auto split: if_splits)

lemma slot_move_live:
  "slot_move f ht j l i = Inr (ht', r) \<Longrightarrow> i < length ht \<Longrightarrow> length ht < 2 ^ 32 \<Longrightarrow> live ht' \<subseteq> live ht"
proof (induction f ht j l i rule: slot_move.induct)
  case (2 f ht j l i)
  define i0 where "i0 = unat ((of_nat i - of_nat FLOWHT_NBSZ :: u32) mod of_nat (length ht))"
  have E: "0 < length ht" using 2(3) by auto
  then have i0: "i0 < length ht" using 2(4) by (simp add: i0_def unat_mod unat_of_nat)
  show ?case
  proof (cases "slot_out_of_range j l i")
    case True
    then obtain m where m: "find_move ht i i0 FLOWHT_NBSZ = Inr m"
      using 2(2) by (cases "find_move ht i i0 FLOWHT_NBSZ") (auto simp: i0_def Let_def)
    show ?thesis
    proof (cases m)
      case None
      then show ?thesis using 2(2) True m by (simp add: Let_def i0_def)
    next
      case (Some k)
      have v: "hte_valid (ht ! k)" "k < length ht" using find_move_valid [of ht i i0 FLOWHT_NBSZ k] m Some i0 E by auto
      have s: "\<not> hte_valid (ht ! i)" "slot_move f (move_entry ht k i) j l k = Inr (ht', r)"
        using 2(2) True m Some by (auto simp: Let_def i0_def split: if_splits)
      have len: "length (move_entry ht k i) = length ht" by (simp add: move_entry_def Let_def)
      have "live ht' \<subseteq> live (move_entry ht k i)"
        using 2(1) [OF True refl refl s(1,2)] v(2) 2(4) len by simp
      then show ?thesis using live_move [OF v(2) 2(3) v(1)] by blast
    qed
  qed (use 2 in auto)
qed simp

lemma slot_alloc_live:
  assumes "flow_slot_alloc ht h = Inr (ht', r)" "table_ok ht"
  shows "live ht' \<subseteq> live ht"
proof -
  define j where "j = unat h mod length ht"
  have E: "0 < length ht" "length ht < 2 ^ 32" using assms(2) by (auto simp: table_ok_def)
  show ?thesis
  proof (cases "find_empty ht j 0 4")
    case (Some d)
    then show ?thesis using assms(1) by (auto simp: flow_slot_alloc_def Let_def j_def [symmetric])
  next
    case none: None
    show ?thesis
    proof (cases "find_empty ht ((j + 4) mod length ht) 0 16")
      case None
      then show ?thesis using assms(1) none by (auto simp: flow_slot_alloc_def Let_def j_def [symmetric])
    next
      case (Some d)
      have i: "((j + 4) mod length ht + d) mod length ht < length ht" using E(1) by simp
      have "\<exists>q. slot_move SLOT_FUEL ht j ((j + 4) mod length ht) (((j + 4) mod length ht + d) mod length ht) = Inr (ht', q)"
        using assms(1) none Some
        by (auto simp: flow_slot_alloc_def Let_def j_def [symmetric] bind_res_Inr_iff split: prod.splits)
      then show ?thesis using slot_move_live [OF _ i E(2)] by blast
    qed
  qed
qed

text \<open>No valid entry names a flow with these addresses, and entries name flows that have been handed out.\<close>

definition key_fresh :: "nicif \<Rightarrow> flow_key \<Rightarrow> bool" where
  "key_fresh n k \<longleftrightarrow> (\<forall>(fid, h) \<in> live (flowht (nic n)). fid < flow_id_next n \<and> \<not> key_matches (flows (nic n) ! unat fid) k)"

lemma flow_probe_skip:
  assumes "\<forall>x \<in> set js. \<not> hte_valid (flowht s ! (unat (h + of_nat x) mod length (flowht s))) \<or>
      \<not> key_matches (flows s ! unat (fst (flowht s ! (unat (h + of_nat x) mod length (flowht s))) AND FLOWHTE_POSMASK)) k"
  shows "flow_probe s k h (js @ ks) = flow_probe s k h ks"
  using assms by (induction js) (auto simp: Let_def split: prod.splits)

lemma flow_probe_here:
  assumes "flowht s ! (unat (h + of_nat d) mod length (flowht s)) = (v, h)" "v AND FLOWHTE_VALID \<noteq> 0"
    "v AND FLOWHTE_POSMASK = fid" "key_matches (flows s ! unat fid) k"
  shows "flow_probe s k h (d # ks) = Some fid"
  using assms by (simp add: Let_def)

lemma key_matches_init: "key_matches (init_flow a q fs) (fa_key a)"
  by (simp add: key_matches_def init_flow_def fa_key_def)

lemma init_flow_ok:
  assumes "0 < fa_rx_len a" "unat (fa_rx_len a) < 2147483648" "0 < fa_tx_len a" "unat (fa_tx_len a) < 2147483648"
  shows "tx_ok (init_flow a q fs)" "rx_ok (init_flow a q fs)"
proof -
  have "tx_view (init_flow a q fs) (unat (fa_tx_len a)) 0 0 0"
    using assms by (simp add: tx_view_def init_flow_def ring_dist_def word_less_nat_alt)
  then show "tx_ok (init_flow a q fs)" by (auto simp: tx_ok_def)
  show "rx_ok (init_flow a q fs)" using assms by (simp add: rx_ok_def init_flow_def)
qed

text \<open>The flow state that a registration asks for.\<close>

definition asked_for :: "flow_args \<Rightarrow> flowst \<Rightarrow> bool" where
  "asked_for a fs \<longleftrightarrow> opaque fs = fa_opaque a \<and> db_id fs = ucast (fa_db a) \<and> flow_group fs = ucast (fa_group a) \<and>
     rx_base_sp fs = conn_rx_base a \<and> rx_len fs = fa_rx_len a \<and> tx_base fs = fa_tx_base a \<and> tx_len fs = fa_tx_len a \<and>
     rx_next_seq fs = fa_remote_seq a \<and> rx_next_pos fs = 0 \<and> rx_avail fs = fa_rx_len a \<and>
     tx_next_seq fs = fa_local_seq a \<and> tx_next_pos fs = 0 \<and> tx_head fs = 0 \<and> tx_sent fs = 0 \<and> tx_rate fs = fa_rate a \<and>
     local_ip fs = fa_ip_local a \<and> remote_ip fs = fa_ip_remote a \<and> local_port fs = fa_port_local a \<and>
     remote_port fs = fa_port_remote a \<and> be48_bytes (remote_mac fs) = take 6 (le64_bytes (fa_mac a))"

lemma u8_bits: "8 \<le> n \<Longrightarrow> bit (x :: u8) n \<longleftrightarrow> False"
  using bit_imp_le_length [of x n] by auto

lemma be48_bytes_of:
  assumes "length bs = 6"
  shows "be48_bytes (be48_of bs) = bs"
proof -
  obtain a b c d e f where bs: "bs = [a, b, c, d, e, f]"
    using assms by (auto simp: numeral_eq_Suc length_Suc_conv)
  have "ucast (be48_of bs) = be32_of [c, d, e, f]" "ucast (drop_bit 32 (be48_of bs)) = be16_of [a, b]"
    by (auto simp: bs be48_of_def be16_of_def be32_of_def bit_simps u8_bits intro!: bit_word_eqI)
  moreover have "be32_bytes (be32_of [c, d, e, f]) = [c, d, e, f]" "be16_bytes (be16_of [a, b]) = [a, b]"
    by (auto simp: be16_of_def be32_of_def be16_bytes_def be32_bytes_def bit_simps u8_bits intro!: bit_word_eqI)
  ultimately show ?thesis unfolding be48_bytes_def by (simp add: bs)
qed

lemma init_flow_asked: "asked_for a (init_flow a q fs)"
  using be48_bytes_of [of "take 6 (le64_bytes (fa_mac a))"]
  by (simp add: asked_for_def init_flow_def le64_bytes_def le32_bytes_def be32_bytes_def)

lemma init_flow_qid: "qman_qid (init_flow a q fs) = q"
  by (simp add: init_flow_def)

lemma mod_hash_slot:
  assumes "E dvd 4294967296" "d < 4"
  shows "unat (h + of_nat d :: u32) mod E = (unat h mod E + d) mod E"
proof -
  have "unat (h + of_nat d :: u32) = (unat h + d) mod 4294967296"
    using assms(2) by (simp add: unat_word_ariths unat_of_nat mod_simps)
  then show ?thesis using assms(1) by (simp add: mod_mod_cancel mod_simps)
qed

text \<open>
  C23: a flow that the kernel registers is the flow that the fast path's hash lookup finds for the packets of
  its connection, provided that no other registered flow has the same addresses.  Its state is the one asked for: the
  application's opaque value and context, buffers, sequence numbers, rate, flow group, MAC and IP addresses and ports, empty
  rings with the whole receive buffer free; its queue leads back to it; no other flow changes.
\<close>

theorem connection_add_lookup:
  assumes "nicif_connection_add e n a = Inr (n', Some f)" "table_ok (flowht (nic n))" "key_fresh n (fa_key a)"
    and "length (flows (nic n)) \<le> 536870912"
  shows "fast_flow_lookup e (nic n') (fa_key a) = Some f \<and> unat f < length (flows (nic n')) \<and>
    (0 < fa_rx_len a \<and> unat (fa_rx_len a) < 2147483648 \<and> 0 < fa_tx_len a \<and> unat (fa_tx_len a) < 2147483648 \<longrightarrow>
      tx_ok (flows (nic n') ! unat f) \<and> rx_ok (flows (nic n') ! unat f)) \<and>
    asked_for a (flows (nic n') ! unat f) \<and>
    (unat (qman_qid (flows (nic n') ! unat f)) < length (qmant (nic n)) \<longrightarrow>
      qmant (nic n') ! unat (qman_qid (flows (nic n') ! unat f)) = f OR QMANTE_TYPEFLOW) \<and>
    (\<forall>i. i \<noteq> unat f \<longrightarrow> flows (nic n') ! i = flows (nic n) ! i)"
proof -
  define k where "k = fa_key a"
  define h where "h = flow_hash e k"
  let ?ht = "flowht (nic n)" and ?E = "length (flowht (nic n))"
  have fid: "unat (flow_id_next n) < length (flows (nic n))"
    using assms(1) by (auto simp: nicif_connection_add_def split: if_splits)
  obtain ht r where s: "flow_slot_alloc ?ht h = Inr (ht, r)" "length ht = ?E"
    "case r of None \<Rightarrow> True | Some (i, d) \<Rightarrow> unat d < 4 \<and> i = (unat h mod ?E + unat d) mod ?E \<and> \<not> hte_valid (ht ! i)"
    using flow_slot_alloc_ok [OF assms(2), of h] by blast
  have E: "0 < ?E" "?E dvd 4294967296" "ht \<noteq> []" using assms(2) s(2) by (auto simp: table_ok_def)
  obtain i d q where d: "r = Some (i, d)" and f: "f = flow_id_next n"
    and n': "flowht (nic n') = ht[i := (FLOWHTE_VALID OR push_bit POSSHIFT d OR f, h)]"
      "flows (nic n') = (flows (nic n))[unat f := init_flow a q (flows (nic n) ! unat f)]"
      "qmant (nic n') = (qmant (nic n))[unat q := f OR QMANTE_TYPEFLOW]"
    using assms(1) fid s(1,2)
    by (auto simp: nicif_connection_add_def Let_def k_def [symmetric] h_def [symmetric] bind_res_Inr_iff qman_alloc_flow_def
        split: option.splits if_splits prod.splits list.splits)
  have id: "unat d < 4" "i = (unat h mod ?E + unat d) mod ?E" "i < length ht" using s d E by auto
  have fb: "unat f < 536870912" using fid f assms(4) by simp
  note v = posmask_or [OF fb, of d]
  have new: "key_matches (flows (nic n') ! unat f) k" using n'(2) fid f key_matches_init by (simp add: k_def)
  have at: "unat (h + of_nat x) mod length (flowht (nic n')) = (unat h mod ?E + x) mod ?E" if "x < 4" for x
    using mod_hash_slot [OF E(2) that] s(2) n'(1) by simp
  have skip: "\<not> hte_valid (flowht (nic n') ! y) \<or>
      \<not> key_matches (flows (nic n') ! unat (fst (flowht (nic n') ! y) AND FLOWHTE_POSMASK)) k" if y: "y < ?E" "y \<noteq> i" for y
  proof (cases "hte_valid (ht ! y)")
    case True
    then have "(fst (ht ! y) AND FLOWHTE_POSMASK, snd (ht ! y)) \<in> live ht" using y s(2) by (auto simp: live_def)
    then have "(fst (ht ! y) AND FLOWHTE_POSMASK, snd (ht ! y)) \<in> live ?ht" using slot_alloc_live [OF s(1) assms(2)] by blast
    then have "fst (ht ! y) AND FLOWHTE_POSMASK < f" "\<not> key_matches (flows (nic n) ! unat (fst (ht ! y) AND FLOWHTE_POSMASK)) k"
      using assms(3) f by (auto simp: key_fresh_def k_def)
    then show ?thesis using n' y(2) by (auto simp: word_less_nat_alt)
  qed (use n' y in auto)
  have "[0..<4] = [0..<unat d] @ unat d # [Suc (unat d)..<4]" using id(1) upt_add_eq_append [of 0 "unat d" "4 - unat d"] upt_conv_Cons [of "unat d" 4] by simp
  moreover have "\<not> hte_valid (flowht (nic n') ! (unat (h + of_nat x) mod length (flowht (nic n')))) \<or>
      \<not> key_matches (flows (nic n') ! unat (fst (flowht (nic n') ! (unat (h + of_nat x) mod length (flowht (nic n')))) AND FLOWHTE_POSMASK)) k"
    if "x \<in> set [0..<unat d]" for x
  proof -
    have x: "x < 4" "x \<noteq> unat d" using that id(1) by auto
    have "(unat h mod ?E + x) mod ?E \<noteq> i"
      using circle_idx [of "unat h mod ?E" ?E x "unat d"] x id E assms(2) by (simp add: table_ok_def)
    then show ?thesis using skip [of "(unat h mod ?E + x) mod ?E"] at [OF x(1)] E by simp
  qed
  moreover have "flowht (nic n') ! (unat (h + of_nat (unat d)) mod length (flowht (nic n'))) = (FLOWHTE_VALID OR push_bit POSSHIFT d OR f, h)"
    using at [OF id(1)] id n'(1) by simp
  ultimately have "flow_probe (nic n') k h [0..<4] = Some f"
    using flow_probe_skip [of "[0..<unat d]" "nic n'" h k "unat d # [Suc (unat d)..<4]"]
      flow_probe_here [OF _ v(2,1) new, of h "unat d" "[Suc (unat d)..<4]"] by metis
  then show ?thesis
    using n'(2,3) fid f init_flow_ok [of a q "flows (nic n) ! unat f"] init_flow_asked [of a q "flows (nic n) ! unat f"]
    by (simp add: fast_flow_lookup_def h_def k_def init_flow_qid)
qed


definition ex_crc_env :: env where
  "ex_crc_env = \<lparr>xsum = (\<lambda>p. 0), hash_crc = (\<lambda>bs. of_nat (length bs)), ring_ok = (\<lambda>c q. True), own_mac = 7\<rparr>"

definition ex_nicif :: nicif where
  "ex_nicif = \<lparr>nic = \<lparr>dmem = [], appctxs = [], flows = [flowst_zero], flowht = replicate 32 (0, 0), qmant = [0, 0],
       kctxs = [], appsts = [], steering = [0], core_id = 0, qm = qman_thread_init 1 0 0, fwd = [], txq = [],
       kicks = [], now_us = 0, klast_ts = 0\<rparr>,
     fn_cores = 1, flow_id_next = 0, qman_queues = [[1]], qman_ctx_core = 0, rxq_bufs = [[]], rxq_base = [0], rxq_len = 8,
     rxq_tail = [0], rxq_next = 0, txq_bufs = [[]], txq_base = [0], txq_len = 8, txq_tail = [0], freelist = []\<rparr>"

definition ex_args :: flow_args where
  "ex_args = \<lparr>fa_db = 0, fa_mac = 0, fa_ip_local = 1, fa_port_local = 80, fa_ip_remote = 2, fa_port_remote = 9000,
     fa_rx_base = 0, fa_rx_len = 64, fa_tx_base = 64, fa_tx_len = 64, fa_remote_seq = 5, fa_local_seq = 1, fa_opaque = 0,
     fa_flags = 0, fa_rate = 100, fa_core = 0, fa_group = 0\<rparr>"

lemma ex_add: "\<exists>n'. nicif_connection_add ex_crc_env ex_nicif ex_args = Inr (n', Some 0)"
proof -
  have h: "flow_hash ex_crc_env (fa_key ex_args) = 12"
    by (simp add: flow_hash_def ex_crc_env_def be16_bytes_def be32_bytes_def)
  have "find_empty (replicate 32 (0, 0)) 12 0 FLOWHT_NBSZ = Some 0" by code_simp
  then have "flow_slot_alloc (flowht (nic ex_nicif)) 12 = Inr (replicate 32 (0, 0), Some (12, 0))"
    by (simp add: flow_slot_alloc_def ex_nicif_def)
  then show ?thesis
    unfolding nicif_connection_add_def h by (simp add: ex_nicif_def ex_args_def qman_alloc_flow_def)
qed

theorem connection_add_lookup_witness:
  "\<exists>n'. nicif_connection_add ex_crc_env ex_nicif ex_args = Inr (n', Some 0) \<and>
     fast_flow_lookup ex_crc_env (nic n') \<lparr>k_local_ip = 1, k_remote_ip = 2, k_local_port = 80, k_remote_port = 9000\<rparr> = Some 0 \<and>
     tx_ok (flows (nic n') ! 0)"
proof -
  obtain n' where n': "nicif_connection_add ex_crc_env ex_nicif ex_args = Inr (n', Some 0)" using ex_add by blast
  have "table_ok (flowht (nic ex_nicif))" by (simp add: table_ok_def ex_nicif_def)
  moreover have "key_fresh ex_nicif (fa_key ex_args)" by (auto simp: key_fresh_def live_def ex_nicif_def)
  moreover have "length (flows (nic ex_nicif)) \<le> 536870912" by (simp add: ex_nicif_def)
  ultimately show ?thesis
    using connection_add_lookup [OF n'] n' by (auto simp: fa_key_def ex_args_def)
qed

section \<open>Displacement\<close>

text \<open>A valid entry with position \<open>d\<close> for flow \<open>f\<close> with hash \<open>h\<close>; and a table that is empty but for slots 12 to 17.\<close>

definition hte :: "u32 \<Rightarrow> u32 \<Rightarrow> u32 \<Rightarrow> u32 \<times> u32" where
  "hte d f h = (FLOWHTE_VALID OR push_bit POSSHIFT d OR f, h)"

definition six :: "nat \<Rightarrow> u32 \<times> u32 \<Rightarrow> u32 \<times> u32 \<Rightarrow> u32 \<times> u32 \<Rightarrow> u32 \<times> u32 \<Rightarrow> u32 \<times> u32 \<Rightarrow> u32 \<times> u32 \<Rightarrow> (u32 \<times> u32) list" where
  "six E u v w x y z = replicate 12 (0, 0) @ [u, v, w, x, y, z] @ replicate (E - 18) (0, 0)"

lemma six_simps:
  "32 \<le> E \<Longrightarrow> length (six E u v w x y z) = E"
  "six E u v w x y z ! 12 = u" "six E u v w x y z ! 13 = v" "six E u v w x y z ! 14 = w" "six E u v w x y z ! 15 = x"
  "six E u v w x y z ! 16 = y" "six E u v w x y z ! 17 = z"
  "(six E u v w x y z)[12 := t] = six E t v w x y z" "(six E u v w x y z)[13 := t] = six E u t w x y z"
  "(six E u v w x y z)[14 := t] = six E u v t x y z" "(six E u v w x y z)[15 := t] = six E u v w t y z"
  "(six E u v w x y z)[16 := t] = six E u v w x t z" "(six E u v w x y z)[17 := t] = six E u v w x y t"
  by (simp_all add: six_def nth_append list_update_append)

lemma back_index:
  assumes "m \<le> k" "k < E" "E \<le> 2147483648"
  shows "unat ((of_nat k - of_nat m :: u32) mod of_nat E) = k - m"
proof -
  have "unat (of_nat k - of_nat m :: u32) = k - m"
    using assms by (simp add: u32_nat unat_of_nat)
  then show ?thesis using assms by (simp add: unat_mod unat_of_nat)
qed

lemma hte_simps:
  assumes "d < 4" "f < 8"
  shows "hte_pos (hte d f h) = d" "hte_valid (hte d f h)" "FLOWHTE_POSMASK AND fst (hte d f h) = f" "snd (hte d f h) = h"
proof -
  have "d \<in> {0, 1, 2, 3}" "f \<in> {0, 1, 2, 3, 4, 5, 6, 7}"
    using assms by (auto simp: word_less_nat_alt) unat_arith+
  then show "hte_pos (hte d f h) = d" "hte_valid (hte d f h)" "FLOWHTE_POSMASK AND fst (hte d f h) = f" "snd (hte d f h) = h"
    by (auto simp: hte_def hte_pos_def)
qed

lemma fuel_steps:
  "find_empty ht i d (numeral n) = (if \<not> hte_valid (ht ! ((i + d) mod length ht)) then Some d else find_empty ht i (Suc d) (pred_numeral n))"
  "find_move ht k i (numeral n) = (if \<not> hte_valid (ht ! i) then Inl Assert_fail
     else if unat ((of_nat k - of_nat i :: u32) mod of_nat (length ht)) \<le> FLOWHT_NBSZ - 1 - unat (hte_pos (ht ! i)) then Inr (Some i)
     else find_move ht k (Suc i mod length ht) (pred_numeral n))"
  "slot_move (numeral n) ht j l i = (if slot_out_of_range j l i then
       let k = i; i = unat ((of_nat k - of_nat FLOWHT_NBSZ :: u32) mod of_nat (length ht)) in
       bind_res (find_move ht k i FLOWHT_NBSZ) (\<lambda>r. case r of None \<Rightarrow> Inr (ht, None)
         | Some i \<Rightarrow> if hte_valid (ht ! k) then Inl Assert_fail else slot_move (pred_numeral n) (move_entry ht i k) j l i)
     else Inr (ht, Some i))"
  by (simp_all add: numeral_eq_Suc Let_def)

lemma small_wmod:
  assumes "unat x < 32" "32 \<le> E" "E \<le> 2147483648"
  shows "x mod of_nat E = (x :: u32)"
proof -
  have "unat (of_nat E :: u32) = E" using assms(3) by (simp add: unat_of_nat)
  then have "unat (x mod of_nat E) = unat x" using assms by (simp add: unat_mod)
  then show ?thesis by (simp only: word_unat_eq_iff)
qed

lemma size_not_1: "32 \<le> E \<Longrightarrow> E \<le> 2147483648 \<Longrightarrow> (of_nat E :: u32) \<noteq> 1"
  using small_wmod [of 1 E] by auto

lemma free_slot:
  assumes "32 \<le> E" "unat h mod E = 13"
  shows "flow_slot_alloc (six E (0, 0) (0, 0) w x y z) h = Inr (six E (0, 0) (0, 0) w x y z, Some (13, 0))"
  using assms by (simp add: flow_slot_alloc_def Let_def six_simps fuel_steps)


lemma first_move:
  assumes "32 \<le> E" "E \<le> 2147483648" "unat h mod E = 12"
  shows "flow_slot_alloc (six E (hte 0 1 r1) (hte 0 0 r0) (hte 1 2 r2) (hte 2 3 r3) (0, a) (0, c)) h =
    Inr (six E (hte 0 1 r1) (0, r0) (hte 1 2 r2) (hte 2 3 r3) (hte 0 0 r0) (0, c), Some (13, 1))"
  using assms by (simp add: flow_slot_alloc_def Let_def six_simps fuel_steps hte_simps small_wmod size_not_1 slot_out_of_range_def move_entry_def hte_def [symmetric])

lemma second_move:
  assumes "32 \<le> E" "E \<le> 2147483648" "unat h mod E = 12"
  shows "flow_slot_alloc (six E (hte 0 1 r1) (hte 1 4 r4) (hte 1 2 r2) (hte 2 3 r3) (hte 0 0 r0) (0, c)) h =
    Inr (six E (hte 0 1 r1) (hte 1 4 r4) (0, r2) (hte 2 3 r3) (hte 1 2 r2) (hte 0 0 r0), Some (14, 2))"
  using assms by (simp add: flow_slot_alloc_def Let_def six_simps fuel_steps hte_simps small_wmod size_not_1 slot_out_of_range_def move_entry_def hte_def [symmetric])

text \<open>Registering several connections.\<close>

fun add_all :: "env \<Rightarrow> nicif \<Rightarrow> flow_args list \<Rightarrow> (nicif \<times> u32 option list) res" where
  "add_all e n [] = Inr (n, [])"
| "add_all e n (a # as) = bind_res (nicif_connection_add e n a) (\<lambda>(n, f). bind_res (add_all e n as) (\<lambda>(n, fs). Inr (n, f # fs)))"

lemma add_all_Cons:
  "add_all e n (a # as) = Inr (n', f # fs) \<longleftrightarrow> (\<exists>n1. nicif_connection_add e n a = Inr (n1, f) \<and> add_all e n1 as = Inr (n', fs))"
  by (auto simp: bind_res_Inr_iff)

lemma add_step:
  assumes "nicif_connection_add e n a = Inr (n', Some f)" "flow_slot_alloc (flowht (nic n)) (flow_hash e (fa_key a)) = Inr (ht, Some (i, d))"
  shows "flowht (nic n') = ht[i := hte d f (flow_hash e (fa_key a))] \<and> f = flow_id_next n \<and> unat f < length (flows (nic n)) \<and>
    (\<exists>q. flows (nic n') = (flows (nic n))[unat f := init_flow a q (flows (nic n) ! unat f)])"
  using assms
  by (auto simp: nicif_connection_add_def Let_def bind_res_Inr_iff qman_alloc_flow_def hte_def split: option.splits if_splits prod.splits list.splits) blast+

lemma key_matches_other: "key_matches (init_flow a q fs) k \<longleftrightarrow> k = fa_key a"
  by (cases k) (auto simp: key_matches_def init_flow_def fa_key_def)

text \<open>
  C25: registering connections can lose one that is already registered, although none is ever removed.  Six connections whose
  hashes fall on slots 13, 12, 13, 13, 12 and 12 of an empty table are all accepted; the last two registrations move the
  entry of the first one from slot 13 to 16 and on to 17, because its position field still says 0 after the first move.
  It is then outside the neighbourhood of its hash, and the fast path no longer finds the connection, whose flow state
  is still there.
\<close>

theorem displacement_loses_flow:
  assumes add: "add_all e n [a0, a1, a2, a3, a4, a5] = Inr (n', [Some 0, Some 1, Some 2, Some 3, Some 4, Some 5])"
    and empty: "flowht (nic n) = replicate E (0, 0)" "32 \<le> E" "E \<le> 2147483648" "E dvd 2 ^ 32"
    and slots: "map (\<lambda>a. unat (flow_hash e (fa_key a)) mod E) [a0, a1, a2, a3, a4, a5] = [13, 12, 13, 13, 12, 12]"
    and keys: "fa_key a0 \<notin> fa_key ` {a1, a2, a3, a4, a5}"
  shows "fast_flow_lookup e (nic n') (fa_key a0) = None \<and> key_matches (flows (nic n') ! 0) (fa_key a0)"
proof -
  define h where "h a = flow_hash e (fa_key a)" for a
  define z where "z = (0 :: u32, 0 :: u32)"
  have j: "unat (h a0) mod E = 13" "unat (h a1) mod E = 12" "unat (h a2) mod E = 13" "unat (h a3) mod E = 13"
    "unat (h a4) mod E = 12" "unat (h a5) mod E = 12" using slots by (simp_all add: h_def)
  have t0: "flowht (nic n) = six E z z z z z z"
    using empty(1,2) by (simp add: six_def z_def numeral_eq_Suc replicate_add [symmetric] flip: replicate_Suc replicate_append_same)
  obtain n1 n2 n3 n4 n5 where n: "nicif_connection_add e n a0 = Inr (n1, Some 0)" "nicif_connection_add e n1 a1 = Inr (n2, Some 1)"
    "nicif_connection_add e n2 a2 = Inr (n3, Some 2)" "nicif_connection_add e n3 a3 = Inr (n4, Some 3)"
    "nicif_connection_add e n4 a4 = Inr (n5, Some 4)" "nicif_connection_add e n5 a5 = Inr (n', Some 5)"
    using add unfolding add_all_Cons by auto
  note al = flow_slot_alloc_def Let_def six_simps fuel_steps hte_simps small_wmod size_not_1
  have "flow_slot_alloc (flowht (nic n)) (h a0) = Inr (six E z z z z z z, Some (13, 0))"
    unfolding t0 using empty j by (simp add: al z_def)
  note s1 = add_step [OF n(1) this [unfolded h_def], folded h_def, unfolded six_simps]
  have "flow_slot_alloc (flowht (nic n1)) (h a1) = Inr (six E z (hte 0 0 (h a0)) z z z z, Some (12, 0))"
    using s1 empty j by (simp add: al z_def)
  note s2 = add_step [OF n(2) this [unfolded h_def], folded h_def, unfolded six_simps]
  have "flow_slot_alloc (flowht (nic n2)) (h a2) = Inr (six E (hte 0 1 (h a1)) (hte 0 0 (h a0)) z z z z, Some (14, 1))"
    using s2 empty j by (simp add: al z_def)
  note s3 = add_step [OF n(3) this [unfolded h_def], folded h_def, unfolded six_simps]
  have "flow_slot_alloc (flowht (nic n3)) (h a3) = Inr (six E (hte 0 1 (h a1)) (hte 0 0 (h a0)) (hte 1 2 (h a2)) z z z, Some (15, 2))"
    using s3 empty j by (simp add: al z_def)
  note s4 = add_step [OF n(4) this [unfolded h_def], folded h_def, unfolded six_simps]
  have t4: "flowht (nic n4) = six E (hte 0 1 (h a1)) (hte 0 0 (h a0)) (hte 1 2 (h a2)) (hte 2 3 (h a3)) (0, 0) (0, 0)"
    using s4 by (simp add: z_def)
  have "flow_slot_alloc (flowht (nic n4)) (h a4) =
      Inr (six E (hte 0 1 (h a1)) (0, h a0) (hte 1 2 (h a2)) (hte 2 3 (h a3)) (hte 0 0 (h a0)) (0, 0), Some (13, 1))"
    unfolding t4 by (rule first_move [OF empty(2,3) j(5)])
  note s5 = add_step [OF n(5) this [unfolded h_def], folded h_def, unfolded six_simps]
  then have t5: "flowht (nic n5) = six E (hte 0 1 (h a1)) (hte 1 4 (h a4)) (hte 1 2 (h a2)) (hte 2 3 (h a3)) (hte 0 0 (h a0)) (0, 0)"
    by blast
  have "flow_slot_alloc (flowht (nic n5)) (h a5) =
      Inr (six E (hte 0 1 (h a1)) (hte 1 4 (h a4)) (0, h a2) (hte 2 3 (h a3)) (hte 1 2 (h a2)) (hte 0 0 (h a0)), Some (14, 2))"
    unfolding t5 by (rule second_move [OF empty(2,3) j(6)])
  note s6 = add_step [OF n(6) this [unfolded h_def], folded h_def, unfolded six_simps]
  then have t6: "flowht (nic n') = six E (hte 0 1 (h a1)) (hte 1 4 (h a4)) (hte 2 5 (h a5)) (hte 2 3 (h a3)) (hte 1 2 (h a2)) (hte 0 0 (h a0))"
    by blast
  obtain q0 q2 q3 q4 q5 where fl: "flows (nic n') ! 0 = init_flow a0 q0 (flows (nic n) ! 0)"
    "flows (nic n') ! 2 = init_flow a2 q2 (flows (nic n2) ! 2)" "flows (nic n') ! 3 = init_flow a3 q3 (flows (nic n3) ! 3)"
    "flows (nic n') ! 4 = init_flow a4 q4 (flows (nic n4) ! 4)" "flows (nic n') ! 5 = init_flow a5 q5 (flows (nic n5) ! 5)"
  proof -
    obtain q0 q1 q2 q3 q4 q5 where
      "flows (nic n1) = (flows (nic n))[0 := init_flow a0 q0 (flows (nic n) ! 0)]"
      "flows (nic n2) = (flows (nic n1))[1 := init_flow a1 q1 (flows (nic n1) ! 1)]"
      "flows (nic n3) = (flows (nic n2))[2 := init_flow a2 q2 (flows (nic n2) ! 2)]"
      "flows (nic n4) = (flows (nic n3))[3 := init_flow a3 q3 (flows (nic n3) ! 3)]"
      "flows (nic n5) = (flows (nic n4))[4 := init_flow a4 q4 (flows (nic n4) ! 4)]"
      "flows (nic n') = (flows (nic n5))[5 := init_flow a5 q5 (flows (nic n5) ! 5)]"
      using s1 s2 s3 s4 s5 s6 by auto
    moreover have "5 < length (flows (nic n5))" "flows (nic n) \<noteq> []" using s6 s1 by auto
    ultimately show thesis by (intro that [of q0 q2 q3 q4 q5]) (simp_all add: nth_list_update)
  qed
  let ?t = "flowht (nic n')"
  have len: "length ?t = E" using empty(2) by (simp add: t6 six_simps)
  have at: "unat (h a0 + of_nat x) mod E = 13 + x" if "x < 4" for x
    using mod_hash_slot [of E x "h a0"] that empty j(1) by simp
  have "flow_probe (nic n') (fa_key a0) (h a0) ([0..<4] @ []) = flow_probe (nic n') (fa_key a0) (h a0) []"
  proof (rule flow_probe_skip, intro ballI disjI2)
    fix x assume "x \<in> set [0..<4 :: nat]"
    then have x: "x = 0 \<or> x = 1 \<or> x = 2 \<or> x = 3" by auto
    have "fst (?t ! (13 + x)) AND FLOWHTE_POSMASK \<in> {4, 5, 3, 2}"
      using x by (auto simp: t6 six_simps hte_def)
    then have "\<not> key_matches (flows (nic n') ! unat (fst (?t ! (13 + x)) AND FLOWHTE_POSMASK)) (fa_key a0)"
      using fl(2-5) keys by (auto simp: key_matches_other)
    then show "\<not> key_matches (flows (nic n') ! unat (fst (?t ! (unat (h a0 + of_nat x) mod length ?t)) AND FLOWHTE_POSMASK)) (fa_key a0)"
      using at [of x] x unfolding len by auto
  qed
  then show ?thesis using fl(1) by (simp add: fast_flow_lookup_def h_def key_matches_other)
qed

text \<open>Six connections on a table of 32 entries; the hash is the low byte of the remote port.\<close>

definition ex_port_env :: env where
  "ex_port_env = \<lparr>xsum = (\<lambda>p. 0), hash_crc = (\<lambda>bs. ucast (last bs)), ring_ok = (\<lambda>c q. True), own_mac = 7\<rparr>"

definition ex_six :: nicif where
  "ex_six = ex_nicif\<lparr>nic := (nic ex_nicif)\<lparr>flows := replicate 6 flowst_zero, qmant := replicate 8 0\<rparr>, qman_queues := [[1, 2, 3, 4, 5, 6]]\<rparr>"

definition ex_conn_args :: "u32 \<Rightarrow> u16 \<Rightarrow> flow_args" where
  "ex_conn_args ip port = ex_args\<lparr>fa_ip_remote := ip, fa_port_remote := port\<rparr>"

theorem displacement_loses_flow_witness:
  "\<exists>n'. add_all ex_port_env ex_six [ex_conn_args 1 13, ex_conn_args 2 12, ex_conn_args 3 13, ex_conn_args 4 13, ex_conn_args 5 12,
       ex_conn_args 6 12] = Inr (n', [Some 0, Some 1, Some 2, Some 3, Some 4, Some 5]) \<and>
     fast_flow_lookup ex_port_env (nic n') (fa_key (ex_conn_args 1 13)) = None"
proof -
  let ?as = "[ex_conn_args 1 13, ex_conn_args 2 12, ex_conn_args 3 13, ex_conn_args 4 13, ex_conn_args 5 12, ex_conn_args 6 12]"
  have "case add_all ex_port_env ex_six ?as of Inl x \<Rightarrow> False | Inr (n', fs) \<Rightarrow> fs = [Some 0, Some 1, Some 2, Some 3, Some 4, Some 5]"
    by code_simp
  then obtain n' where n': "add_all ex_port_env ex_six ?as = Inr (n', [Some 0, Some 1, Some 2, Some 3, Some 4, Some 5])"
    by (auto split: sum.splits prod.splits)
  have "map (\<lambda>a. unat (flow_hash ex_port_env (fa_key a)) mod 32) ?as = [13, 12, 13, 13, 12, 12]"
    by (simp add: ex_port_env_def ex_conn_args_def ex_args_def fa_key_def flow_hash_def be16_bytes_def)
  from displacement_loses_flow [OF n' _ _ _ _ this] n' show ?thesis
    by (auto simp: ex_six_def ex_nicif_def ex_conn_args_def ex_args_def fa_key_def)
qed

section \<open>Kernel transmit queue\<close>

lemma kick_core_other [simp]: "dmem (kick_core s c) = dmem s"
  by (simp add: kick_core_def split: prod.splits)

text \<open>
  C24: the tail of the kernel's transmit queue wraps at the length of the receive queue.  With equal lengths it
  stays in range; with a shorter transmit queue, sending from its last entry leaves the tail behind the
  queue and the next allocation accesses memory outside of it.
\<close>

theorem ktx_tail_wraps_at_rxq_len:
  assumes "txq_tail n \<noteq> []" "txq_tail n ! 0 < txq_len n" "nicif_tx_alloc n len = Inr (n1, Some (buf, t))"
  shows "(rxq_len n = txq_len n \<longrightarrow> t < txq_len n) \<and>
    (txq_tail n ! 0 = txq_len n - 1 \<and> txq_len n < rxq_len n \<longrightarrow> t = txq_len n \<and> nicif_tx_alloc (nicif_tx_send n1 t) len = Inl Oob)"
proof -
  have t: "t = (if txq_tail n ! 0 + 1 = rxq_len n then txq_tail n ! 0 + 1 - rxq_len n else txq_tail n ! 0 + 1)"
    and n1: "txq_len n1 = txq_len n" "txq_tail n1 = txq_tail n"
    using assms(3) by (auto simp: nicif_tx_alloc_def ktx_try_alloc_def Let_def bind_res_Inr_iff split: option.splits if_splits)
  have lt: "unat (txq_tail n ! 0 + 1) = unat (txq_tail n ! 0) + 1"
    using assms(2) unat_u32_bound [of "txq_len n"] by (simp add: u32_nat)
  have "t < txq_len n" if "rxq_len n = txq_len n"
  proof (cases "txq_tail n ! 0 + 1 = rxq_len n")
    case True
    then have "unat t = 0" using t by simp
    then show ?thesis using assms(2) by (simp add: word_less_nat_alt)
  next
    case False
    then have "unat (txq_tail n ! 0 + 1) \<noteq> unat (txq_len n)" using that word_unat_eq_iff by metis
    then show ?thesis using False t lt assms(2) by (simp add: word_less_nat_alt)
  qed
  moreover have "t = txq_len n \<and> nicif_tx_alloc (nicif_tx_send n1 t) len = Inl Oob"
    if "txq_tail n ! 0 = txq_len n - 1" "txq_len n < rxq_len n"
  proof -
    have t: "t = txq_len n" using t that by (auto split: if_splits)
    have "txq_tail (nicif_tx_send n1 t) ! 0 = t" "txq_len (nicif_tx_send n1 t) = txq_len n"
      using n1 assms(1) by (simp_all add: nicif_tx_send_def Let_def)
    then show ?thesis using t by (simp add: nicif_tx_alloc_def ktx_try_alloc_def)
  qed
  ultimately show ?thesis by blast
qed

definition ex_ktx :: nicif where
  "ex_ktx = ex_nicif\<lparr>nic := (nic ex_nicif)\<lparr>dmem := replicate 64 0, kctxs := [\<lparr>ax_rx_base = 0, ax_tx_base = 0, ax_rx_len = 0,
     ax_tx_len = 64, ax_qman_qid = 0, ax_appst_id = 0, ax_rx_head = 0, ax_tx_head = 0, ax_last_ts = 0\<rparr>]\<rparr>,
     txq_len := 1, txq_bufs := [[0]]\<rparr>"

theorem ktx_tail_wraps_at_rxq_len_witness:
  "\<exists>n1. nicif_tx_alloc ex_ktx 60 = Inr (n1, Some (0, 1)) \<and> nicif_tx_alloc (nicif_tx_send n1 1) 60 = Inl Oob"
proof -
  obtain n1 where n1: "nicif_tx_alloc ex_ktx 60 = Inr (n1, Some (0, 1))"
    by (simp add: nicif_tx_alloc_def ktx_try_alloc_def ex_ktx_def ex_nicif_def)
  show ?thesis
    using ktx_tail_wraps_at_rxq_len [OF _ _ n1] n1 by (simp add: ex_ktx_def ex_nicif_def)
qed

end
