(* ===== verification/CongControl.thy ===== *)
theory CongControl
  imports Nicif "HOL-Library.Signed_Division"
begin

unbundle bit_operations_syntax

text \<open>
  The kernel's congestion control (kernel/cc.c): four algorithms that turn the statistics of a connection's flow
  into a rate, the control loop over all connections, and the retransmission timer it drives.
\<close>

abbreviation CONF_MSS :: u32 where "CONF_MSS \<equiv> 1400"
abbreviation UMAX :: u64 where "UMAX \<equiv> 0xFFFFFFFF"
abbreviation INT32_MAX :: int where "INT32_MAX \<equiv> 2147483647"
abbreviation INT16_MAX :: int where "INT16_MAX \<equiv> 32767"

text \<open>\<open>If RTT is zero, use estimate\<close>\<close>

definition rtt_or_init :: "configuration \<Rightarrow> u32 \<Rightarrow> u32" where
  "rtt_or_init cfg rtt = (if rtt \<noteq> 0 then rtt else tcp_rtt_init cfg)"

section \<open>Window-based DCTCP\<close>

definition window_to_rate :: "configuration \<Rightarrow> u32 \<Rightarrow> u32 \<Rightarrow> u32 res" where
  "window_to_rate cfg window rtt =
    bind_res (cdiv (ucast window * 8 * 1000) (ucast (tcp_link_bw cfg))) (\<lambda>t :: u64.
      let time = t div 1000; time = (if time < ucast (rtt * 1000) then ucast (rtt * 1000) else time) in
      if time = 0 then Inl Assert_fail
      else
        let rate = (ucast window * 8 * 1000000 :: u64) div time in
        Inr (ucast (if rate > UMAX then UMAX else rate)))"

definition dctcp_win_init :: "configuration \<Rightarrow> connection \<Rightarrow> connection res" where
  "dctcp_win_init cfg c =
    (let w = 2 * CONF_MSS in
     bind_res (window_to_rate cfg w (tcp_rtt_init cfg)) (\<lambda>r.
       Inr (c\<lparr>cc_win := \<lparr>dw_ecn_rate = 0, dw_window = w, dw_slowstart = True\<rparr>, cc_rate := r\<rparr>)))"

text \<open>The new average ECN rate, shared text of both DCTCP variants.\<close>

definition ecn_ewma :: "configuration \<Rightarrow> u32 \<Rightarrow> u32 \<Rightarrow> u32 \<Rightarrow> u32" where
  "ecn_ewma cfg old c_ecn c_acks =
    (let ecn_rate = (ucast c_ecn * UMAX) div ucast c_acks;
         ecn_rate = ecn_rate * ucast (cc_dctcp_weight cfg) + ucast old * ucast (UINT32_MAX - cc_dctcp_weight cfg) in
     ucast (ecn_rate div UMAX))"

text \<open>Slow start, then congestion avoidance: window, ECN rate and whether slow start goes on.  A division by the window
  and the assertion on it are reached with a window of at least one MSS.\<close>

definition dctcp_win_step :: "configuration \<Rightarrow> u32 \<Rightarrow> cc_dctcp_win \<Rightarrow> conn_stats \<Rightarrow> (u32 \<times> u32 \<times> bool) res" where
  "dctcp_win_step cfg rexmits cc st =
    (let win = dw_window cc; calm = st_drops st = 0 \<and> st_ecn st = 0 \<and> rexmits = 0;
         win = (if dw_slowstart cc \<and> calm \<and> win + st_ackb st > win then win + st_ackb st else win) in
     if dw_slowstart cc \<and> calm then Inr (win, dw_ecn_rate cc, True)
     else if st_drops st > 0 \<or> rexmits > 0 then Inr (win div 2, dw_ecn_rate cc, False)
     else
       let c_ecn = (if st_acks st > 0 then if st_ecn st \<le> st_acks st then st_ecn st else st_acks st else st_ecn st);
           rate = (if st_acks st > 0 then ecn_ewma cfg (dw_ecn_rate cc) c_ecn (st_acks st) else dw_ecn_rate cc) in
       if c_ecn > 0 then Inr (ucast ((ucast win * ucast (UINT32_MAX - rate div 2) :: u64) div UMAX), rate, False)
       else if win = 0 then Inl Assert_fail
       else
         let incr = (ucast (st_ackb st) * 1400 :: u64) div ucast win; w' = ucast (ucast win + incr) in
         Inr (if w' > win then w' else win, rate, False))"

definition dctcp_win_update :: "configuration \<Rightarrow> connection \<Rightarrow> conn_stats \<Rightarrow> connection res" where
  "dctcp_win_update cfg c st =
    (let cc = cc_win c; rtt = rtt_or_init cfg (st_rtt st) in
     if \<not> dw_window cc \<ge> CONF_MSS then Inl Assert_fail
     else
       bind_res (dctcp_win_step cfg (cc_rexmits c) cc st) (\<lambda>(win, rate, ss).
       let win = (if win < CONF_MSS then CONF_MSS else win); win = (if win > c_tx_len c then c_tx_len c else win) in
       bind_res (window_to_rate cfg win rtt) (\<lambda>r.
       if \<not> win \<ge> CONF_MSS then Inl Assert_fail
       else Inr (c\<lparr>cc_rtt := rtt, cc_rate := r, cc_rexmits := 0,
                   cc_win := \<lparr>dw_ecn_rate = rate, dw_window = win, dw_slowstart = ss\<rparr>\<rparr>))))"

section \<open>Rate-based DCTCP\<close>

text \<open>\<open>act_rate\<close> is not initialised: it keeps what the allocated connection holds.\<close>

definition dctcp_rate_init :: "configuration \<Rightarrow> connection \<Rightarrow> connection" where
  "dctcp_rate_init cfg c = c\<lparr>cc_rate := cc_dctcp_init cfg,
     cc_drate := (cc_drate c)\<lparr>dr_ecn_rate := 0, dr_slowstart := True, dr_unproc_ecn := 0, dr_unproc_acks := 0,
       dr_unproc_ackb := 0, dr_unproc_drops := 0\<rparr>\<rparr>"

text \<open>\<open>c_ackb * 8 * 1000 / (cur_ts - last)\<close> in 32 bits, and the running average; both algorithms that use it.\<close>

definition actual_rate :: "u32 \<Rightarrow> u32 \<Rightarrow> u32 \<Rightarrow> u32 res" where
  "actual_rate ackb cur_ts last_ts = (if last_ts \<noteq> 0 then cdiv (ackb * 8 * 1000) (cur_ts - last_ts) else Inr 0)"

definition rate_avg :: "u32 \<Rightarrow> u32 \<Rightarrow> u32" where
  "rate_avg avg act = (7 * avg + act) div 8"

text \<open>The clamp to 1.2 times the rate actually used.\<close>

definition clamp_rate :: "u32 \<Rightarrow> u32 \<Rightarrow> u32" where
  "clamp_rate rate act = (let m = (ucast act :: u64) * 12 div 10 in if ucast rate > m then ucast m else rate)"

text \<open>Rate, ECN rate and slow start after the statistics of an interval.\<close>

definition dctcp_rate_step :: "configuration \<Rightarrow> u32 \<Rightarrow> u32 \<Rightarrow> u32 \<Rightarrow> bool \<Rightarrow> u32 \<Rightarrow> u32 \<Rightarrow> u32 \<Rightarrow> u32 \<times> u32 \<times> bool" where
  "dctcp_rate_step cfg rexmits rate old ss c_drops c_ecn c_acks =
    (let calm = c_drops = 0 \<and> c_ecn = 0 \<and> rexmits = 0;
         rate = (if ss \<and> calm then if rate * 2 \<ge> rate then rate * 2 else UINT32_MAX else rate) in
     if ss \<and> calm then (rate, old, True)
     else if c_drops > 0 \<or> rexmits > 0 then (rate div 2, old, False)
     else
       let c_ecn = (if c_acks > 0 then if c_ecn \<le> c_acks then c_ecn else c_acks else c_ecn);
           ecn = (if c_acks > 0 then ecn_ewma cfg old c_ecn c_acks else old) in
       (if c_ecn > 0 then ucast ((ucast rate * ucast (UINT32_MAX - ecn div 2) :: u64) div UMAX)
        else if cc_dctcp_mimd cfg = 0 then rate + cc_dctcp_step cfg
        else rate + ucast ((ucast rate * ucast (cc_dctcp_mimd cfg) :: u64) div UMAX), ecn, False))"

definition dctcp_rate_update :: "configuration \<Rightarrow> connection \<Rightarrow> conn_stats \<Rightarrow> u32 \<Rightarrow> connection res" where
  "dctcp_rate_update cfg c st cur_ts =
    (let cc = cc_drate c; c = c\<lparr>cc_rtt := rtt_or_init cfg (st_rtt st)\<rparr>;
         c_ecn = dr_unproc_ecn cc + st_ecn st; c_acks = dr_unproc_acks cc + st_acks st;
         c_ackb = dr_unproc_ackb cc + st_ackb st; c_drops = dr_unproc_drops cc + st_drops st in
     if c_acks < cc_dctcp_minpkts cfg then
       Inr (c\<lparr>cc_drate := cc\<lparr>dr_unproc_ecn := c_ecn, dr_unproc_acks := c_acks, dr_unproc_ackb := c_ackb, dr_unproc_drops := c_drops\<rparr>\<rparr>)
     else
       bind_res (actual_rate c_ackb cur_ts (cc_last_ts c)) (\<lambda>act.
       let avg = rate_avg (dr_act_rate cc) act; act = (if act \<ge> avg then act else avg);
           (rate, ecn, ss) = dctcp_rate_step cfg (cc_rexmits c) (clamp_rate (cc_rate c) act) (dr_ecn_rate cc) (dr_slowstart cc)
              c_drops c_ecn c_acks in
       Inr (c\<lparr>cc_drate := \<lparr>dr_unproc_acks = 0, dr_unproc_ackb = 0, dr_unproc_ecn = 0, dr_unproc_drops = 0,
                dr_ecn_rate = ecn, dr_act_rate = avg, dr_slowstart = ss\<rparr>,
              cc_rate := (if rate < cc_dctcp_min cfg then cc_dctcp_min cfg else rate), cc_rexmits := 0\<rparr>)))"

section \<open>TIMELY\<close>

definition timely_init :: "configuration \<Rightarrow> connection \<Rightarrow> connection" where
  "timely_init cfg c = c\<lparr>cc_rate := cc_timely_init cfg,
     cc_tim := (cc_tim c)\<lparr>tm_hai_cnt := 0, tm_rtt_diff := 0, tm_rtt_prev := 0, tm_last_ts := 0, tm_slowstart := True\<rparr>\<rparr>"

text \<open>Conversion to \<open>int64_t\<close> and \<open>int32_t\<close>; \<open>sdiv\<close> on \<open>int\<close> truncates like C's division.\<close>

definition int64 :: "int \<Rightarrow> int" where "int64 x = sint (of_int x :: u64)"
definition int32 :: "int \<Rightarrow> int" where "int32 x = sint (of_int x :: u32)"

text \<open>The new \<open>rtt_diff\<close>.\<close>

definition timely_rtt_diff :: "configuration \<Rightarrow> int \<Rightarrow> u32 \<Rightarrow> u32 \<Rightarrow> int" where
  "timely_rtt_diff cfg rtt_diff rtt_prev new_rtt =
    (let new_rtt_diff = sint (new_rtt - rtt_prev); factor = uint (cc_timely_alpha cfg div 2);
         x = int64 ((INT32_MAX - factor) * rtt_diff + factor * new_rtt_diff) in
     int32 (x sdiv INT32_MAX))"

definition timely_gradient :: "configuration \<Rightarrow> int \<Rightarrow> int res" where
  "timely_gradient cfg rtt_diff =
    (if cc_timely_min_rtt cfg = 0 then Inl Div_zero
     else Inr (int64 (rtt_diff * INT16_MAX) sdiv uint (cc_timely_min_rtt cfg)))"

text \<open>The rate decision: rate and HAI counter from the clamped rate.\<close>

definition timely_step :: "configuration \<Rightarrow> bool \<Rightarrow> u32 \<Rightarrow> u32 \<Rightarrow> u32 \<Rightarrow> int \<Rightarrow> u32 \<times> u32" where
  "timely_step cfg ss rate hai new_rtt gradient =
    (if ss then (rate * 2, hai)
     else if new_rtt < cc_timely_tlow cfg then (rate + cc_timely_step cfg, 0)
     else if new_rtt > cc_timely_thigh cfg then
       let d = ucast ((UMAX * ucast (cc_timely_thigh cfg)) div ucast new_rtt) :: u32; b = UINT32_MAX - d;
           a = ucast ((ucast (cc_timely_beta cfg) * ucast b :: u64) div UMAX) :: u32 in
       (ucast ((ucast rate * ucast (UINT32_MAX - a) :: u64) div UMAX), 0)
     else if gradient \<le> 0 then
       if hai + 1 \<ge> 5 then (rate + cc_timely_step cfg * 5, hai) else (rate + cc_timely_step cfg, hai + 1)
     else
       let a = int64 (uint (cc_timely_beta cfg div 2) * gradient); b = a sdiv INT16_MAX;
           d = (if b \<le> INT32_MAX then int64 (INT32_MAX - b) else 0);
           e = int64 (uint rate * d); f = e sdiv INT32_MAX in
       (of_int f, 0))"

text \<open>The final clamps: at least half of the original rate, and at least the configured minimum.\<close>

definition timely_clamp :: "configuration \<Rightarrow> u32 \<Rightarrow> u32 \<Rightarrow> u32" where
  "timely_clamp cfg orig rate =
    (let rate = (if rate < orig div 2 then orig div 2 else rate) in
     if rate < cc_timely_min_rate cfg then cc_timely_min_rate cfg else rate)"

definition timely_update :: "configuration \<Rightarrow> connection \<Rightarrow> conn_stats \<Rightarrow> u32 \<Rightarrow> connection res" where
  "timely_update cfg c st cur_ts =
    (let cc = cc_tim c; new_rtt = st_rtt st in
     bind_res (actual_rate (st_ackb st) cur_ts (tm_last_ts cc)) (\<lambda>act.
     let avg = rate_avg (tm_act_rate cc) act; act = (if act \<ge> avg then act else avg); cc = cc\<lparr>tm_act_rate := avg\<rparr> in
     if new_rtt = 0 then Inr (c\<lparr>cc_tim := cc\<rparr>)
     else
       let ss = (tm_slowstart cc \<and> \<not> new_rtt > (cc_timely_tlow cfg + cc_timely_thigh cfg) div 2);
           orig = (if \<not> ss then clamp_rate (cc_rate c) act else cc_rate c);
           diff = (if tm_rtt_prev cc \<noteq> 0 then timely_rtt_diff cfg (tm_rtt_diff cc) (tm_rtt_prev cc) new_rtt else tm_rtt_diff cc) in
       bind_res (if tm_rtt_prev cc \<noteq> 0 then timely_gradient cfg diff else Inr 0) (\<lambda>gradient.
       let (rate, hai) = timely_step cfg ss orig (tm_hai_cnt cc) new_rtt gradient in
       Inr (c\<lparr>cc_rate := timely_clamp cfg orig rate, cc_rtt := st_rtt st, cc_rexmits := 0,
              cc_tim := cc\<lparr>tm_rtt_prev := new_rtt, tm_rtt_diff := diff, tm_hai_cnt := hai, tm_last_ts := cur_ts, tm_slowstart := ss\<rparr>\<rparr>))))"

section \<open>Constant rate\<close>

definition const_rate_init :: "configuration \<Rightarrow> connection \<Rightarrow> connection" where
  "const_rate_init cfg c = c\<lparr>cc_rate := cc_const_rate cfg\<rparr>"

definition const_rate_update :: "configuration \<Rightarrow> connection \<Rightarrow> conn_stats \<Rightarrow> connection" where
  "const_rate_update cfg c st = c\<lparr>cc_rtt := rtt_or_init cfg (st_rtt st), cc_rexmits := 0\<rparr>"

section \<open>Control loop\<close>

definition cc_conn_init :: "configuration \<Rightarrow> u32 \<Rightarrow> connection \<Rightarrow> connection res" where
  "cc_conn_init cfg cur_ts conn =
    (let c = conn\<lparr>cc_last_ts := cur_ts, cc_rtt := tcp_rtt_init cfg, cc_rexmits := 0\<rparr> in
     case cc_algorithm cfg of
       CONFIG_CC_DCTCP_WIN \<Rightarrow> dctcp_win_init cfg c
     | CONFIG_CC_DCTCP_RATE \<Rightarrow> Inr (dctcp_rate_init cfg c)
     | CONFIG_CC_TIMELY \<Rightarrow> Inr (timely_init cfg c)
     | CONFIG_CC_CONST_RATE \<Rightarrow> Inr (const_rate_init cfg c))"

text \<open>The switch of \<open>cc_poll\<close>.\<close>

definition cc_update :: "configuration \<Rightarrow> connection \<Rightarrow> conn_stats \<Rightarrow> u32 \<Rightarrow> connection res" where
  "cc_update cfg c st cur_ts =
    (case cc_algorithm cfg of
       CONFIG_CC_DCTCP_WIN \<Rightarrow> dctcp_win_update cfg c st
     | CONFIG_CC_DCTCP_RATE \<Rightarrow> dctcp_rate_update cfg c st cur_ts
     | CONFIG_CC_TIMELY \<Rightarrow> timely_update cfg c st cur_ts
     | CONFIG_CC_CONST_RATE \<Rightarrow> Inr (const_rate_update cfg c st))"

text \<open>Kernel statistics.\<close>

record kstats =
  ks_drops :: u64
  ks_ecn_marked :: u64
  ks_acks :: u64
  ks_kernel_rexmit :: u64

text \<open>\<open>TX\<close> pending without acknowledgements: count intervals, and after enough of them and two RTTs ask the fast
  path to retransmit; a full queue leaves the count for the next interval.\<close>

definition issue_retransmits :: "configuration \<Rightarrow> nicif \<Rightarrow> kstats \<Rightarrow> connection \<Rightarrow> conn_stats \<Rightarrow> u32
    \<Rightarrow> (nicif \<times> kstats \<times> connection) res" where
  "issue_retransmits cfg n ks c st cur_ts =
    (let rtt = rtt_or_init cfg (st_rtt st) in
     if st_txp st \<and> st_ackb st = 0 then
       let cnt = cnt_tx_pending c; c = c\<lparr>cnt_tx_pending := cnt + 1\<rparr> in
       if cnt = 0 then Inr (n, ks, c\<lparr>ts_tx_pending := cur_ts\<rparr>)
       else if cnt_tx_pending c \<ge> cc_rexmit_ints cfg \<and> cur_ts - ts_tx_pending c \<ge> 2 * rtt then
         bind_res (nicif_connection_retransmit n (c_flow_id c) (c_flow_group c)) (\<lambda>(n, ok).
           if ok then Inr (n, ks\<lparr>ks_kernel_rexmit := ks_kernel_rexmit ks + 1\<rparr>, c\<lparr>cnt_tx_pending := 0, cc_rexmits := cc_rexmits c + 1\<rparr>)
           else Inr (n, ks, c))
       else Inr (n, ks, c)
     else Inr (n, ks, c\<lparr>cnt_tx_pending := 0\<rparr>))"

text \<open>One connection of the loop; the flag says whether it was counted.  A failure of \<open>nicif_connection_setrate\<close> is ignored.\<close>

definition cc_poll_conn :: "configuration \<Rightarrow> u32 \<Rightarrow> nicif \<times> kstats \<Rightarrow> connection \<Rightarrow> (nicif \<times> kstats \<times> connection \<times> bool) res" where
  "cc_poll_conn cfg cur_ts nk c =
    (let (n, ks) = nk in
     if c_status c \<noteq> CONN_OPEN then Inr (n, ks, c, False)
     else if cur_ts - cc_last_ts c < cc_rtt c * cc_control_interval cfg then Inr (n, ks, c, False)
     else
       case nicif_connection_stats n (c_flow_id c) of None \<Rightarrow> Inl Abort
       | Some (n, st) \<Rightarrow>
           let ks = ks\<lparr>ks_drops := ks_drops ks + ucast (st_drops st), ks_ecn_marked := ks_ecn_marked ks + ucast (st_ecn st),
                      ks_acks := ks_acks ks + ucast (st_acks st)\<rparr> in
           bind_res (cc_update cfg c st cur_ts) (\<lambda>c.
           bind_res (issue_retransmits cfg n ks c st cur_ts) (\<lambda>(n, ks, c).
           let n = (case nicif_connection_setrate n (c_flow_id c) (cc_rate c) of None \<Rightarrow> n | Some n \<Rightarrow> n) in
           Inr (n, ks, c\<lparr>cc_last_ts := cur_ts\<rparr>, True))))"

text \<open>The loop over \<open>tcp_conns\<close>.\<close>

fun cc_poll_loop :: "configuration \<Rightarrow> u32 \<Rightarrow> nicif \<times> kstats \<Rightarrow> connection list \<Rightarrow> (nicif \<times> kstats \<times> connection list \<times> nat) res" where
  "cc_poll_loop cfg cur_ts (n, ks) [] = Inr (n, ks, [], 0)"
| "cc_poll_loop cfg cur_ts (n, ks) (c # cs) =
    bind_res (cc_poll_conn cfg cur_ts (n, ks) c) (\<lambda>(n, ks, c, b).
    bind_res (cc_poll_loop cfg cur_ts (n, ks) cs) (\<lambda>(n, ks, cs, k).
      Inr (n, ks, c # cs, (if b then k + 1 else k))))"

text \<open>\<open>prev_ts\<close> is the static \<open>last_ts\<close>.\<close>

definition cc_poll :: "configuration \<Rightarrow> u32 \<Rightarrow> u32 \<Rightarrow> nicif \<times> kstats \<Rightarrow> connection list \<Rightarrow> (u32 \<times> nicif \<times> kstats \<times> connection list \<times> nat) res" where
  "cc_poll cfg cur_ts prev_ts nk cs =
    (if cur_ts - prev_ts < cc_control_granularity cfg then Inr (prev_ts, fst nk, snd nk, cs, 0)
     else bind_res (cc_poll_loop cfg cur_ts nk cs) (\<lambda>(n, ks, cs, k). Inr (cur_ts, n, ks, cs, k)))"

text \<open>The time until the loop has work; \<open>MIN\<close> compares an unsigned with a non-negative signed number.\<close>

fun cc_next_loop :: "configuration \<Rightarrow> u32 \<Rightarrow> connection list \<Rightarrow> u32 \<Rightarrow> u32" where
  "cc_next_loop cfg cur_ts [] ts = ts"
| "cc_next_loop cfg cur_ts (c # cs) ts =
    (if c_status c \<noteq> CONN_OPEN then cc_next_loop cfg cur_ts cs ts
     else
       let next = cc_rtt c * cc_control_interval cfg - (cur_ts - cc_last_ts c) in
       cc_next_loop cfg cur_ts cs (if sint next \<ge> 0 then if ts < next then ts else next else 0))"

definition cc_next_ts :: "configuration \<Rightarrow> u32 \<Rightarrow> u32 \<Rightarrow> connection list \<Rightarrow> u32 res" where
  "cc_next_ts cfg cur_ts prev_ts cs =
    (if \<not> cur_ts \<ge> prev_ts then Inl Assert_fail
     else
       let ts = cc_next_loop cfg cur_ts cs UINT32_MAX; g = cc_control_granularity cfg - (cur_ts - prev_ts) in
       Inr (if ts = UINT32_MAX then UINT32_MAX else if ts > g then ts else g))"

end
