(* ===== verification/CcInv.thy ===== *)
theory CcInv
  imports CongControl
begin

unbundle bit_operations_syntax

text \<open>Correctness of the congestion control.\<close>

abbreviation M32 :: nat where "M32 \<equiv> 4294967295"

section \<open>DCTCP on natural numbers\<close>

text \<open>
  The window computation without machine integers: the average ECN rate as a fraction of \<open>2^32 - 1\<close>, and the
  window.  A window that would pass \<open>2^32\<close> stays as it is.
\<close>

definition ecn_avg :: "nat \<Rightarrow> nat \<Rightarrow> nat \<Rightarrow> nat \<Rightarrow> nat" where
  "ecn_avg weight old ecn acks =
    (if acks > 0 then ((min ecn acks * M32 div acks) * weight + old * (M32 - weight)) div M32 else old)"

definition grow :: "nat \<Rightarrow> nat \<Rightarrow> nat" where
  "grow w d = (if w + d < 4294967296 then w + d else w)"

definition dctcp_window :: "nat \<Rightarrow> nat \<Rightarrow> bool \<Rightarrow> nat \<Rightarrow> nat \<Rightarrow> nat \<Rightarrow> nat \<Rightarrow> nat \<Rightarrow> nat" where
  "dctcp_window w avg ss rexmits drops ecn acks ackb =
    (if ss \<and> drops = 0 \<and> ecn = 0 \<and> rexmits = 0 then grow w ackb
     else if drops > 0 \<or> rexmits > 0 then w div 2
     else if ecn > 0 \<and> (acks > 0 \<longrightarrow> min ecn acks > 0) then w * (M32 - avg div 2) div M32
     else grow w (ackb * 1400 div w))"

lemma ecn_avg_le:
  assumes "weight \<le> M32" "old \<le> M32"
  shows "ecn_avg weight old ecn acks \<le> M32" "acks > 0 \<Longrightarrow> min ecn acks * M32 div acks \<le> M32"
proof -
  show e: "min ecn acks * M32 div acks \<le> M32" if "acks > 0" for ecn acks :: nat
  proof -
    have "min ecn acks * M32 div acks \<le> acks * M32 div acks" by (rule div_le_mono) simp
    then show ?thesis using that by simp
  qed
  have "(min ecn acks * M32 div acks) * weight + old * (M32 - weight) \<le> M32 * M32" if "acks > 0"
  proof -
    have "(min ecn acks * M32 div acks) * weight \<le> M32 * weight" using e [OF that] by (rule mult_le_mono1)
    moreover have "old * (M32 - weight) \<le> M32 * (M32 - weight)" using assms(2) by (rule mult_le_mono1)
    moreover have "M32 * weight + M32 * (M32 - weight) = M32 * M32" using assms(1) by (simp flip: distrib_left)
    ultimately show ?thesis by linarith
  qed
  then show "ecn_avg weight old ecn acks \<le> M32"
    using assms(2) div_le_mono [of _ "M32 * M32" M32] by (fastforce simp: ecn_avg_def)
qed

lemma ecn_ewma_nat:
  assumes "c_acks > 0" "c_ecn \<le> c_acks"
  shows "unat (ecn_ewma cfg old c_ecn c_acks) = ecn_avg (unat (cc_dctcp_weight cfg)) (unat old) (unat c_ecn) (unat c_acks)"
proof -
  define e a w ol where "e = unat c_ecn" and "a = unat c_acks" and "w = unat (cc_dctcp_weight cfg)" and "ol = unat old"
  have b: "e \<le> a" "0 < a" "a \<le> M32" "w \<le> M32" "ol \<le> M32"
    using assms unat_u32_bound [of c_acks] unat_u32_bound [of "cc_dctcp_weight cfg"] unat_u32_bound [of old]
    by (simp_all add: e_def a_def w_def ol_def word_le_nat_alt word_less_nat_alt)
  define q where "q = e * M32 div a"
  have q: "q \<le> M32" using ecn_avg_le(2) [OF b(4,5), of a e] b(1,2) by (simp add: q_def min_def)
  have "e * M32 \<le> M32 * M32" using b(1,3) by (intro mult_le_mono1) simp
  then have r1: "unat ((ucast c_ecn * UMAX) div ucast c_acks :: u64) = q"
    by (simp add: unat_div unat_u64_mul e_def a_def q_def)
  have s1: "q * w \<le> M32 * w" "ol * (M32 - w) \<le> M32 * (M32 - w)" using q b(5) by (intro mult_le_mono1; simp)+
  have s2: "M32 * w + M32 * (M32 - w) = M32 * M32" using b(4) by (simp flip: distrib_left)
  have mw: "unat (UINT32_MAX - cc_dctcp_weight cfg) = M32 - w" using b(4) by (simp add: u32_nat w_def)
  have lt: "q * w < 18446744073709551616" "ol * (M32 - w) < 18446744073709551616"
      "q * w + ol * (M32 - w) < 18446744073709551616" "q * w + ol * (M32 - w) \<le> M32 * M32"
    using s1 s2 by linarith+
  have p: "unat (((ucast c_ecn * UMAX) div ucast c_acks) * ucast (cc_dctcp_weight cfg) :: u64) = q * w"
    "unat (ucast old * ucast (UINT32_MAX - cc_dctcp_weight cfg) :: u64) = ol * (M32 - w)"
    by (subst unat_u64_mul; simp add: r1 mw flip: w_def ol_def; use lt in simp)+
  have "unat (((ucast c_ecn * UMAX) div ucast c_acks) * ucast (cc_dctcp_weight cfg) + ucast old * ucast (UINT32_MAX - cc_dctcp_weight cfg) :: u64)
      = q * w + ol * (M32 - w)"
    using lt(3) p by (simp add: unat_u64_add)
  moreover have "(q * w + ol * (M32 - w)) div M32 \<le> M32" using div_le_mono [OF lt(4), of M32] by simp
  ultimately have "unat (ecn_ewma cfg old c_ecn c_acks) = (q * w + ol * (M32 - w)) div M32"
    by (simp add: ecn_ewma_def Let_def unat_u64_u32 unat_div)
  then show ?thesis
    using b by (simp add: ecn_avg_def q_def e_def [symmetric] a_def [symmetric] w_def [symmetric] ol_def [symmetric] min_def)
qed

lemma scale_nat:
  fixes x r :: u32
  shows "unat (ucast ((ucast x * ucast (UINT32_MAX - r div 2) :: u64) div UMAX) :: u32) = unat x * (M32 - unat r div 2) div M32"
    "unat x * (M32 - unat r div 2) div M32 \<le> unat x"
proof -
  define a b where "a = unat x" and "b = M32 - unat r div 2"
  have ab: "a \<le> M32" "b \<le> M32" using unat_u32_bound [of x] by (simp_all add: a_def b_def)
  have b: "unat (UINT32_MAX - r div 2) = b" using unat_u32_bound [of r] by (simp add: u32_nat unat_div b_def)
  have "a * b \<le> M32 * M32" using ab by (rule mult_le_mono)
  then have m: "unat (ucast x * ucast (UINT32_MAX - r div 2) :: u64) = a * b" using b by (simp add: unat_u64_mul a_def)
  have le: "a * b div M32 \<le> a" using div_le_mono [of "a * b" "a * M32" M32] ab(2) by simp
  then show "unat (ucast ((ucast x * ucast (UINT32_MAX - r div 2) :: u64) div UMAX) :: u32) = unat x * (M32 - unat r div 2) div M32"
    using m ab by (simp add: unat_u64_u32 unat_div a_def [symmetric] b_def [symmetric])
  show "unat x * (M32 - unat r div 2) div M32 \<le> unat x" using le by (simp add: a_def b_def)
qed

lemma grow_nat: "unat (if x + y > x then x + y else x :: u32) = grow (unat x) (unat y)"
  by (auto simp: u32_nat grow_def) (use unat_u32_bound [of y] in auto)

lemma additive_nat:
  fixes win ackb :: u32
  assumes "CONF_MSS \<le> win"
  shows "(let w' = ucast (ucast win + (ucast ackb * 1400 :: u64) div ucast win) in unat (if w' > win then w' else win))
    = grow (unat win) (unat ackb * 1400 div unat win)"
proof -
  define w b where "w = unat win" and "b = unat ackb"
  define i where "i = b * 1400 div w"
  have w: "1400 \<le> w" "w < 4294967296" "b < 4294967296"
    using assms unat_u32_bound [of win] unat_u32_bound [of ackb] by (simp_all add: w_def b_def word_le_nat_alt)
  have "i \<le> b * 1400 div 1400" unfolding i_def using w(1) by (intro div_le_mono2) simp_all
  then have i: "i < 4294967296" using w(3) by simp
  have m: "unat (ucast ackb * 1400 :: u64) = b * 1400" by (subst unat_u64_mul; simp add: b_def [symmetric]; use w in simp)
  then have d: "unat ((ucast ackb * 1400 :: u64) div ucast win) = i" by (simp add: unat_div i_def w_def)
  have "unat (ucast win + (ucast ackb * 1400 :: u64) div ucast win) = w + i"
    using d w i by (subst unat_u64_add) (simp_all add: w_def [symmetric])
  then have "unat (ucast (ucast win + (ucast ackb * 1400 :: u64) div ucast win) :: u32) = (w + i) mod 4294967296"
    by (simp add: unat_u64_u32)
  moreover have "unat (of_nat i :: u32) = i" using i by (simp add: unat_of_nat)
  ultimately have "unat (ucast (ucast win + (ucast ackb * 1400 :: u64) div ucast win) :: u32) = unat (win + of_nat i)"
    by (simp add: unat_word_ariths w_def)
  then have e: "ucast (ucast win + (ucast ackb * 1400 :: u64) div ucast win) = (win + of_nat i :: u32)"
    by (simp only: word_unat_eq_iff)
  show ?thesis
    unfolding Let_def e grow_nat using \<open>unat (of_nat i :: u32) = i\<close> by (simp add: i_def w_def b_def)
qed

lemma min_nat: "unat (if x \<le> y then x else y :: u32) = min (unat x) (unat y)"
  by (simp add: word_le_nat_alt min_def)

lemma dctcp_win_step_nat:
  fixes st :: conn_stats and cc :: cc_dctcp_win and rexmits :: u32
  assumes "CONF_MSS \<le> dw_window cc"
  defines "calm \<equiv> dw_slowstart cc \<and> st_drops st = 0 \<and> st_ecn st = 0 \<and> rexmits = 0"
    and "loss \<equiv> st_drops st > 0 \<or> rexmits > 0"
  shows "\<exists>win rate. dctcp_win_step cfg rexmits cc st = Inr (win, rate, calm) \<and>
    unat rate = (if calm \<or> loss then unat (dw_ecn_rate cc)
       else ecn_avg (unat (cc_dctcp_weight cfg)) (unat (dw_ecn_rate cc)) (unat (st_ecn st)) (unat (st_acks st))) \<and>
    unat win = dctcp_window (unat (dw_window cc)) (unat rate) (dw_slowstart cc) (unat rexmits) (unat (st_drops st))
      (unat (st_ecn st)) (unat (st_acks st)) (unat (st_ackb st))"
proof -
  let ?w = "dw_window cc"
  have g0: "unat x > 0 \<longleftrightarrow> x \<noteq> 0" for x :: u32 by (simp add: unat_gt_0)
  consider (calm) calm | (loss) "\<not> calm" loss | (avoid) "\<not> calm" "\<not> loss" by blast
  then show ?thesis
  proof cases
    case calm
    have "(if ?w + st_ackb st > ?w then ?w + st_ackb st else ?w) = (if dw_slowstart cc \<and> st_drops st = 0 \<and> st_ecn st = 0 \<and> rexmits = 0 \<and> ?w + st_ackb st > ?w then ?w + st_ackb st else ?w)"
      using calm by (simp add: calm_def)
    then have "dctcp_win_step cfg rexmits cc st = Inr (if ?w + st_ackb st > ?w then ?w + st_ackb st else ?w, dw_ecn_rate cc, True)"
      using calm by (simp add: dctcp_win_step_def Let_def calm_def)
    then show ?thesis
      using calm grow_nat [of ?w "st_ackb st"] by (auto simp: dctcp_window_def calm_def)
  next
    case loss
    have "dctcp_win_step cfg rexmits cc st = Inr (?w div 2, dw_ecn_rate cc, False)"
      using loss by (auto simp: dctcp_win_step_def Let_def calm_def loss_def)
    then show ?thesis
      using loss by (auto simp: dctcp_window_def calm_def loss_def unat_div unat_eq_0 word_gt_0)
  next
    case avoid
    define e where "e = (if st_acks st > 0 then if st_ecn st \<le> st_acks st then st_ecn st else st_acks st else st_ecn st)"
    define r where "r = (if st_acks st > 0 then ecn_ewma cfg (dw_ecn_rate cc) e (st_acks st) else dw_ecn_rate cc)"
    have d0: "st_drops st = 0" "rexmits = 0" and ss: "dw_slowstart cc \<Longrightarrow> st_ecn st \<noteq> 0"
      using avoid by (auto simp: calm_def loss_def word_gt_0)
    have e: "unat e = (if unat (st_acks st) > 0 then min (unat (st_ecn st)) (unat (st_acks st)) else unat (st_ecn st))"
      by (simp add: e_def min_nat g0 word_gt_0)
    have le: "e \<le> st_acks st" if "st_acks st > 0" using that by (auto simp: e_def)
    have r: "unat r = ecn_avg (unat (cc_dctcp_weight cfg)) (unat (dw_ecn_rate cc)) (unat (st_ecn st)) (unat (st_acks st))"
    proof (cases "st_acks st > 0")
      case True
      then show ?thesis using ecn_ewma_nat [OF True le [OF True], of cfg "dw_ecn_rate cc"] e by (simp add: r_def ecn_avg_def)
    next
      case False
      then have "st_acks st = 0" by (simp add: word_gt_0)
      then show ?thesis by (simp add: r_def ecn_avg_def)
    qed
    have pos: "e > 0 \<longleftrightarrow> unat (st_ecn st) > 0 \<and> (unat (st_acks st) > 0 \<longrightarrow> min (unat (st_ecn st)) (unat (st_acks st)) > 0)"
    proof -
      have "e > 0 \<longleftrightarrow> unat e > 0" by (simp add: word_less_nat_alt)
      then show ?thesis unfolding e by auto
    qed
    define k where "k = (let w' = ucast (ucast ?w + (ucast (st_ackb st) * 1400 :: u64) div ucast ?w) in if w' > ?w then w' else ?w)"
    have k: "unat k = grow (unat ?w) (unat (st_ackb st) * 1400 div unat ?w)"
      using additive_nat [OF assms(1), of "st_ackb st"] by (simp add: k_def Let_def)
    have w0: "?w \<noteq> 0" using assms(1) by auto
    have step: "dctcp_win_step cfg rexmits cc st =
        Inr (if e > 0 then ucast ((ucast ?w * ucast (UINT32_MAX - r div 2) :: u64) div UMAX) else k, r, False)"
      unfolding dctcp_win_step_def e_def [symmetric] Let_def r_def [symmetric]
      using d0 ss w0 by (auto simp: k_def Let_def)
    show ?thesis
    proof (cases "e > 0")
      case True
      then show ?thesis
        using step scale_nat(1) [of ?w r] r pos avoid d0 ss by (auto simp: dctcp_window_def calm_def loss_def unat_eq_0)
    next
      case False
      then have "\<not> (unat (st_ecn st) > 0 \<and> (unat (st_acks st) > 0 \<longrightarrow> min (unat (st_ecn st)) (unat (st_acks st)) > 0))" using pos by simp
      then have "dctcp_window (unat ?w) (unat r) (dw_slowstart cc) (unat rexmits) (unat (st_drops st)) (unat (st_ecn st)) (unat (st_acks st)) (unat (st_ackb st))
          = grow (unat ?w) (unat (st_ackb st) * 1400 div unat ?w)"
        using d0 ss by (auto simp: dctcp_window_def unat_eq_0)
      then show ?thesis using step False k r avoid by (auto simp: calm_def loss_def)
    qed
  qed
qed

section \<open>The window algorithm computes the reference\<close>

lemma window_to_rate_ok:
  assumes "tcp_link_bw cfg \<noteq> 0" "0 < unat rtt" "unat rtt \<le> 4294967"
  shows "\<exists>r. window_to_rate cfg win rtt = Inr r \<and> unat r \<le> unat win * 8000 div unat rtt"
proof -
  define w r where "w = unat win" and "r = unat rtt"
  have b: "w < 4294967296" "0 < r" "r \<le> 4294967" using unat_u32_bound [of win] assms by (simp_all add: w_def r_def)
  have m: "unat (ucast (rtt * 1000) :: u64) = r * 1000"
    using b by (simp add: unat_word_ariths r_def [symmetric])
  define t where "t = ((ucast win * 8 * 1000) div ucast (tcp_link_bw cfg) :: u64) div 1000"
  define time where "time = (if t < ucast (rtt * 1000) then ucast (rtt * 1000) else t)"
  have time: "r * 1000 \<le> unat time" using m by (auto simp: time_def word_less_nat_alt not_less)
  then have time0: "time \<noteq> 0" using b(2) by auto
  have bw: "ucast (tcp_link_bw cfg) \<noteq> (0 :: u64)" using assms(1) by (metis unat_u32_u64 unat_eq_0)
  define rate where "rate = (ucast win * 8 * 1000000 :: u64) div time"
  have "unat (ucast win * 8 * 1000000 :: u64) = w * 8000000"
    using b(1) by (simp add: unat_word_ariths w_def [symmetric])
  then have "unat rate = w * 8000000 div unat time" by (simp only: rate_def unat_div)
  also have "\<dots> \<le> w * 8000000 div (r * 1000)" by (rule div_le_mono2) (use time b(2) in simp_all)
  also have "w * 8000000 div (r * 1000) = w * 8000 div r"
    using div_mult_mult2 [of 1000 "w * 8000" r] by simp
  finally have rate: "unat rate \<le> w * 8000 div r" .
  have run: "window_to_rate cfg win rtt = Inr (ucast (if rate > UMAX then UMAX else rate))"
    unfolding window_to_rate_def cdiv_def if_not_P [OF bw] bind_res_simps Let_def t_def [symmetric]
      time_def [symmetric] rate_def [symmetric] if_not_P [OF time0] ..
  have "unat (ucast (if rate > UMAX then UMAX else rate) :: u32) \<le> unat rate"
    by (auto simp: unat_u64_u32 word_less_nat_alt)
  then show ?thesis using run rate by (auto simp: w_def r_def)
qed

text \<open>The statistics of an interval and a configuration under which the window algorithm is defined.\<close>

definition rtt_sane :: "configuration \<Rightarrow> u32 \<Rightarrow> bool" where
  "rtt_sane cfg rtt \<longleftrightarrow> 0 < unat (rtt_or_init cfg rtt) \<and> unat (rtt_or_init cfg rtt) \<le> 4294967"

lemma dctcp_win_update_nat:
  assumes "CONF_MSS \<le> dw_window (cc_win c)" "CONF_MSS \<le> c_tx_len c" "tcp_link_bw cfg \<noteq> 0" "rtt_sane cfg (st_rtt st)"
  shows "\<exists>r win rate ss. dctcp_win_update cfg c st = Inr (c\<lparr>cc_rtt := rtt_or_init cfg (st_rtt st), cc_rate := r, cc_rexmits := 0,
       cc_win := \<lparr>dw_ecn_rate = rate, dw_window = win, dw_slowstart = ss\<rparr>\<rparr>) \<and>
     ss = (dw_slowstart (cc_win c) \<and> st_drops st = 0 \<and> st_ecn st = 0 \<and> cc_rexmits c = 0) \<and>
     unat rate = (if ss \<or> st_drops st > 0 \<or> cc_rexmits c > 0 then unat (dw_ecn_rate (cc_win c))
       else ecn_avg (unat (cc_dctcp_weight cfg)) (unat (dw_ecn_rate (cc_win c))) (unat (st_ecn st)) (unat (st_acks st))) \<and>
     unat win = min (max 1400 (dctcp_window (unat (dw_window (cc_win c))) (unat rate) (dw_slowstart (cc_win c)) (unat (cc_rexmits c))
       (unat (st_drops st)) (unat (st_ecn st)) (unat (st_acks st)) (unat (st_ackb st)))) (unat (c_tx_len c)) \<and>
     unat r \<le> unat win * 8000 div unat (rtt_or_init cfg (st_rtt st))"
proof -
  let ?cc = "cc_win c" and ?rtt = "rtt_or_init cfg (st_rtt st)"
  define ss where "ss \<longleftrightarrow> dw_slowstart ?cc \<and> st_drops st = 0 \<and> st_ecn st = 0 \<and> cc_rexmits c = 0"
  obtain w0 rate where w0: "dctcp_win_step cfg (cc_rexmits c) ?cc st = Inr (w0, rate, ss)"
    "unat rate = (if ss \<or> st_drops st > 0 \<or> cc_rexmits c > 0 then unat (dw_ecn_rate ?cc)
       else ecn_avg (unat (cc_dctcp_weight cfg)) (unat (dw_ecn_rate ?cc)) (unat (st_ecn st)) (unat (st_acks st)))"
    "unat w0 = dctcp_window (unat (dw_window ?cc)) (unat rate) (dw_slowstart ?cc) (unat (cc_rexmits c))
       (unat (st_drops st)) (unat (st_ecn st)) (unat (st_acks st)) (unat (st_ackb st))"
    using dctcp_win_step_nat [OF assms(1), where st = st and rexmits = "cc_rexmits c" and cfg = cfg] by (auto simp: ss_def)
  define w1 where "w1 = (if w0 < CONF_MSS then CONF_MSS else w0)"
  define win where "win = (if w1 > c_tx_len c then c_tx_len c else w1)"
  have win: "unat win = min (max 1400 (unat w0)) (unat (c_tx_len c))"
    by (auto simp: win_def w1_def word_less_nat_alt min_def max_def)
  then have mss: "CONF_MSS \<le> win" using assms(2) by (simp add: word_le_nat_alt)
  obtain r where r: "window_to_rate cfg win ?rtt = Inr r" "unat r \<le> unat win * 8000 div unat ?rtt"
    using window_to_rate_ok [OF assms(3), of ?rtt win] assms(4) by (auto simp: rtt_sane_def)
  have upd: "dctcp_win_update cfg c st = Inr (c\<lparr>cc_rtt := ?rtt, cc_rate := r, cc_rexmits := 0,
       cc_win := \<lparr>dw_ecn_rate = rate, dw_window = win, dw_slowstart = ss\<rparr>\<rparr>)"
    unfolding dctcp_win_update_def Let_def w0(1) bind_res_simps prod.case w1_def [symmetric] win_def [symmetric] r(1)
    using assms(1) mss by simp
  show ?thesis
    by (intro exI conjI) (rule upd, rule ss_def, rule w0(2), rule win [unfolded w0(3)], rule r(2))
qed

text \<open>
  C20: the window-based DCTCP update on machine integers computes exactly the reference on natural numbers, without
  overflow: slow start adds the acknowledged bytes, a loss halves the window, ECN marks reduce it by half
  their average rate, otherwise it grows by an MSS per window; the result is clamped to one MSS and the send
  buffer, and the rate sends at most one window per RTT.
\<close>

theorem dctcp_win_refines:
  assumes "CONF_MSS \<le> dw_window (cc_win c)" "CONF_MSS \<le> c_tx_len c" "tcp_link_bw cfg \<noteq> 0" "rtt_sane cfg (st_rtt st)"
  shows "\<exists>c'. dctcp_win_update cfg c st = Inr c' \<and>
     unat (dw_window (cc_win c')) = min (max 1400 (dctcp_window (unat (dw_window (cc_win c))) (unat (dw_ecn_rate (cc_win c')))
       (dw_slowstart (cc_win c)) (unat (cc_rexmits c)) (unat (st_drops st)) (unat (st_ecn st)) (unat (st_acks st)) (unat (st_ackb st))))
       (unat (c_tx_len c)) \<and>
     unat (dw_ecn_rate (cc_win c')) = (if dw_slowstart (cc_win c') \<or> st_drops st > 0 \<or> cc_rexmits c > 0 then unat (dw_ecn_rate (cc_win c))
       else ecn_avg (unat (cc_dctcp_weight cfg)) (unat (dw_ecn_rate (cc_win c))) (unat (st_ecn st)) (unat (st_acks st))) \<and>
     unat (cc_rate c') \<le> unat (dw_window (cc_win c')) * 8000 div unat (cc_rtt c')"
  using dctcp_win_update_nat [OF assms] by fastforce

end
