(* ===== verification/CcLoop.thy ===== *)
theory CcLoop
  imports CcInv NicifInv
begin

text \<open>
  The control loop of the congestion control: the contract each of the four algorithms keeps, the dispatch between
  them, and what an iteration over all connections guarantees.
\<close>

section \<open>The contract of a rate control algorithm\<close>

text \<open>What the control loop leaves alone in a connection when it updates its rate.\<close>

definition conn_frame :: "connection \<Rightarrow> connection \<Rightarrow> bool" where
  "conn_frame c c' \<longleftrightarrow> c_status c' = c_status c \<and> c_flow_id c' = c_flow_id c \<and> c_flow_group c' = c_flow_group c \<and>
     c_tx_len c' = c_tx_len c"

locale rate_control =
  fixes upd :: "connection \<Rightarrow> conn_stats \<Rightarrow> u32 \<Rightarrow> connection res" and inv :: "connection \<Rightarrow> bool"
    and good :: "connection \<Rightarrow> conn_stats \<Rightarrow> u32 \<Rightarrow> bool"
  assumes upd_ok: "inv c \<Longrightarrow> good c st now \<Longrightarrow> \<exists>c'. upd c st now = Inr c' \<and> inv c' \<and> conn_frame c c'"
    and bookkeeping: "inv (c\<lparr>cnt_tx_pending := a, ts_tx_pending := b, cc_last_ts := t, cc_rexmits := x\<rparr>) = inv c"
begin

text \<open>An update together with the loop's bookkeeping keeps the invariant.\<close>

lemma serviced:
  assumes "inv c" "good c st now"
  obtains c' where "upd c st now = Inr c'" "conn_frame c c'"
    "\<And>a b t x. inv (c'\<lparr>cnt_tx_pending := a, ts_tx_pending := b, cc_last_ts := t, cc_rexmits := x\<rparr>)"
  using upd_ok [OF assms] bookkeeping by blast

end

definition win_inv :: "connection \<Rightarrow> bool" where
  "win_inv c \<longleftrightarrow> CONF_MSS \<le> dw_window (cc_win c) \<and> dw_window (cc_win c) \<le> c_tx_len c"

definition win_good :: "configuration \<Rightarrow> conn_stats \<Rightarrow> bool" where
  "win_good cfg st \<longleftrightarrow> tcp_link_bw cfg \<noteq> 0 \<and> rtt_sane cfg (st_rtt st)"

lemma win_update_ok:
  assumes "win_inv c" "win_good cfg st"
  shows "\<exists>c'. dctcp_win_update cfg c st = Inr c' \<and> win_inv c' \<and> conn_frame c c'"
proof -
  have "CONF_MSS \<le> c_tx_len c" using assms(1) by (auto simp: win_inv_def)
  then obtain r win rate ss where u: "dctcp_win_update cfg c st = Inr (c\<lparr>cc_rtt := rtt_or_init cfg (st_rtt st), cc_rate := r, cc_rexmits := 0,
       cc_win := \<lparr>dw_ecn_rate = rate, dw_window = win, dw_slowstart = ss\<rparr>\<rparr>)"
     "\<exists>x. unat win = min (max 1400 x) (unat (c_tx_len c))"
    using dctcp_win_update_nat [of c cfg st] assms unfolding win_inv_def win_good_def by blast
  have "CONF_MSS \<le> win \<and> win \<le> c_tx_len c"
    using u(2) \<open>CONF_MSS \<le> c_tx_len c\<close> by (auto simp: word_le_nat_alt)
  then show ?thesis using u(1) by (simp add: win_inv_def conn_frame_def)
qed

interpretation dctcp_win: rate_control "\<lambda>c st now. dctcp_win_update cfg c st" win_inv "\<lambda>c st now. win_good cfg st" for cfg
  by unfold_locales (erule (1) win_update_ok, simp add: win_inv_def)

definition rate_inv :: "configuration \<Rightarrow> connection \<Rightarrow> bool" where
  "rate_inv cfg c \<longleftrightarrow> cc_dctcp_min cfg \<le> cc_rate c"

lemma actual_rate_ok: "last_ts = 0 \<or> now \<noteq> last_ts \<Longrightarrow> \<exists>r. actual_rate b now last_ts = Inr r"
  by (auto simp: actual_rate_def)

lemma rate_update_ok:
  assumes "rate_inv cfg c" "cc_last_ts c = 0 \<or> now \<noteq> cc_last_ts c"
  shows "\<exists>c'. dctcp_rate_update cfg c st now = Inr c' \<and> rate_inv cfg c' \<and> conn_frame c c'"
proof -
  obtain act where act: "actual_rate (dr_unproc_ackb (cc_drate c) + st_ackb st) now (cc_last_ts c) = Inr act"
    using actual_rate_ok [OF assms(2)] by blast
  show ?thesis
    using assms(1) act by (auto simp: dctcp_rate_update_def Let_def rate_inv_def conn_frame_def split: prod.splits)
qed

interpretation dctcp_rate: rate_control "dctcp_rate_update cfg" "rate_inv cfg"
    "\<lambda>c st now. cc_last_ts c = 0 \<or> now \<noteq> cc_last_ts c" for cfg
  by unfold_locales (erule (1) rate_update_ok, simp add: rate_inv_def)

definition timely_inv :: "configuration \<Rightarrow> connection \<Rightarrow> bool" where
  "timely_inv cfg c \<longleftrightarrow> cc_timely_min_rate cfg \<le> cc_rate c"

definition timely_good :: "configuration \<Rightarrow> connection \<Rightarrow> u32 \<Rightarrow> bool" where
  "timely_good cfg c now \<longleftrightarrow> cc_timely_min_rtt cfg \<noteq> 0 \<and> (tm_last_ts (cc_tim c) = 0 \<or> now \<noteq> tm_last_ts (cc_tim c))"

lemma timely_clamp_min: "cc_timely_min_rate cfg \<le> timely_clamp cfg orig rate"
  by (simp add: timely_clamp_def Let_def not_less)

lemma timely_update_ok:
  assumes "timely_inv cfg c" "timely_good cfg c now"
  shows "\<exists>c'. timely_update cfg c st now = Inr c' \<and> timely_inv cfg c' \<and> conn_frame c c'"
proof -
  obtain act where act: "actual_rate (st_ackb st) now (tm_last_ts (cc_tim c)) = Inr act"
    using actual_rate_ok [of "tm_last_ts (cc_tim c)" now "st_ackb st"] assms(2) by (auto simp: timely_good_def)
  define g where "g = (\<lambda>d. int64 (d * INT16_MAX) sdiv uint (cc_timely_min_rtt cfg))"
  have g: "timely_gradient cfg d = Inr (g d)" for d
    using assms(2) by (simp add: timely_gradient_def timely_good_def g_def)
  show ?thesis
  proof (cases "st_rtt st = 0")
    case True
    then show ?thesis using assms(1) act by (simp add: timely_update_def Let_def timely_inv_def conn_frame_def)
  next
    case False
    then show ?thesis
      using timely_clamp_min
      by (cases "tm_rtt_prev (cc_tim c) = 0")
        (simp_all add: timely_update_def Let_def act g timely_inv_def conn_frame_def case_prod_unfold split del: if_split)
  qed
qed

interpretation timely: rate_control "timely_update cfg" "timely_inv cfg" "\<lambda>c st now. timely_good cfg c now" for cfg
  by unfold_locales (erule (1) timely_update_ok, simp add: timely_inv_def)

interpretation const_rate: rate_control "\<lambda>c st now. Inr (const_rate_update cfg c st)" "\<lambda>c. cc_rate c = cc_const_rate cfg"
    "\<lambda>c st now. True" for cfg
  by unfold_locales (auto simp: const_rate_update_def conn_frame_def)

text \<open>The dispatch of the control loop satisfies the contract because each algorithm does.\<close>

definition cc_inv :: "configuration \<Rightarrow> connection \<Rightarrow> bool" where
  "cc_inv cfg c = (case cc_algorithm cfg of CONFIG_CC_DCTCP_WIN \<Rightarrow> win_inv c | CONFIG_CC_DCTCP_RATE \<Rightarrow> rate_inv cfg c
     | CONFIG_CC_TIMELY \<Rightarrow> timely_inv cfg c | CONFIG_CC_CONST_RATE \<Rightarrow> cc_rate c = cc_const_rate cfg)"

definition cc_good :: "configuration \<Rightarrow> connection \<Rightarrow> conn_stats \<Rightarrow> u32 \<Rightarrow> bool" where
  "cc_good cfg c st now \<longleftrightarrow> win_good cfg st \<and> (cc_last_ts c = 0 \<or> now \<noteq> cc_last_ts c) \<and> timely_good cfg c now"

interpretation cc: rate_control "cc_update cfg" "cc_inv cfg" "cc_good cfg" for cfg
proof unfold_locales
  fix c st now
  assume i: "cc_inv cfg c" and g: "cc_good cfg c st now"
  then show "\<exists>c'. cc_update cfg c st now = Inr c' \<and> cc_inv cfg c' \<and> conn_frame c c'"
    by (cases "cc_algorithm cfg")
      (simp_all add: cc_update_def cc_inv_def cc_good_def dctcp_win.upd_ok dctcp_rate.upd_ok timely.upd_ok const_rate.upd_ok
        del: sum.inject)
next
  fix c a b t x
  show "cc_inv cfg (c\<lparr>cnt_tx_pending := a, ts_tx_pending := b, cc_last_ts := t, cc_rexmits := x\<rparr>) = cc_inv cfg c"
    by (cases "cc_algorithm cfg") (simp_all add: cc_inv_def win_inv_def rate_inv_def timely_inv_def)
qed

section \<open>The control loop\<close>

text \<open>The kernel's transmit queues have their tails in range, and flow groups are steered to existing cores.\<close>

definition ktx_ok :: "nicif \<Rightarrow> bool" where
  "ktx_ok n \<longleftrightarrow> txq_len n = rxq_len n \<and> (\<forall>t \<in> set (txq_tail n). t < txq_len n) \<and>
     (\<forall>x \<in> set (steering (nic n)). unat x < length (txq_tail n))"

definition nic_ok :: "configuration \<Rightarrow> nicif \<Rightarrow> bool" where
  "nic_ok cfg n \<longleftrightarrow> ktx_ok n \<and> (\<forall>fs \<in> set (flows (nic n)). rtt_sane cfg (rtt_est fs))"

definition same_shape :: "nicif \<Rightarrow> nicif \<Rightarrow> bool" where
  "same_shape n n' \<longleftrightarrow> length (flows (nic n')) = length (flows (nic n)) \<and> steering (nic n') = steering (nic n)"

lemma ktx_try_alloc_ok:
  assumes "ktx_ok n" "core < length (txq_tail n)"
  shows "ktx_try_alloc n core = Inr None \<or> (\<exists>a b t. ktx_try_alloc n core = Inr (Some (a, b, t)) \<and> t < txq_len n)"
proof -
  let ?t = "txq_tail n ! core"
  have "?t \<in> set (txq_tail n)" using assms(2) by simp
  then have t: "?t < txq_len n" "txq_len n = rxq_len n" using assms(1) unfolding ktx_ok_def by blast+
  have "(if ?t + 1 = rxq_len n then ?t + 1 - rxq_len n else ?t + 1) < txq_len n"
  proof (cases "?t + 1 = rxq_len n")
    case True
    then have "unat (?t + 1 - rxq_len n) = 0" by simp
    then show ?thesis using True t(1) by (simp add: word_less_nat_alt)
  next
    case False
    then have "unat (?t + 1) \<noteq> unat (rxq_len n)" using word_unat_eq_iff by metis
    moreover have "unat (?t + 1) = unat ?t + 1" using t(1) unat_u32_bound [of "txq_len n"] by (simp add: u32_nat)
    ultimately show ?thesis using False t by (simp add: word_less_nat_alt)
  qed
  then show ?thesis using t(1) by (simp add: ktx_try_alloc_def Let_def)
qed

lemma retransmit_ok:
  assumes "ktx_ok n" "unat fg < length (steering (nic n))"
  shows "\<exists>n' b. nicif_connection_retransmit n f fg = Inr (n', b) \<and> ktx_ok n' \<and> flows (nic n') = flows (nic n) \<and>
    steering (nic n') = steering (nic n)"
proof -
  let ?core = "unat (steering (nic n) ! unat fg)"
  have core: "?core < length (txq_tail n)" using assms by (simp add: ktx_ok_def)
  from ktx_try_alloc_ok [OF assms(1) core] show ?thesis
  proof (elim disjE exE conjE)
    assume "ktx_try_alloc n ?core = Inr None"
    then show ?thesis using assms(1) by (auto simp: nicif_connection_retransmit_def)
  next
    fix a b t assume r: "ktx_try_alloc n ?core = Inr (Some (a, b, t))" "t < txq_len n"
    have "\<forall>x \<in> set ((txq_tail n)[?core := t]). x < txq_len n"
      using assms(1) r(2) by (auto simp: ktx_ok_def dest!: subsetD [OF set_update_subset_insert])
    then show ?thesis
      using r(1) assms(1) by (auto simp: nicif_connection_retransmit_def Let_def ktx_ok_def kick_core_def split: prod.splits)
  qed
qed

lemma issue_retransmits_ok:
  assumes "ktx_ok n" "unat (c_flow_group c) < length (steering (nic n))"
  shows "\<exists>n' ks' a b x. issue_retransmits cfg n ks c st now =
      Inr (n', ks', c\<lparr>cnt_tx_pending := a, ts_tx_pending := b, cc_rexmits := x\<rparr>) \<and>
    ktx_ok n' \<and> flows (nic n') = flows (nic n) \<and> steering (nic n') = steering (nic n)"
proof -
  obtain n' b where r: "nicif_connection_retransmit n (c_flow_id c) (c_flow_group c) = Inr (n', b)" "ktx_ok n'"
    "flows (nic n') = flows (nic n)" "steering (nic n') = steering (nic n)"
    using retransmit_ok [OF assms] by blast
  have i: "\<exists>a b' x. c' = c\<lparr>cnt_tx_pending := a, ts_tx_pending := b', cc_rexmits := x\<rparr>"
    if "c' = c \<or> c' = c\<lparr>cnt_tx_pending := 0\<rparr> \<or> c' = c\<lparr>cnt_tx_pending := cnt_tx_pending c + 1\<rparr> \<or>
        c' = c\<lparr>cnt_tx_pending := cnt_tx_pending c + 1, ts_tx_pending := now\<rparr> \<or>
        c' = c\<lparr>cnt_tx_pending := 0, cc_rexmits := cc_rexmits c + 1\<rparr>" for c'
    using that
    by (intro exI [of _ "cnt_tx_pending c'"] exI [of _ "ts_tx_pending c'"] exI [of _ "cc_rexmits c'"]) auto
  show ?thesis
  proof (cases "st_txp st \<and> st_ackb st = 0 \<and> cnt_tx_pending c \<noteq> 0 \<and> cnt_tx_pending c + 1 \<ge> cc_rexmit_ints cfg \<and>
      now - ts_tx_pending c \<ge> 2 * rtt_or_init cfg (st_rtt st)")
    case True
    then have "\<exists>ks' c'. issue_retransmits cfg n ks c st now = Inr (n', ks', c') \<and>
        (c' = c\<lparr>cnt_tx_pending := cnt_tx_pending c + 1\<rparr> \<or> c' = c\<lparr>cnt_tx_pending := 0, cc_rexmits := cc_rexmits c + 1\<rparr>)"
      using r(1) by (simp add: issue_retransmits_def Let_def)
    then obtain ks' c' where e: "issue_retransmits cfg n ks c st now = Inr (n', ks', c')"
      "c' = c\<lparr>cnt_tx_pending := cnt_tx_pending c + 1\<rparr> \<or> c' = c\<lparr>cnt_tx_pending := 0, cc_rexmits := cc_rexmits c + 1\<rparr>" by blast
    then obtain a b x where "c' = c\<lparr>cnt_tx_pending := a, ts_tx_pending := b, cc_rexmits := x\<rparr>" using i by blast
    then show ?thesis using e(1) r(2-4) by blast
  next
    case False
    then have "\<exists>c'. issue_retransmits cfg n ks c st now = Inr (n, ks, c') \<and>
        (c' = c\<lparr>cnt_tx_pending := 0\<rparr> \<or> c' = c\<lparr>cnt_tx_pending := cnt_tx_pending c + 1\<rparr> \<or>
         c' = c\<lparr>cnt_tx_pending := cnt_tx_pending c + 1, ts_tx_pending := now\<rparr>)"
      by (auto simp: issue_retransmits_def Let_def)
    then obtain c' where e: "issue_retransmits cfg n ks c st now = Inr (n, ks, c')"
      "c' = c\<lparr>cnt_tx_pending := 0\<rparr> \<or> c' = c\<lparr>cnt_tx_pending := cnt_tx_pending c + 1\<rparr> \<or>
         c' = c\<lparr>cnt_tx_pending := cnt_tx_pending c + 1, ts_tx_pending := now\<rparr>" by blast
    then obtain a b x where "c' = c\<lparr>cnt_tx_pending := a, ts_tx_pending := b, cc_rexmits := x\<rparr>" using i by blast
    then show ?thesis using e(1) assms(1) by blast
  qed
qed

text \<open>A connection is due when it is open and its control interval has passed.\<close>

definition cc_due :: "configuration \<Rightarrow> u32 \<Rightarrow> connection \<Rightarrow> bool" where
  "cc_due cfg now c \<longleftrightarrow> c_status c = CONN_OPEN \<and> \<not> now - cc_last_ts c < cc_rtt c * cc_control_interval cfg"

text \<open>What the loop relies on for a due connection: the invariant of its algorithm, an existing flow and flow group, and
  that time has passed since its last update.\<close>

definition conn_ok :: "configuration \<Rightarrow> u32 \<Rightarrow> nicif \<Rightarrow> connection \<Rightarrow> bool" where
  "conn_ok cfg now n c \<longleftrightarrow> cc_inv cfg c \<and> unat (c_flow_id c) < length (flows (nic n)) \<and>
     unat (c_flow_group c) < length (steering (nic n)) \<and> (cc_last_ts c = 0 \<or> now \<noteq> cc_last_ts c) \<and> timely_good cfg c now"

text \<open>The statistics of a flow, and a flow whose counters have been read.\<close>

definition stats_of :: "flowst \<Rightarrow> conn_stats" where
  "stats_of fs = \<lparr>st_drops = cnt_tx_drops fs, st_acks = cnt_rx_acks fs, st_ackb = cnt_rx_ack_bytes fs, st_ecn = cnt_rx_ecn fs,
     st_txp = (tx_sent fs \<noteq> 0), st_rtt = rtt_est fs\<rparr>"

definition cleared :: "flowst \<Rightarrow> bool" where
  "cleared fs \<longleftrightarrow> cnt_tx_drops fs = 0 \<and> cnt_rx_acks fs = 0 \<and> cnt_rx_ack_bytes fs = 0 \<and> cnt_rx_ecn fs = 0"

text \<open>\<open>c'\<close> is what one update of the algorithm with the statistics \<open>st\<close> makes of \<open>c\<close>, up to the retransmission counters and the time stamp.\<close>

definition updated_once :: "configuration \<Rightarrow> u32 \<Rightarrow> conn_stats \<Rightarrow> connection \<Rightarrow> connection \<Rightarrow> bool" where
  "updated_once cfg now st c c' \<longleftrightarrow> (\<exists>c1 a b x. cc_update cfg c st now = Inr c1 \<and>
     c' = c1\<lparr>cnt_tx_pending := a, ts_tx_pending := b, cc_rexmits := x, cc_last_ts := now\<rparr>)"

text \<open>What the loop, started in the NIC state \<open>n0\<close>, does to a connection, and to its flow in the final state \<open>n\<close>.\<close>

definition polled :: "configuration \<Rightarrow> u32 \<Rightarrow> nicif \<Rightarrow> nicif \<Rightarrow> connection \<Rightarrow> connection \<Rightarrow> bool" where
  "polled cfg now n0 n c c' =
    (if cc_due cfg now c then updated_once cfg now (stats_of (flows (nic n0) ! unat (c_flow_id c))) c c' \<and>
       cc_inv cfg c' \<and> conn_frame c c' \<and> cc_last_ts c' = now \<and>
       tx_rate (flows (nic n) ! unat (c_flow_id c')) = cc_rate c' \<and> cleared (flows (nic n) ! unat (c_flow_id c'))
     else c' = c)"

lemma rtt_sane_update:
  assumes "\<forall>fs \<in> set (flows (nic n)). rtt_sane cfg (rtt_est fs)" "rtt_sane cfg (rtt_est fs)"
  shows "\<forall>x \<in> set ((flows (nic n))[i := fs]). rtt_sane cfg (rtt_est x)"
  using assms by (auto dest!: subsetD [OF set_update_subset_insert])

lemma ktx_ok_flows: "ktx_ok (n\<lparr>nic := (nic n)\<lparr>flows := x\<rparr>\<rparr>) = ktx_ok n"
  by (simp add: ktx_ok_def)

lemma stats_ok:
  assumes "nic_ok cfg n" "unat f < length (flows (nic n))"
  shows "\<exists>n' st. nicif_connection_stats n f = Some (n', st) \<and> nic_ok cfg n' \<and> same_shape n n' \<and> rtt_sane cfg (st_rtt st) \<and>
    st = stats_of (flows (nic n) ! unat f) \<and> cleared (flows (nic n') ! unat f) \<and>
    (\<forall>i. i \<noteq> unat f \<longrightarrow> flows (nic n') ! i = flows (nic n) ! i)"
proof -
  have m: "flows (nic n) ! unat f \<in> set (flows (nic n))" using assms(2) by simp
  then have r: "rtt_sane cfg (rtt_est (flows (nic n) ! unat f))" using assms(1) by (simp add: nic_ok_def)
  obtain fs where fs: "nicif_connection_stats n f = Some (n\<lparr>nic := (nic n)\<lparr>flows := (flows (nic n))[unat f := fs]\<rparr>\<rparr>,
      stats_of (flows (nic n) ! unat f))"
    "rtt_est fs = rtt_est (flows (nic n) ! unat f)" "cleared fs"
    using assms(2) by (simp add: nicif_connection_stats_def Let_def stats_of_def cleared_def)
  show ?thesis
    using fs r assms rtt_sane_update [of n cfg fs "unat f"]
    by (simp add: nic_ok_def ktx_ok_flows same_shape_def) (simp add: stats_of_def)
qed

lemma setrate_ok:
  assumes "nic_ok cfg n" "unat f < length (flows (nic n))"
  shows "\<exists>n'. nicif_connection_setrate n f r = Some n' \<and> nic_ok cfg n' \<and> same_shape n n' \<and>
    tx_rate (flows (nic n') ! unat f) = r \<and> cleared (flows (nic n') ! unat f) = cleared (flows (nic n) ! unat f) \<and>
    (\<forall>i. i \<noteq> unat f \<longrightarrow> flows (nic n') ! i = flows (nic n) ! i)"
proof -
  have m: "flows (nic n) ! unat f \<in> set (flows (nic n))" using assms(2) by simp
  then have "rtt_sane cfg (rtt_est (flows (nic n) ! unat f))" using assms(1) by (simp add: nic_ok_def)
  then show ?thesis
    using assms rtt_sane_update [of n cfg "(flows (nic n) ! unat f)\<lparr>tx_rate := r\<rparr>" "unat f"]
    by (simp add: nicif_connection_setrate_def Let_def nic_ok_def ktx_ok_flows same_shape_def cleared_def)
qed

lemma same_shape_trans: "same_shape a b \<Longrightarrow> same_shape b c \<Longrightarrow> same_shape a c"
  by (simp add: same_shape_def)

lemma cc_poll_conn_ok:
  assumes n: "nic_ok cfg n" and bw: "tcp_link_bw cfg \<noteq> 0" and c: "cc_due cfg now c \<Longrightarrow> conn_ok cfg now n c"
  shows "\<exists>n' ks' c'. cc_poll_conn cfg now (n, ks) c = Inr (n', ks', c', cc_due cfg now c) \<and> nic_ok cfg n' \<and>
    same_shape n n' \<and> polled cfg now n n' c c' \<and>
    (\<forall>i. (cc_due cfg now c \<longrightarrow> i \<noteq> unat (c_flow_id c)) \<longrightarrow> flows (nic n') ! i = flows (nic n) ! i)"
proof (cases "cc_due cfg now c")
  case False
  then have "cc_poll_conn cfg now (n, ks) c = Inr (n, ks, c, False)" by (auto simp: cc_poll_conn_def cc_due_def)
  then show ?thesis using False n by (auto simp: polled_def same_shape_def)
next
  case True
  let ?f = "unat (c_flow_id c)"
  note ok = c [OF True, unfolded conn_ok_def]
  obtain n1 st where n1: "nicif_connection_stats n (c_flow_id c) = Some (n1, st)" "nic_ok cfg n1" "same_shape n n1"
    "rtt_sane cfg (st_rtt st)" "\<forall>i. i \<noteq> ?f \<longrightarrow> flows (nic n1) ! i = flows (nic n) ! i"
    "st = stats_of (flows (nic n) ! ?f)" "cleared (flows (nic n1) ! ?f)"
    using stats_ok [OF n, of "c_flow_id c"] ok by blast
  have "cc_good cfg c st now" using ok bw n1(4) by (simp add: cc_good_def win_good_def)
  with ok obtain c1 where c1: "cc_update cfg c st now = Inr c1" "conn_frame c c1"
    "\<And>a b t x. cc_inv cfg (c1\<lparr>cnt_tx_pending := a, ts_tx_pending := b, cc_last_ts := t, cc_rexmits := x\<rparr>)"
    using cc.serviced [of cfg c st now] by blast
  define ks1 where "ks1 = ks\<lparr>ks_drops := ks_drops ks + ucast (st_drops st), ks_ecn_marked := ks_ecn_marked ks + ucast (st_ecn st),
                      ks_acks := ks_acks ks + ucast (st_acks st)\<rparr>"
  have fg: "unat (c_flow_group c1) < length (steering (nic n1))" "ktx_ok n1"
    using ok n1(2,3) c1(2) by (simp_all add: conn_frame_def same_shape_def nic_ok_def)
  obtain n2 ks2 a b x where i: "issue_retransmits cfg n1 ks1 c1 st now =
      Inr (n2, ks2, c1\<lparr>cnt_tx_pending := a, ts_tx_pending := b, cc_rexmits := x\<rparr>)"
    "ktx_ok n2" "flows (nic n2) = flows (nic n1)" "steering (nic n2) = steering (nic n1)"
    using issue_retransmits_ok [OF fg(2,1)] by blast
  define c2 where "c2 = c1\<lparr>cnt_tx_pending := a, ts_tx_pending := b, cc_rexmits := x\<rparr>"
  have c2: "c_flow_id c2 = c_flow_id c" "cc_rate c2 = cc_rate c1" "conn_frame c c2" using c1(2) by (simp_all add: c2_def conn_frame_def)
  have n2: "nic_ok cfg n2" "same_shape n n2" using n1(2,3) i(2-4) by (simp_all add: nic_ok_def same_shape_def)
  then have "unat (c_flow_id c2) < length (flows (nic n2))" using ok c2(1) by (simp add: same_shape_def)
  then obtain n3 where n3: "nicif_connection_setrate n2 (c_flow_id c2) (cc_rate c2) = Some n3" "nic_ok cfg n3" "same_shape n2 n3"
    "tx_rate (flows (nic n3) ! unat (c_flow_id c2)) = cc_rate c2"
    "\<forall>i. i \<noteq> unat (c_flow_id c2) \<longrightarrow> flows (nic n3) ! i = flows (nic n2) ! i"
    "cleared (flows (nic n3) ! unat (c_flow_id c2)) = cleared (flows (nic n2) ! unat (c_flow_id c2))"
    using setrate_ok [OF n2(1)] by blast
  have run: "cc_poll_conn cfg now (n, ks) c = Inr (n3, ks2, c2\<lparr>cc_last_ts := now\<rparr>, True)"
    using True n1(1) c1(1) i(1) n3(1)
    by (simp add: cc_poll_conn_def cc_due_def Let_def ks1_def [symmetric] c2_def [symmetric])
  have "c1\<lparr>cnt_tx_pending := a, ts_tx_pending := b, cc_last_ts := now, cc_rexmits := x\<rparr> = c2\<lparr>cc_last_ts := now\<rparr>"
    by (simp add: c2_def)
  then have inv: "cc_inv cfg (c2\<lparr>cc_last_ts := now\<rparr>)"
    using c1(3) [of x now b a] by simp
  have "updated_once cfg now st c (c2\<lparr>cc_last_ts := now\<rparr>)"
    unfolding updated_once_def using c1(1)
    by (intro exI [of _ c1] exI [of _ a] exI [of _ b] exI [of _ x]) (simp add: c2_def)
  then have "polled cfg now n n3 c (c2\<lparr>cc_last_ts := now\<rparr>)"
    using True inv n3(4,6) c2 n1(6,7) i(3) by (simp add: polled_def conn_frame_def)
  moreover have "\<forall>j. j \<noteq> ?f \<longrightarrow> flows (nic n3) ! j = flows (nic n) ! j"
    using n3(5) i(3) n1(5) c2(1) by simp
  ultimately show ?thesis
    using run n3(2) same_shape_trans [OF n2(2) n3(3)] True by simp
qed

definition due_flows :: "configuration \<Rightarrow> u32 \<Rightarrow> connection list \<Rightarrow> u32 list" where
  "due_flows cfg now cs = map c_flow_id (filter (cc_due cfg now) cs)"

lemma cc_poll_loop_ok:
  assumes "nic_ok cfg n" "tcp_link_bw cfg \<noteq> 0" "\<And>c. c \<in> set cs \<Longrightarrow> cc_due cfg now c \<Longrightarrow> conn_ok cfg now n c"
    "distinct (due_flows cfg now cs)"
  shows "\<exists>n' ks' cs'. cc_poll_loop cfg now (n, ks) cs = Inr (n', ks', cs', length (due_flows cfg now cs)) \<and> nic_ok cfg n' \<and>
    same_shape n n' \<and> list_all2 (polled cfg now n n') cs cs' \<and>
    (\<forall>i. i \<notin> unat ` set (due_flows cfg now cs) \<longrightarrow> flows (nic n') ! i = flows (nic n) ! i)"
  using assms
proof (induction cs arbitrary: n ks)
  case Nil
  then show ?case by (simp add: due_flows_def same_shape_def)
next
  case (Cons c cs)
  obtain n1 ks1 c1 where h: "cc_poll_conn cfg now (n, ks) c = Inr (n1, ks1, c1, cc_due cfg now c)" "nic_ok cfg n1"
    "same_shape n n1" "polled cfg now n n1 c c1"
    "\<forall>i. (cc_due cfg now c \<longrightarrow> i \<noteq> unat (c_flow_id c)) \<longrightarrow> flows (nic n1) ! i = flows (nic n) ! i"
    using cc_poll_conn_ok [OF Cons.prems(1,2), of now c ks] Cons.prems(3) by auto
  have ok: "conn_ok cfg now n1 d" if "d \<in> set cs" "cc_due cfg now d" for d
    using Cons.prems(3) [of d] that h(3) by (simp add: conn_ok_def same_shape_def)
  have dst: "distinct (due_flows cfg now cs)" "cc_due cfg now c \<Longrightarrow> c_flow_id c \<notin> set (due_flows cfg now cs)"
    using Cons.prems(4) by (auto simp: due_flows_def split: if_splits)
  obtain n' ks' cs' where t: "cc_poll_loop cfg now (n1, ks1) cs = Inr (n', ks', cs', length (due_flows cfg now cs))" "nic_ok cfg n'"
    "same_shape n1 n'" "list_all2 (polled cfg now n1 n') cs cs'"
    "\<forall>i. i \<notin> unat ` set (due_flows cfg now cs) \<longrightarrow> flows (nic n') ! i = flows (nic n1) ! i"
    using Cons.IH [OF h(2) Cons.prems(2) ok dst(1), of ks1] by blast
  have "polled cfg now n n' d d'" if "d \<in> set cs" "polled cfg now n1 n' d d'" for d d'
  proof (cases "cc_due cfg now d")
    case True
    then have "c_flow_id d \<in> set (due_flows cfg now cs)" using that(1) by (auto simp: due_flows_def)
    then have "cc_due cfg now c \<Longrightarrow> unat (c_flow_id d) \<noteq> unat (c_flow_id c)"
      using dst(2) by (metis word_unat_eq_iff)
    then have "flows (nic n1) ! unat (c_flow_id d) = flows (nic n) ! unat (c_flow_id d)" using h(5) by blast
    then show ?thesis using that(2) True by (simp add: polled_def)
  qed (use that in \<open>simp add: polled_def\<close>)
  then have tl: "list_all2 (polled cfg now n n') cs cs'"
    using t(4) by (auto simp: list_all2_conv_all_nth)
  have p: "polled cfg now n n' c c1"
  proof (cases "cc_due cfg now c")
    case True
    then have f: "c_flow_id c1 = c_flow_id c" using h(4) by (simp add: polled_def conn_frame_def)
    have "unat (c_flow_id c) \<notin> unat ` set (due_flows cfg now cs)"
      using dst(2) [OF True] by (auto simp: word_unat_eq_iff [symmetric])
    then show ?thesis using h(4) t(5) f True by (simp add: polled_def)
  qed (use h(4) in \<open>simp add: polled_def\<close>)
  have "cc_poll_loop cfg now (n, ks) (c # cs) = Inr (n', ks', c1 # cs', length (due_flows cfg now (c # cs)))"
    using h(1) t(1) by (simp add: due_flows_def)
  moreover have "\<forall>i. i \<notin> unat ` set (due_flows cfg now (c # cs)) \<longrightarrow> flows (nic n') ! i = flows (nic n) ! i"
    using h(5) t(5) by (auto simp: due_flows_def)
  ultimately show ?case
    using t(2) tl p same_shape_trans [OF h(3) t(3)] by (intro exI conjI) (assumption | simp)+
qed

text \<open>
  C19: the control loop is total and exact.  On a well-formed NIC state, for due connections that satisfy their
  algorithm's invariant and have distinct flows, no assertion, division or queue access fails; every due connection is
  what one \<open>cc_update\<close> of its old state with its flow's statistics gives, up to the counters of pending
  retransmissions, and stamped with the current time; it keeps its invariant (window between one MSS and the send
  buffer, rate at least the configured minimum), its flow's counters are cleared and the rate register of the flow
  holds the new rate although later iterations write other flows; connections that are not open or not due are
  unchanged; the result counts the due ones.
\<close>

theorem cc_poll_invariant:
  assumes "nic_ok cfg n" "tcp_link_bw cfg \<noteq> 0" "\<forall>c \<in> set cs. cc_due cfg now c \<longrightarrow> conn_ok cfg now n c"
    "distinct (due_flows cfg now cs)" "\<not> now - prev < cc_control_granularity cfg"
  shows "\<exists>n' ks' cs'. cc_poll cfg now prev (n, ks) cs = Inr (now, n', ks', cs', length (due_flows cfg now cs)) \<and>
    nic_ok cfg n' \<and> list_all2 (polled cfg now n n') cs cs'"
proof -
  obtain n' ks' cs' where "cc_poll_loop cfg now (n, ks) cs = Inr (n', ks', cs', length (due_flows cfg now cs))" "nic_ok cfg n'"
    "list_all2 (polled cfg now n n') cs cs'"
    using cc_poll_loop_ok [OF assms(1,2) _ assms(4)] assms(3) by blast
  then show ?thesis using assms(5) by (simp add: cc_poll_def)
qed

definition ex_cfg :: configuration where
  "ex_cfg = \<lparr>nic_rx_len = 16, nic_tx_len = 16, tcp_rxbuf_len = 8192, tcp_txbuf_len = 8192, tcp_rtt_init = 50, tcp_link_bw = 10,
     tcp_handshake_to = 10000, tcp_handshake_retries = 10, cf_ip = 1, cf_ip_prefix = 24, arp_to = 500, arp_to_max = 10000000,
     cc_algorithm = CONFIG_CC_DCTCP_WIN, cc_control_granularity = 50, cc_control_interval = 2, cc_rexmit_ints = 4,
     cc_dctcp_weight = 268435456, cc_dctcp_init = 10000, cc_dctcp_step = 10000, cc_dctcp_mimd = 0, cc_dctcp_min = 10000,
     cc_dctcp_minpkts = 50, cc_const_rate = 0, cc_timely_tlow = 30, cc_timely_thigh = 150, cc_timely_step = 10000,
     cc_timely_init = 10000, cc_timely_alpha = 42949672, cc_timely_beta = 3435973836, cc_timely_min_rtt = 11,
     cc_timely_min_rate = 10000\<rparr>"

definition ex_handle :: handle where "ex_handle = \<lparr>h_base = 0, h_len = 8192\<rparr>"

text \<open>An open connection in slow start, last updated at time 1.\<close>

definition ex_conn :: connection where
  "ex_conn = \<lparr>c_opaque = 0, c_ctx = 0, c_db_id = 0, c_rx_handle = ex_handle, c_tx_handle = ex_handle, c_rx_len = 8192,
     c_tx_len = 8192, c_remote_mac = 0, c_remote_ip = 2, c_local_ip = 1, c_remote_port = 80, c_local_port = 9000,
     c_status = CONN_OPEN, c_remote_seq = 0, c_local_seq = 0, c_linux_seq = 0, c_syn_ts = 0, c_syn_ecr = 0, c_timeout = 0,
     c_to_attempts = 0, c_to_armed = False, cc_last_ts = 1, cc_rtt = 50, cc_rate = 10000, cc_rexmits = 0,
     cc_win = \<lparr>dw_ecn_rate = 0, dw_window = 2800, dw_slowstart = True\<rparr>,
     cc_tim = \<lparr>tm_rtt_prev = 0, tm_rtt_diff = 0, tm_hai_cnt = 0, tm_act_rate = 0, tm_last_ts = 0, tm_slowstart = True\<rparr>,
     cc_drate = \<lparr>dr_unproc_acks = 0, dr_unproc_ackb = 0, dr_unproc_ecn = 0, dr_unproc_drops = 0, dr_ecn_rate = 0, dr_act_rate = 0,
       dr_slowstart = True\<rparr>,
     cnt_tx_pending = 0, ts_tx_pending = 0, comp_status = 0, c_flow_id = 0, c_fn_core = 0, c_flags = 0, c_flow_group = 0\<rparr>"

definition ex_kstats :: kstats where "ex_kstats = \<lparr>ks_drops = 0, ks_ecn_marked = 0, ks_acks = 0, ks_kernel_rexmit = 0\<rparr>"

definition ex_stats :: conn_stats where
  "ex_stats = \<lparr>st_drops = 0, st_acks = 4, st_ackb = 1400, st_ecn = 1, st_txp = True, st_rtt = 50\<rparr>"

theorem dctcp_win_refines_witness:
  "\<exists>c'. dctcp_win_update ex_cfg ex_conn ex_stats = Inr c' \<and> unat (cc_rate c') \<le> unat (dw_window (cc_win c')) * 8000 div unat (cc_rtt c')"
  using dctcp_win_refines [of ex_conn ex_cfg ex_stats]
  by (auto simp: ex_conn_def ex_cfg_def ex_stats_def rtt_sane_def rtt_or_init_def)

theorem cc_poll_invariant_witness:
  "\<exists>n' ks' cs'. cc_poll ex_cfg 1001 901 (ex_nicif, ex_kstats) [ex_conn] = Inr (1001, n', ks', cs', 1) \<and>
    nic_ok ex_cfg n' \<and> list_all2 (polled ex_cfg 1001 ex_nicif n') [ex_conn] cs'"
proof -
  have due: "cc_due ex_cfg 1001 ex_conn" by (simp add: cc_due_def ex_conn_def ex_cfg_def)
  then have l: "due_flows ex_cfg 1001 [ex_conn] = [c_flow_id ex_conn]" by (simp add: due_flows_def)
  have "conn_ok ex_cfg 1001 ex_nicif ex_conn"
    by (simp add: conn_ok_def cc_inv_def win_inv_def timely_good_def ex_conn_def ex_cfg_def ex_nicif_def)
  moreover have "nic_ok ex_cfg ex_nicif"
    by (simp add: nic_ok_def ktx_ok_def ex_nicif_def ex_cfg_def rtt_sane_def rtt_or_init_def flowst_zero_def)
  ultimately show ?thesis
    using cc_poll_invariant [of ex_cfg ex_nicif "[ex_conn]" 1001 901 ex_kstats] l by (simp add: ex_cfg_def)
qed

section \<open>The measured rate\<close>

text \<open>
  C21: the rate both rate-based algorithms measure, on every branch: nothing before the first update, a trap
  (division by zero) on two updates in one microsecond, and otherwise the number of bits per millisecond with the
  bit count reduced modulo \<open>2^32\<close>: exact below 536871 bytes per interval, and zero at that number.
\<close>

theorem actual_rate_branches:
  "actual_rate ackb now last_ts = (if last_ts = 0 then Inr 0 else if now = last_ts then Inl Div_zero
     else Inr (of_nat ((unat ackb * 8000 mod 4294967296) div unat (now - last_ts)))) \<and>
   actual_rate 536870 1001 1 = Inr 4294960 \<and> actual_rate 536871 1001 1 = Inr 0"
proof (intro conjI)
  have "(ackb * 8 * 1000) div d = of_nat ((unat ackb * 8000 mod 4294967296) div unat d)" for d :: u32
  proof -
    define x where "x = (unat ackb * 8000 mod 4294967296) div unat d"
    have "x \<le> unat ackb * 8000 mod 4294967296" unfolding x_def by (rule div_le_dividend)
    moreover have "unat ackb * 8000 mod 4294967296 < 4294967296" by (rule mod_less_divisor) simp
    ultimately have "unat (of_nat x :: u32) = x" by (simp add: unat_of_nat)
    moreover have "unat ((ackb * 8 * 1000) div d) = x" by (simp add: x_def unat_div unat_word_ariths mult.commute)
    ultimately show ?thesis by (simp only: word_unat_eq_iff flip: x_def)
  qed
  then show "actual_rate ackb now last_ts = (if last_ts = 0 then Inr 0 else if now = last_ts then Inl Div_zero
     else Inr (of_nat ((unat ackb * 8000 mod 4294967296) div unat (now - last_ts))))"
    by (simp add: actual_rate_def cdiv_def)
qed (simp_all add: actual_rate_def)

end
