(* ===== verification/FastLoop.thy ===== *)
theory FastLoop
  imports FastFlows "HOL-Library.Multiset"
begin

unbundle bit_operations_syntax

text \<open>
  The polling loop of a fast path core (flexnic/fastemu.c): the cache of transmit buffers, the transmit buffer's
  flush, and the polls of the NIC, the queue manager, the application queues and the kernel queue in the order
  of \<open>dataplane_loop\<close>.  The property: no run of the loop loses or duplicates a packet buffer.

  \<open>core\<close> extends the state of \<open>FastFlows\<close> by the rest of \<open>struct dataplane_context\<close>.  The driver's side is
  part of it: \<open>bufpool\<close> are the buffers that \<open>rte_pktmbuf_alloc\<close> can still give, \<open>rx_ring\<close> the packets received and
  not yet polled, \<open>nic_tx\<close> the frames handed to the NIC.
\<close>

record rx_pkt =
  rp_pkt :: pkt_tcp
  rp_len :: u16
  rp_handle :: u64
  rp_group :: "u16 option"

record core =
  cdp :: dp
  poll_next_ctx :: u32
  bc_handles :: "u64 list"
  bc_num :: u16
  bc_head :: u16
  tx_handles :: "u64 list"
  bufpool :: "u64 list"
  rx_ring :: "rx_pkt list"
  nic_tx :: "(u8 list \<times> u64) list"

abbreviation BATCH_SIZE :: nat where "BATCH_SIZE \<equiv> 32"
abbreviation BUFCACHE_SIZE :: nat where "BUFCACHE_SIZE \<equiv> 128"
abbreviation NBH_TX_BIT :: u64 where "NBH_TX_BIT \<equiv> 0x8000000000000000"

section \<open>Transmit buffers\<close>

text \<open>\<open>tx_num\<close> is the number of frames in the transmit buffer; \<open>tx_send\<close> stores the handle, without the mark, beside the
  frame that a critical section on buffer \<open>h\<close> appended.\<close>

definition ran :: "core \<Rightarrow> u64 \<Rightarrow> dp \<Rightarrow> core" where
  "ran c h s' = c\<lparr>cdp := s', tx_handles := tx_handles c @
     (if length (txq s') > length (txq (cdp c)) then [h AND NOT NBH_TX_BIT] else [])\<rparr>"

definition tx_room :: "core \<Rightarrow> nat" where
  "tx_room c = min BATCH_SIZE (TXBUF_SIZE - length (txq (cdp c)))"

text \<open>\<open>network_send\<close> accepts the first \<open>k\<close> frames; the others move to the front.\<close>

definition tx_flush :: "nat \<Rightarrow> core \<Rightarrow> core" where
  "tx_flush k c =
    (let s = cdp c in
     if length (txq s) = 0 then c
     else
       let k = min k (length (txq s)) in
       c\<lparr>cdp := s\<lparr>txq := drop k (txq s)\<rparr>, tx_handles := drop k (tx_handles c),
         nic_tx := nic_tx c @ zip (take k (txq s)) (take k (tx_handles c))\<rparr>)"

section \<open>Buffer cache\<close>

text \<open>\<open>network_buf_alloc\<close> for \<open>n\<close> buffers at slot \<open>i\<close>: it stores what the pool gives, and \<open>NULL\<close> behind it when the pool
  runs dry.\<close>

definition overwrite :: "'a list \<Rightarrow> nat \<Rightarrow> 'a list \<Rightarrow> 'a list" where
  "overwrite hs i xs = take i hs @ xs @ drop (i + length xs) hs"

definition network_buf_alloc :: "nat \<Rightarrow> nat \<Rightarrow> core \<Rightarrow> core \<times> nat" where
  "network_buf_alloc n i c =
    (let xs = take n (bufpool c) in
     (c\<lparr>bufpool := drop n (bufpool c),
        bc_handles := overwrite (bc_handles c) i (xs @ (if length xs < n then [0] else []))\<rparr>, length xs))"

definition mark_tx :: "nat \<Rightarrow> nat \<Rightarrow> u64 list \<Rightarrow> u64 list" where
  "mark_tx head res hs =
    fold (\<lambda>i hs. let g = (head + i) mod BUFCACHE_SIZE in hs[g := hs ! g OR NBH_TX_BIT]) [0..<res] hs"

text \<open>Filling the \<open>grow\<close> free slots from slot \<open>head\<close> on, in two parts when they wrap around; the second part only
  when the first was filled.\<close>

definition bufcache_grow :: "nat \<Rightarrow> nat \<Rightarrow> core \<Rightarrow> core \<times> nat" where
  "bufcache_grow head grow c =
    (if head + grow \<le> BUFCACHE_SIZE then network_buf_alloc grow head c
     else
       let g = BUFCACHE_SIZE - head; (c, res) = network_buf_alloc g head c in
       if res = g then let (c, res2) = network_buf_alloc (grow - g) 0 c in (c, res + res2) else (c, res))"

text \<open>The state and the number of buffers that can be used; they start at slot \<open>bc_head\<close>.\<close>

definition bufcache_prealloc :: "core \<Rightarrow> nat \<Rightarrow> core \<times> nat" where
  "bufcache_prealloc c num =
    (let c =
       (if unat (bc_num c) < num then
          let head = (unat (bc_head c) + unat (bc_num c)) mod BUFCACHE_SIZE;
              (c, res) = bufcache_grow head (BUFCACHE_SIZE - unat (bc_num c)) c in
          c\<lparr>bc_handles := mark_tx head res (bc_handles c), bc_num := bc_num c + of_nat res\<rparr>
        else c) in
     (c, min num (if unat (bc_head c) + unat (bc_num c) \<le> BUFCACHE_SIZE then unat (bc_num c)
                  else BUFCACHE_SIZE - unat (bc_head c))))"

definition bufcache_alloc :: "core \<Rightarrow> nat \<Rightarrow> core res" where
  "bufcache_alloc c num =
    (if \<not> num \<le> unat (bc_num c) then Inl Assert_fail
     else Inr (c\<lparr>bc_head := of_nat ((unat (bc_head c) + num) mod BUFCACHE_SIZE), bc_num := bc_num c - of_nat num\<rparr>))"

definition bufcache_free :: "core \<Rightarrow> u64 \<Rightarrow> core" where
  "bufcache_free c h =
    (if h AND NBH_TX_BIT = NBH_TX_BIT \<and> unat (bc_num c) < BUFCACHE_SIZE then
       c\<lparr>bc_handles := (bc_handles c)[(unat (bc_head c) + unat (bc_num c)) mod BUFCACHE_SIZE := h], bc_num := bc_num c + 1\<rparr>
     else c\<lparr>bufpool := bufpool c @ [h AND NOT NBH_TX_BIT]\<rparr>)"

text \<open>\<open>handles[k]\<close>\<close>

definition bc_handle :: "core \<Rightarrow> nat \<Rightarrow> u64" where
  "bc_handle c k = bc_handles c ! (unat (bc_head c) + k)"

section \<open>Polls\<close>

text \<open>One received packet: \<open>Inr (c, True)\<close> when its buffer went to the transmit buffer.\<close>

definition poll_rx_pkt :: "env \<Rightarrow> u32 \<Rightarrow> core \<Rightarrow> rx_pkt \<Rightarrow> u32 option \<Rightarrow> (core \<times> bool) res" where
  "poll_rx_pkt e ts c r fs =
    (case fs of
       None \<Rightarrow> bind_res (fast_kernel_packet (cdp c) (pkt_bytes (rp_pkt r)) (rp_len r) (rp_group r)) (\<lambda>s. Inr (c\<lparr>cdp := s\<rparr>, False))
     | Some fid \<Rightarrow>
         bind_res (fast_flows_packet e (cdp c) (rp_pkt r) (rp_len r) fid ts) (\<lambda>(s, p, ret).
           let c = ran c (rp_handle r) s in
           if ret > 0 then Inr (c, True)
           else if ret < 0 then
             bind_res (fast_kernel_packet s (pkt_bytes p) (rp_len r) (rp_group r)) (\<lambda>s. Inr (c\<lparr>cdp := s\<rparr>, False))
           else Inr (c, False)))"

fun poll_rx_loop :: "env \<Rightarrow> u32 \<Rightarrow> (rx_pkt \<times> u32 option) list \<Rightarrow> core \<Rightarrow> (core \<times> rx_pkt list) res" where
  "poll_rx_loop e ts [] c = Inr (c, [])"
| "poll_rx_loop e ts ((r, fs) # rs) c =
    bind_res (poll_rx_pkt e ts c r fs) (\<lambda>(c, used).
    bind_res (poll_rx_loop e ts rs c) (\<lambda>(c, fr). Inr (c, if used then fr else r # fr)))"

text \<open>The buffers not used are freed behind the loop.\<close>

definition poll_rx :: "env \<Rightarrow> u32 \<Rightarrow> core \<Rightarrow> core res" where
  "poll_rx e ts c =
    (let n = tx_room c; rs = take n (rx_ring c); c = c\<lparr>rx_ring := drop n (rx_ring c)\<rparr> in
     bind_res (poll_rx_loop e ts (zip rs (fast_flows_packet_fss e (cdp c) (map rp_pkt rs))) c) (\<lambda>(c, fr).
       Inr (fold (\<lambda>r c. bufcache_free c (rp_handle r)) fr c)))"

text \<open>The inner loop over one application context, and the loop over the contexts: the state, the buffers used and the
  entries processed.\<close>

fun queues_ctx :: "env \<Rightarrow> u32 \<Rightarrow> nat \<Rightarrow> nat \<Rightarrow> core \<Rightarrow> nat \<Rightarrow> nat \<Rightarrow> (core \<times> nat \<times> nat) res" where
  "queues_ctx e ts mx 0 c k tot = Inr (c, k, tot)"
| "queues_ctx e ts mx (Suc i) c k tot =
    (if \<not> k < mx then Inr (c, k, tot)
     else
       bind_res (fast_appctx_poll e (cdp c) (poll_next_ctx c) ts) (\<lambda>(s, ret).
         let c = ran c (bc_handle c k) s in
         if ret = 0 then queues_ctx e ts mx i c (Suc k) (Suc tot)
         else if ret < 0 then Inr (c, k, tot)
         else queues_ctx e ts mx i c k (Suc tot)))"

fun queues_loop :: "env \<Rightarrow> u32 \<Rightarrow> nat \<Rightarrow> nat \<Rightarrow> core \<Rightarrow> nat \<Rightarrow> nat \<Rightarrow> (core \<times> nat \<times> nat) res" where
  "queues_loop e ts mx 0 c k tot = Inr (c, k, tot)"
| "queues_loop e ts mx (Suc n) c k tot =
    (if \<not> k < mx then Inr (c, k, tot)
     else
       bind_res (queues_ctx e ts mx BATCH_SIZE c k tot) (\<lambda>(c, k, tot).
         queues_loop e ts mx n (c\<lparr>poll_next_ctx := (poll_next_ctx c + 1) mod of_nat APPCTX_NUM\<rparr>) k tot))"

definition poll_queues :: "env \<Rightarrow> u32 \<Rightarrow> core \<Rightarrow> (core \<times> nat) res" where
  "poll_queues e ts c =
    (let (c, mx) = bufcache_prealloc c (tx_room c) in
     bind_res (queues_loop e ts mx APPCTX_NUM c 0 0) (\<lambda>(c, k, tot).
     bind_res (bufcache_alloc c k) (\<lambda>c. Inr (c, tot))))"

text \<open>The loop over the kernel's queue.  An entry without a packet uses no buffer, so the number of iterations is not
  bounded by \<open>mx\<close>; every iteration clears the type of an entry, hence the fuel.\<close>

fun kernel_loop :: "nat \<Rightarrow> env \<Rightarrow> u32 \<Rightarrow> nat \<Rightarrow> core \<Rightarrow> nat \<Rightarrow> nat \<Rightarrow> (core \<times> nat \<times> nat) res" where
  "kernel_loop fuel e ts mx c k tot =
    (if \<not> k < mx then Inr (c, k, tot)
     else
       case fuel of 0 \<Rightarrow> Inl Diverge
       | Suc fuel \<Rightarrow>
           bind_res (fast_kernel_poll e (cdp c) ts) (\<lambda>(s, ret).
             let c = ran c (bc_handle c k) s in
             if ret = 0 then kernel_loop fuel e ts mx c (Suc k) (Suc tot)
             else if ret < 0 then Inr (c, k, tot)
             else kernel_loop fuel e ts mx c k (Suc tot)))"

declare kernel_loop.simps [simp del]

abbreviation kernel_fuel :: "core \<Rightarrow> nat" where
  "kernel_fuel c \<equiv> length (dmem (cdp c)) + 8"

definition poll_kernel :: "env \<Rightarrow> u32 \<Rightarrow> core \<Rightarrow> (core \<times> nat) res" where
  "poll_kernel e ts c =
    (let (c, mx) = bufcache_prealloc c (min 8 (tx_room c)) in
     bind_res (kernel_loop (kernel_fuel c) e ts mx c 0 0) (\<lambda>(c, k, tot).
     bind_res (bufcache_alloc c k) (\<lambda>c. Inr (c, tot))))"

text \<open>The fired queues: \<open>Abort\<close> on the kernel's queue id and on a context queue.\<close>

fun qman_loop :: "env \<Rightarrow> u32 \<Rightarrow> (u32 \<times> u16 \<times> u8) list \<Rightarrow> core \<Rightarrow> nat \<Rightarrow> (core \<times> nat) res" where
  "qman_loop e ts [] c off = Inr (c, off)"
| "qman_loop e ts ((q, bytes, opq) # qs) c off =
    (if q = 0 then Inl Abort
     else if opq = 0 then Inl Abort
     else
       bind_res (fast_flows_qman e (cdp c) q ts) (\<lambda>(s, ret).
         qman_loop e ts qs (ran c (bc_handle c off) s) (if ret = 0 then Suc off else off)))"

definition poll_qman :: "env \<Rightarrow> u32 \<Rightarrow> core \<Rightarrow> (core \<times> nat) res" where
  "poll_qman e ts c =
    (let (c, mx) = bufcache_prealloc c (tx_room c); s = cdp c in
     bind_res (qman_poll (length (queues (qm s)) + mx + 1) (qm s) ts mx) (\<lambda>(t, qs).
       let c = c\<lparr>cdp := s\<lparr>qm := t\<rparr>\<rparr> in
       if qs = [] then Inr (c, 0)
       else
         bind_res (qman_loop e ts qs c 0) (\<lambda>(c, off).
         bind_res (bufcache_alloc c off) (\<lambda>c. Inr (c, length qs)))))"

text \<open>\<open>fids\<close> are the flows that \<open>rte_ring_dequeue_burst\<close> takes from the core's forwarding ring, at most \<open>BATCH_SIZE\<close>.\<close>

fun poll_qman_fwd :: "u32 list \<Rightarrow> core \<Rightarrow> core res" where
  "poll_qman_fwd [] c = Inr c"
| "poll_qman_fwd (f # fs) c = bind_res (fast_flows_qman_fwd (cdp c) f) (\<lambda>s. poll_qman_fwd fs (c\<lparr>cdp := s\<rparr>))"

text \<open>
  One iteration of \<open>dataplane_loop\<close> up to the scaling request; \<open>k1\<close> and \<open>k2\<close> are the numbers of frames the NIC accepts in
  the two flushes.  \<open>poll_qman\<close> reads the clock again (\<open>qts\<close>).
\<close>

definition dataplane_iter :: "env \<Rightarrow> u32 \<Rightarrow> u32 \<Rightarrow> u32 list \<Rightarrow> nat \<Rightarrow> nat \<Rightarrow> core \<Rightarrow> core res" where
  "dataplane_iter e ts qts fids k1 k2 c =
    bind_res (poll_rx e ts c) (\<lambda>c.
    bind_res (poll_qman_fwd fids (tx_flush k1 c)) (\<lambda>c.
    bind_res (poll_qman e qts c) (\<lambda>(c, n1).
    bind_res (poll_queues e ts c) (\<lambda>(c, n2).
    bind_res (poll_kernel e ts c) (\<lambda>(c, n3). Inr (tx_flush k2 c))))))"

end
