(* ===== verification/LoopInv.thy ===== *)
theory LoopInv
  imports FastLoop FastPath
begin

unbundle bit_operations_syntax

text \<open>
  Ownership of packet buffers in the polling loop: what each critical section sends, the buffer cache as a ring, and
  the conservation of buffers over whole iterations.
\<close>

section \<open>What critical sections send\<close>


text \<open>The frames a critical section sends: one more if \<open>b\<close>, and never more than the transmit buffer holds.\<close>

definition sends :: "dp \<Rightarrow> dp \<Rightarrow> bool \<Rightarrow> bool" where
  "sends s s' b \<longleftrightarrow> length (txq s') = length (txq s) + (if b then 1 else 0) \<and> (length (txq s) \<le> TXBUF_SIZE \<longrightarrow> length (txq s') \<le> TXBUF_SIZE)"

lemma sends_refl [simp]: "txq s' = txq s \<Longrightarrow> sends s s' False"
  by (simp add: sends_def)

lemma sends_after: "sends s1 s' b \<Longrightarrow> txq s1 = txq s \<Longrightarrow> sends s s' b"
  by (auto simp: sends_def)

lemma sends_before: "sends s s1 b \<Longrightarrow> txq s' = txq s1 \<Longrightarrow> sends s s' b"
  by (auto simp: sends_def)

text \<open>One rule per operation of the fast path.\<close>

lemma post_tx_send: "(\<And>s'. sends s s' True \<Longrightarrow> dmem s' = dmem s \<Longrightarrow> Q s') \<Longrightarrow> post (tx_send s f) Q"
  by (auto simp: tx_send_def sends_def)

lemma post_qset: "(\<And>t. Q (s\<lparr>qm := t\<rparr>)) \<Longrightarrow> post (qset s qid rate avail mc opq flags) Q"
  by (auto simp: qset_def bind_res_def intro: postI split: option.splits sum.splits)

lemma post_segment:
  assumes "\<And>s'. sends s s' True \<Longrightarrow> dmem s' = dmem s \<Longrightarrow> Q s'"
  shows "post (flow_tx_segment e s fs seq ack wnd n pos echo my) Q"
proof -
  have "post (tx_send s f) Q" for f by (rule post_tx_send) (rule assms)
  then show ?thesis unfolding flow_tx_segment_def Let_def post_simps by (rule post_any)
qed

lemma post_ack:
  assumes "\<And>s'. sends s s' True \<Longrightarrow> dmem s' = dmem s \<Longrightarrow> Q s'"
  shows "post (flow_tx_ack e s p seq ack wnd echo my off) Q"
  unfolding flow_tx_ack_def by (rule post_tx_send) (rule assms)

lemma post_rxq_add:
  assumes "Q None" "\<And>s'. txq s' = txq s \<Longrightarrow> Q (Some s')"
  shows "post (fast_actx_rxq_add s core ctx a) Q"
  unfolding fast_actx_rxq_add_def Let_def using assms by (auto split: option.splits prod.splits)

lemma post_qman_obj:
  assumes "\<And>t fs' n'. Q (s\<lparr>qm := t\<rparr>, fs', n')" "\<And>fs' n'. Q (s, fs', n')"
  shows "post (qman_obj s fs avail n) Q"
  unfolding qman_obj_def Let_def post_simps
  by (rule post_any, rule post_if) (auto intro!: post_qset assms)

text \<open>What each critical section sends.\<close>

lemma post_flows_qman: "post (fast_flows_qman e s q ts) (\<lambda>(s', r). sends s s' (r = 0))"
  unfolding fast_flows_qman_def Let_def post_simps
  by (auto intro!: post_split post_qset post_qman_obj post_segment simp: sends_def)

lemma post_fwd: "post (fast_flows_qman_fwd s f) (\<lambda>s'. sends s s' False)"
  unfolding fast_flows_qman_fwd_def Let_def by (intro post_qset) simp

lemma post_retransmit: "post (fast_flows_retransmit s f) (\<lambda>s'. sends s s' False \<and> dmem s' = dmem s)"
  unfolding fast_flows_retransmit_def Let_def by (auto intro!: post_split post_qset)

lemma post_bump: "post (flast_flows_bump e s f bs rt th ts) (\<lambda>(s', r). sends s s' (r = 0))"
  unfolding flast_flows_bump_def Let_def post_simps
  by (auto intro!: post_split post_qset post_segment simp: sends_def)

lemma post_finish: "post (rx_finish e s fid fs p off db rb rp tb oa trig ts) (\<lambda>(s', p', r). sends s s' (r > 0))"
  unfolding rx_finish_def Let_def post_simps
  by (auto intro!: post_split post_qset post_rxq_add post_ack simp: sends_def)


lemma post_fin:
  assumes "\<And>s' p' r. sends s s' (r > 0) \<Longrightarrow> Q (s', p', r)"
  shows "post (rx_finish e s fid fs p off db rb rp tb oa trig ts) Q"
  by (rule post_mono [OF post_finish]) (use assms in auto)

lemma post_slowpath: "(\<And>s' p' r. txq s' = txq s \<Longrightarrow> r < 0 \<Longrightarrow> Q (s', p', r)) \<Longrightarrow> post (rx_slowpath s fid fs p b) Q"
  by (simp add: rx_slowpath_def)

lemmas post_rx = post_any [where m = "rx_ooo a b c d f" for a b c d f] post_any [where m = "rx_obj a b c d f" for a b c d f]
  post_any [where m = "rx_deliver a b c d" for a b c d]

lemma post_locked: "post (rx_locked e s fid p off ts) (\<lambda>(s', p', r). sends s s' (r > 0))"
  unfolding rx_locked_def Let_def post_simps
  by (auto intro!: post_split post_slowpath post_rx post_fin simp: sends_def)

lemma post_packet: "post (fast_flows_packet e s p len fid ts) (\<lambda>(s', p', r). sends s s' (r > 0))"
  unfolding fast_flows_packet_def
  by (auto intro!: post_split post_locked)

lemma post_kernel_packet: "post (fast_kernel_packet s f len fg) (\<lambda>s'. sends s s' False)"
  unfolding fast_kernel_packet_def Let_def
  by (auto intro!: post_split simp: fast_kernel_kick_def)

lemma post_bump':
  assumes "\<And>s' r. sends s s' (r = 0) \<Longrightarrow> Q (s', r)"
  shows "post (flast_flows_bump e s f bs rt th ts) Q"
  by (rule post_mono [OF post_bump]) (use assms in auto)

lemma post_appctx: "post (fast_appctx_poll e s cid ts) (\<lambda>(s', r). sends s s' (r = 0))"
  unfolding fast_appctx_poll_def Let_def post_simps
  by (auto intro!: post_split post_bump' simp: sends_def)

text \<open>A poll of the kernel's queue that finds an entry clears a non-zero byte of DMA memory.\<close>

definition marks :: "dp \<Rightarrow> nat" where
  "marks s = length (filter (\<lambda>b. b \<noteq> 0) (dmem s))"

lemma marks_clear:
  assumes "a < length (dmem s)" "dmem s ! a \<noteq> 0" "dmem s' = put (dmem s) a [0]"
  shows "marks s' < marks s"
proof -
  have "dmem s = take a (dmem s) @ dmem s ! a # drop (Suc a) (dmem s)" using assms(1) by (rule id_take_nth_drop)
  from arg_cong [OF this, of "\<lambda>xs. length (filter (\<lambda>b. b \<noteq> 0) xs)"]
  have "marks s = length (filter (\<lambda>b. b \<noteq> 0) (take a (dmem s))) + Suc (length (filter (\<lambda>b. b \<noteq> 0) (drop (Suc a) (dmem s))))"
    using assms(2) by (simp add: marks_def)
  then show ?thesis by (simp add: marks_def assms(3) put_def)
qed

lemma ktx_done_simps [simp]: "txq (ktx_done s a) = txq s" "dmem (ktx_done s a) = put (dmem s) (a + 63) [0]"
  by (simp_all add: ktx_done_def Let_def)

lemma post_retransmit':
  assumes "\<And>s'. sends s s' False \<Longrightarrow> dmem s' = dmem s \<Longrightarrow> Q s'"
  shows "post (fast_flows_retransmit s f) Q"
  by (rule post_mono [OF post_retransmit]) (use assms in auto)

lemma dma_pointer_range:
  assumes "dma_pointer mem addr n = Some a"
  shows "unat a + unat n \<le> length mem"
proof -
  have d: "a = addr" "dma_valid mem addr n" using assms by (auto simp: dma_pointer_def split: if_splits)
  define x y where "x = unat addr" and "y = unat n"
  have b: "x < 18446744073709551616" "y < 18446744073709551616" unfolding x_def y_def by (rule unat_u64_bound)+
  have "unat (addr + n) = (if x + y < 18446744073709551616 then x + y else x + y - 18446744073709551616)"
    using b by (simp add: unat_plus_if' x_def y_def)
  then have "x + y \<le> length mem"
    using d(2) b unfolding dma_valid_def word_less_nat_alt x_def [symmetric] by (simp split: if_splits)
  then show ?thesis by (simp add: d(1) x_def y_def)
qed

lemma post_kernel_poll:
  "post (fast_kernel_poll e s ts) (\<lambda>(s', r). sends s s' (r = 0) \<and> (r \<ge> 0 \<longrightarrow> marks s' < marks s))"
proof (cases "dma_pointer (dmem s) (ax_tx_base (kctxs s ! unat (core_id s)) + ucast (ax_tx_head (kctxs s ! unat (core_id s)))) (of_nat KTX_SZ)")
  case None
  then show ?thesis by (simp add: fast_kernel_poll_def Let_def)
next
  case (Some a)
  have "unat a + 64 \<le> length (dmem s)" using dma_pointer_range [OF Some] by simp
  then have m: "marks s' < marks s" if "dmem s' = put (dmem s) (unat a + 63) [0]" "slice (dmem s) (unat a) 64 ! 63 \<noteq> 0" for s'
    using that by (intro marks_clear [of "unat a + 63"]) (simp_all add: slice_def)
  show ?thesis
    using m unfolding fast_kernel_poll_def Let_def post_simps Some option.case
    by (auto intro!: post_split post_any [where m = "inject_tcp_ts a b c d" for a b c d] post_tx_send post_retransmit' simp: sends_def)
qed



section \<open>Ownership of packet buffers\<close>

definition clr :: "u64 \<Rightarrow> u64" where
  "clr h = h AND NOT NBH_TX_BIT"

lemma clr_clr [simp]: "clr (clr h) = clr h" "clr (h OR NBH_TX_BIT) = clr h"
  unfolding clr_def by (rule bit_word_eqI; auto simp: bit_simps)+

text \<open>The buffers in the cache, oldest first.\<close>

definition ring_read :: "u64 list \<Rightarrow> nat \<Rightarrow> nat \<Rightarrow> u64 list" where
  "ring_read hs h n = map (\<lambda>i. hs ! ((h + i) mod BUFCACHE_SIZE)) [0..<n]"

abbreviation cached :: "core \<Rightarrow> u64 list" where
  "cached c \<equiv> ring_read (bc_handles c) (unat (bc_head c)) (unat (bc_num c))"

text \<open>Every buffer the core can reach: cached, waiting to be sent, free, received, or handed to the NIC.\<close>

definition buffers :: "core \<Rightarrow> u64 multiset" where
  "buffers c = image_mset clr (mset (cached c) + mset (tx_handles c) + mset (bufpool c) + mset (map rp_handle (rx_ring c)) +
     mset (map snd (nic_tx c)))"

definition core_ok :: "core \<Rightarrow> bool" where
  "core_ok c \<longleftrightarrow> length (bc_handles c) = BUFCACHE_SIZE \<and> unat (bc_num c) \<le> BUFCACHE_SIZE \<and> unat (bc_head c) < BUFCACHE_SIZE \<and>
     length (tx_handles c) = length (txq (cdp c)) \<and> length (txq (cdp c)) \<le> TXBUF_SIZE"

subsection \<open>The cache\<close>

lemma length_overwrite [simp]: "i + length xs \<le> length hs \<Longrightarrow> length (overwrite hs i xs) = length hs"
  by (simp add: overwrite_def)

lemma nth_overwrite:
  "i + length xs \<le> length hs \<Longrightarrow> j < length hs \<Longrightarrow> overwrite hs i xs ! j = (if i \<le> j \<and> j < i + length xs then xs ! (j - i) else hs ! j)"
  by (auto simp: overwrite_def nth_append min_def)

lemma network_buf_alloc_ok:
  assumes "length (bc_handles c) = BUFCACHE_SIZE" "i + n \<le> BUFCACHE_SIZE" "network_buf_alloc n i c = (c', r)"
  shows "r = min n (length (bufpool c)) \<and> length (bc_handles c') = BUFCACHE_SIZE \<and>
    (\<exists>hs. c' = c\<lparr>bufpool := drop r (bufpool c), bc_handles := hs\<rparr>) \<and>
    (\<forall>j < BUFCACHE_SIZE. j < i \<or> i + n \<le> j \<longrightarrow> bc_handles c' ! j = bc_handles c ! j) \<and> (\<forall>j < r. bc_handles c' ! (i + j) = bufpool c ! j)"
proof -
  define xs where "xs = take n (bufpool c)"
  define ys where "ys = xs @ (if length xs < n then [0] else [])"
  have l: "length ys \<le> n" "length xs = min n (length (bufpool c))" by (auto simp: ys_def xs_def)
  then have fit: "i + length ys \<le> length (bc_handles c)" using assms(1,2) by linarith
  have c': "c' = c\<lparr>bufpool := drop r (bufpool c), bc_handles := overwrite (bc_handles c) i ys\<rparr>" "r = length xs"
    using assms(3) by (auto simp: network_buf_alloc_def Let_def min_def ys_def xs_def)
  have ys: "ys ! j = bufpool c ! j" "j < length ys" if "j < r" for j
    using that c'(2) l(2) by (simp_all add: nth_append ys_def xs_def)
  have "bc_handles c' ! j = bc_handles c ! j" if "j < i \<or> i + n \<le> j" "j < BUFCACHE_SIZE" for j
    using that l(1) assms(1) unfolding c'(1) by (auto simp: nth_overwrite [OF fit])
  moreover have "bc_handles c' ! (i + j) = bufpool c ! j" if "j < r" for j
    using ys [OF that] fit unfolding c'(1) by (simp add: nth_overwrite [OF fit])
  moreover have "length (bc_handles c') = BUFCACHE_SIZE" using fit assms(1) unfolding c'(1) by simp
  ultimately show ?thesis using c' l(2) by auto
qed

lemma mark_tx_clr: "length (mark_tx head n hs) = length hs \<and> (\<forall>g. g < length hs \<longrightarrow> clr (mark_tx head n hs ! g) = clr (hs ! g))"
proof (induction n)
  case (Suc n)
  have "mark_tx head (Suc n) hs = (let g = (head + n) mod BUFCACHE_SIZE; hs = mark_tx head n hs in hs[g := hs ! g OR NBH_TX_BIT])"
    by (simp add: mark_tx_def Let_def)
  then show ?case
    using Suc by (cases "(head + n) mod BUFCACHE_SIZE < length hs") (auto simp: Let_def nth_list_update)
qed (simp add: mark_tx_def)

lemma ring_read_append: "ring_read hs h (n + k) = ring_read hs h n @ map (\<lambda>i. hs ! ((h + n + i) mod BUFCACHE_SIZE)) [0..<k]"
proof -
  have "[0..<n + k] = [0..<n] @ map (\<lambda>i. n + i) [0..<k]"
    using upt_add_eq_append [of 0 n k] map_add_upt [of n k] by (simp add: add.commute)
  then show ?thesis by (simp add: ring_read_def comp_def add.assoc)
qed

lemma mod_slots_differ:
  assumes "i < n" "n + j < (128 :: nat)"
  shows "(h + i) mod 128 \<noteq> (h + n + j) mod 128"
proof
  assume "(h + i) mod 128 = (h + n + j) mod 128"
  then have "128 dvd (h + n + j) - (h + i)" using assms by (metis mod_eq_dvd_iff_nat add_le_mono le_add1 less_imp_le_nat add.assoc nat_add_left_cancel_le order_trans)
  then show False using assms by (auto dest: dvd_imp_le)
qed

text \<open>What both ways of refilling the cache do.\<close>

definition refilled :: "core \<Rightarrow> core \<Rightarrow> nat \<Rightarrow> bool" where
  "refilled c c' r \<longleftrightarrow> (\<exists>hs. c' = c\<lparr>bufpool := drop r (bufpool c), bc_handles := hs\<rparr>) \<and> length (bc_handles c') = BUFCACHE_SIZE \<and>
     unat (bc_num c) + r \<le> BUFCACHE_SIZE \<and> r \<le> length (bufpool c) \<and>
     (\<forall>i < unat (bc_num c). bc_handles c' ! ((unat (bc_head c) + i) mod 128) = bc_handles c ! ((unat (bc_head c) + i) mod 128)) \<and>
     (\<forall>j < r. bc_handles c' ! ((unat (bc_head c) + unat (bc_num c) + j) mod 128) = bufpool c ! j)"

lemma refill_buffers:
  assumes "core_ok c" "refilled c c' r"
    and c2_def: "c2 = c'\<lparr>bc_handles := mark_tx h r (bc_handles c'), bc_num := bc_num c' + of_nat r\<rparr>"
  shows "core_ok c2 \<and> buffers c2 = buffers c \<and> cdp c2 = cdp c \<and> bc_head c2 = bc_head c"
proof -
  obtain hs where c': "c' = c\<lparr>bufpool := drop r (bufpool c), bc_handles := hs\<rparr>" using assms(2) by (auto simp: refilled_def)
  have len: "length hs = 128" "unat (bc_num c) + r \<le> 128" "r \<le> length (bufpool c)"
    using assms(2) by (simp_all add: refilled_def c')
  have num: "unat (bc_num c + of_nat r) = unat (bc_num c) + r"
    using len(2) by (simp add: unat_plus_if' unat_of_nat)
  let ?h = "unat (bc_head c)" and ?n = "unat (bc_num c)" and ?m = "mark_tx h r hs"
  have m: "clr (?m ! (x mod 128)) = clr (hs ! (x mod 128))" for x
    using mark_tx_clr [of h r hs] len(1) by simp
  have "map clr (ring_read ?m ?h (?n + r)) = map clr (ring_read hs ?h (?n + r))"
    by (simp add: ring_read_def m)
  also have "ring_read hs ?h (?n + r) = ring_read (bc_handles c) ?h ?n @ take r (bufpool c)"
  proof -
    have "ring_read hs ?h ?n = ring_read (bc_handles c) ?h ?n"
      using assms(2) by (simp add: refilled_def c' ring_read_def)
    moreover have "map (\<lambda>i. hs ! ((?h + ?n + i) mod BUFCACHE_SIZE)) [0..<r] = take r (bufpool c)"
      using assms(2) by (intro nth_equalityI) (simp_all add: refilled_def c')
    ultimately show ?thesis by (simp add: ring_read_append)
  qed
  finally have e: "mset (map clr (cached c2)) = mset (map clr (cached c)) + mset (map clr (take r (bufpool c)))"
    by (simp add: c2_def c' num)
  have "mset (bufpool c) = mset (take r (bufpool c)) + mset (drop r (bufpool c))"
    by (metis append_take_drop_id mset_append)
  then have "buffers c2 = buffers c" using e by (simp add: buffers_def c2_def c' ac_simps)
  moreover have "core_ok c2" using assms(1) len num mark_tx_clr [of h r hs] by (simp add: core_ok_def c2_def c')
  ultimately show ?thesis by (simp add: c2_def c')
qed


lemma slot_pos: "j < 128 \<Longrightarrow> (x + j) mod 128 = (if x mod 128 + j < 128 then x mod 128 + j else x mod 128 + j - (128 :: nat))"
  by (simp add: mod_add_eq [of x 128 j, symmetric] mod_if [of "x mod 128 + j"])

text \<open>Occupied slots lie outside the slots that are refilled.\<close>

lemma occupied_outside:
  assumes "i < n" "n \<le> 128" "head = (h + n) mod (128 :: nat)"
  shows "(h + i) mod 128 < head \<or> head + (128 - n) \<le> (h + i) mod 128"
    and "head + (128 - n) > 128 \<Longrightarrow> (h + i) mod 128 < head \<and> head + (128 - n) - 128 \<le> (h + i) mod 128"
proof -
  define y where "y = (h + i) mod 128"
  have ne: "y \<noteq> (h + n + k) mod 128" if "k < 128 - n" for k
    using mod_slots_differ [of i n k h] assms(1,2) that by (simp add: y_def)
  have y: "y < 128" by (simp add: y_def)
  have pos: "(h + n + k) mod 128 = (if head + k < 128 then head + k else head + k - 128)" if "k < 128" for k
    using slot_pos [OF that, of "h + n"] assms(3) by simp
  have hd: "head < 128" using assms(3) by simp
  have again: "(h + n + (y - head)) mod 128 = y" if "head \<le> y" using pos [of "y - head"] y that by simp
  show "y < head \<or> head + (128 - n) \<le> y"
    using ne [of "y - head"] again by (cases "head \<le> y"; cases "y - head < 128 - n") auto
  show "y < head \<and> head + (128 - n) - 128 \<le> y" if "head + (128 - n) > 128"
  proof -
    have "y < head"
    proof (rule ccontr)
      assume "\<not> y < head"
      moreover from this have "y - head < 128 - n" using y that by linarith
      ultimately show False using ne [of "y - head"] again by simp
    qed
    moreover have "head + (128 - n) - 128 \<le> y"
    proof (rule ccontr)
      define k where "k = y + 128 - head"
      assume "\<not> head + (128 - n) - 128 \<le> y"
      then have "k < 128 - n" "k < 128" "\<not> head + k < 128" "head + k - 128 = y"
        using hd that assms(1,2) unfolding k_def by linarith+
      then show False using ne [of k] pos [of k] by simp
    qed
    ultimately show ?thesis by simp
  qed
qed

lemma refill_cases:
  assumes ok: "core_ok c"
    and alloc: "bufcache_grow head grow c = (c', r)"
    and head: "head = (unat (bc_head c) + unat (bc_num c)) mod BUFCACHE_SIZE" and grow: "grow = BUFCACHE_SIZE - unat (bc_num c)"
  shows "refilled c c' r"
proof -
  let ?h = "unat (bc_head c)" and ?n = "unat (bc_num c)"
  have n: "?n \<le> 128" "length (bc_handles c) = 128" and hd: "head < 128" using ok head by (simp_all add: core_ok_def)
  have pos: "(?h + ?n + j) mod 128 = (if head + j < 128 then head + j else head + j - 128)" if "j < 128" for j
    using slot_pos [OF that, of "?h + ?n"] head by simp
  note out = occupied_outside [OF _ n(1) head, folded grow]
  show ?thesis
  proof (cases "head + grow \<le> 128")
    case True
    from alloc True have a: "network_buf_alloc grow head c = (c', r)" by (simp add: bufcache_grow_def)
    note f = network_buf_alloc_ok [OF n(2) True a]
    have "bc_handles c' ! ((?h + i) mod 128) = bc_handles c ! ((?h + i) mod 128)" if "i < ?n" for i
      using f out(1) [OF that] by auto
    moreover have "bc_handles c' ! ((?h + ?n + j) mod 128) = bufpool c ! j" if "j < r" for j
      using f pos [of j] that True grow hd by auto
    ultimately show ?thesis using f grow n(1) unfolding refilled_def by auto
  next
    case False
    define g where "g = 128 - head"
    obtain c1 r1 where a1: "network_buf_alloc g head c = (c1, r1)" by (cases "network_buf_alloc g head c")
    have "head + g \<le> 128" using hd by (simp add: g_def)
    note f1 = network_buf_alloc_ok [OF n(2) this a1]
    have big: "128 < head + grow" "g < grow" using False g_def hd by auto
    show ?thesis
    proof (cases "r1 = g")
      case False
      then have c': "c' = c1" "r = r1" using alloc big a1 by (simp_all add: bufcache_grow_def Let_def g_def)
      have "bc_handles c' ! ((?h + i) mod 128) = bc_handles c ! ((?h + i) mod 128)" if "i < ?n" for i
        using f1 out(2) [OF that] big unfolding c' by auto
      moreover have "bc_handles c' ! ((?h + ?n + j) mod 128) = bufpool c ! j" if "j < r" for j
        using f1 pos [of j] that grow hd unfolding c' g_def by auto
      moreover have "r \<le> grow" using f1 big c' by simp
      ultimately show ?thesis using f1 grow n(1) unfolding refilled_def c' by auto
    next
      case True
      obtain r2 where a2: "network_buf_alloc (grow - g) 0 c1 = (c', r2)" "r = g + r2"
        using alloc big a1 True by (auto simp: bufcache_grow_def Let_def g_def split: prod.splits)
      have len1: "length (bc_handles c1) = 128" "bufpool c1 = drop g (bufpool c)" "g \<le> length (bufpool c)" using f1 True by auto
      have "0 + (grow - g) \<le> 128" using grow by simp
      note f2 = network_buf_alloc_ok [OF len1(1) this a2(1)]
      have r2: "r2 \<le> grow - g" "r2 \<le> length (bufpool c) - g" using f2 len1(2) by auto
      have gg: "grow - g = head + grow - 128" using hd big by (simp add: g_def)
      have "bc_handles c' ! ((?h + i) mod 128) = bc_handles c ! ((?h + i) mod 128)" if "i < ?n" for i
        using f1 f2 out(2) [OF that big(1)] gg by auto
      moreover have "bc_handles c' ! ((?h + ?n + j) mod 128) = bufpool c ! j" if j: "j < r" for j
      proof (cases "j < g")
        case True
        then have "head + j < 128" "j < 128" using hd unfolding g_def by linarith+
        then have p: "(?h + ?n + j) mod 128 = head + j" using pos [of j] by simp
        have "head + j < 128 \<and> grow - g \<le> head + j" using \<open>head + j < 128\<close> gg grow by linarith
        then show ?thesis using f1 f2 \<open>r1 = g\<close> True unfolding p by simp
      next
        case False
        have "j < 128" using j a2(2) r2(1) big grow by simp
        moreover have "\<not> head + j < 128" "head + j - 128 = j - g" using False hd unfolding g_def by linarith+
        ultimately have p: "(?h + ?n + j) mod 128 = j - g" using pos [of j] by simp
        have "j - g < r2" using j a2(2) False by linarith
        then have "bc_handles c' ! (0 + (j - g)) = bufpool c1 ! (j - g)" using f2 by blast
        then show ?thesis unfolding p using len1(2,3) False by simp
      qed
      moreover have "\<exists>hs. c' = c\<lparr>bufpool := drop r (bufpool c), bc_handles := hs\<rparr>"
        using f1 f2 True a2(2) by (auto simp: add.commute)
      moreover have "length (bc_handles c') = 128" using f2 by blast
      moreover have "?n + r \<le> 128" "r \<le> length (bufpool c)" using r2 a2(2) big(2) grow n(1) len1(3) by linarith+
      ultimately show ?thesis unfolding refilled_def by blast
    qed
  qed
qed

lemma bufcache_prealloc_ok:
  assumes "core_ok c" "bufcache_prealloc c n = (c', m)"
  shows "core_ok c' \<and> buffers c' = buffers c \<and> cdp c' = cdp c \<and> m \<le> n \<and> m \<le> unat (bc_num c') \<and>
    unat (bc_head c') + m \<le> BUFCACHE_SIZE"
proof -
  let ?h = "unat (bc_head c)" and ?n = "unat (bc_num c)"
  define head where "head = (?h + ?n) mod BUFCACHE_SIZE"
  define grow where "grow = BUFCACHE_SIZE - ?n"
  obtain c1 r where a: "bufcache_grow head grow c = (c1, r)" by (cases "bufcache_grow head grow c")
  have "refilled c c1 r" by (rule refill_cases [OF assms(1) a head_def grow_def])
  define c2 where "c2 = (if ?n < n then c1\<lparr>bc_handles := mark_tx head r (bc_handles c1), bc_num := bc_num c1 + of_nat r\<rparr> else c)"
  have c2: "core_ok c2 \<and> buffers c2 = buffers c \<and> cdp c2 = cdp c"
    using refill_buffers [OF assms(1) \<open>refilled c c1 r\<close> refl] assms(1) by (auto simp: c2_def)
  have "(c', m) = (c2, min n (if unat (bc_head c2) + unat (bc_num c2) \<le> BUFCACHE_SIZE then unat (bc_num c2)
                  else BUFCACHE_SIZE - unat (bc_head c2)))"
    unfolding assms(2) [symmetric] bufcache_prealloc_def c2_def Let_def grow_def [symmetric] head_def [symmetric] a prod.case
    by simp
  then show ?thesis using c2 by (auto simp: core_ok_def)
qed


text \<open>Reserving the first \<open>k\<close> buffers of the cache.\<close>

lemma bufcache_alloc_ok:
  assumes "core_ok c" "k \<le> unat (bc_num c)"
  shows "\<exists>c'. bufcache_alloc c k = Inr c' \<and> core_ok c' \<and> cdp c' = cdp c \<and>
    buffers c = buffers c' + image_mset clr (mset (ring_read (bc_handles c) (unat (bc_head c)) k))"
proof -
  define c' where "c' = c\<lparr>bc_head := of_nat ((unat (bc_head c) + k) mod BUFCACHE_SIZE), bc_num := bc_num c - of_nat k\<rparr>"
  have n: "unat (bc_num c) \<le> 128" using assms(1) by (simp add: core_ok_def)
  have k: "unat (of_nat k :: u16) = k" using assms(2) n by (simp add: unat_of_nat)
  have num: "unat (bc_num c') = unat (bc_num c) - k"
    using assms(2) k by (simp add: c'_def unat_sub_if' word_le_nat_alt)
  have "(unat (bc_head c) + k) mod 128 < 128" by simp
  then have hd: "unat (bc_head c') = (unat (bc_head c) + k) mod 128" by (simp add: c'_def unat_of_nat)
  have "cached c' = map (\<lambda>i. bc_handles c ! ((unat (bc_head c) + k + i) mod BUFCACHE_SIZE)) [0..<unat (bc_num c) - k]"
    unfolding ring_read_def num hd by (simp add: c'_def mod_add_left_eq)
  then have "cached c = ring_read (bc_handles c) (unat (bc_head c)) k @ cached c'"
    using ring_read_append [of "bc_handles c" "unat (bc_head c)" k "unat (bc_num c) - k"] assms(2) by simp
  then have "buffers c = buffers c' + image_mset clr (mset (ring_read (bc_handles c) (unat (bc_head c)) k))"
    by (simp add: buffers_def c'_def ac_simps)
  moreover have "core_ok c'" using assms(1) num hd n by (simp add: core_ok_def c'_def)
  ultimately show ?thesis using assms(2) by (auto simp: bufcache_alloc_def c'_def)
qed

lemma bufcache_free_ok:
  assumes "core_ok c"
  shows "core_ok (bufcache_free c h) \<and> cdp (bufcache_free c h) = cdp c \<and> buffers (bufcache_free c h) = add_mset (clr h) (buffers c)"
proof (cases "h AND NBH_TX_BIT = NBH_TX_BIT \<and> unat (bc_num c) < BUFCACHE_SIZE")
  case True
  let ?h = "unat (bc_head c)" and ?n = "unat (bc_num c)"
  define hs where "hs = (bc_handles c)[(?h + ?n) mod BUFCACHE_SIZE := h]"
  have len: "length (bc_handles c) = 128" using assms by (simp add: core_ok_def)
  have f: "bufcache_free c h = c\<lparr>bc_handles := hs, bc_num := bc_num c + 1\<rparr>"
    using True by (simp add: bufcache_free_def hs_def)
  have num: "unat (bc_num c + 1) = ?n + 1" using True by (simp add: unat_plus_if')
  have "hs ! ((?h + i) mod 128) = bc_handles c ! ((?h + i) mod 128)" if "i < ?n" for i
    using mod_slots_differ [of i ?n 0 ?h] that True by (simp add: hs_def)
  then have "ring_read hs ?h ?n = cached c" by (simp add: ring_read_def)
  moreover have "hs ! ((?h + ?n) mod 128) = h" using len by (simp add: hs_def)
  ultimately have "ring_read hs ?h (?n + 1) = cached c @ [h]" using ring_read_append [of hs ?h ?n 1] by simp
  then have "buffers (bufcache_free c h) = add_mset (clr h) (buffers c)"
    unfolding f buffers_def by (simp add: num)
  moreover have "core_ok (bufcache_free c h)" using assms True num unfolding f by (simp add: core_ok_def hs_def)
  ultimately show ?thesis by (simp add: f)
next
  case False
  then have "bufcache_free c h = c\<lparr>bufpool := bufpool c @ [clr h]\<rparr>" by (auto simp: bufcache_free_def clr_def)
  then show ?thesis using assms by (simp add: core_ok_def buffers_def)
qed


subsection \<open>Polls\<close>

text \<open>A run of critical sections that puts the cached buffers number \<open>k\<close> to \<open>k' - 1\<close> into the transmit buffer.\<close>

definition used :: "core \<Rightarrow> core \<Rightarrow> nat \<Rightarrow> nat \<Rightarrow> bool" where
  "used c c' k k' \<longleftrightarrow> k \<le> k' \<and>
     bc_handles c' = bc_handles c \<and> bc_num c' = bc_num c \<and> bc_head c' = bc_head c \<and> bufpool c' = bufpool c \<and>
     rx_ring c' = rx_ring c \<and> nic_tx c' = nic_tx c \<and>
     tx_handles c' = tx_handles c @ map (\<lambda>i. clr (bc_handle c i)) [k..<k'] \<and>
     length (txq (cdp c')) = length (txq (cdp c)) + (k' - k) \<and>
     (length (txq (cdp c)) \<le> TXBUF_SIZE \<longrightarrow> length (txq (cdp c')) \<le> TXBUF_SIZE)"

lemma used_refl [simp]: "used c c k k"
  by (simp add: used_def)

lemma used_trans:
  assumes "used c c1 k k1" "used c1 c2 k1 k2"
  shows "used c c2 k k2"
proof -
  have "bc_handle c1 = bc_handle c" using assms(1) by (auto simp: used_def bc_handle_def)
  moreover have "[k..<k2] = [k..<k1] @ [k1..<k2]"
    using assms upt_add_eq_append [of k k1 "k2 - k1"] by (simp add: used_def)
  ultimately show ?thesis using assms unfolding used_def by (auto simp del: upt.simps)
qed

lemma used_ran: "sends (cdp c) s' (r = 0) \<Longrightarrow> used c (ran c (bc_handle c k) s') k (if r = 0 then Suc k else k)" for r :: int
  by (auto simp: used_def ran_def sends_def clr_def)

lemma used_next_ctx: "used c c1 k k1 \<Longrightarrow> used c (c1\<lparr>poll_next_ctx := x\<rparr>) k k1"
  by (auto simp: used_def)

lemma used_time: "used c (c\<lparr>cdp := (cdp c)\<lparr>qm := t\<rparr>\<rparr>) k k"
  by (simp add: used_def)

lemma post_queues_ctx:
  "k \<le> mx \<Longrightarrow> post (queues_ctx e ts mx i c k t) (\<lambda>(c', k', t'). used c c' k k' \<and> k' \<le> mx)"
proof (induction i arbitrary: c k t)
  case (Suc i)
  show ?case
  proof (cases "k < mx")
    case True
    have "post (fast_appctx_poll e (cdp c) (poll_next_ctx c) ts) (\<lambda>(s, ret). post (let c = ran c (bc_handle c k) s in
         if ret = 0 then queues_ctx e ts mx i c (Suc k) (Suc t) else if ret < 0 then Inr (c, k, t)
         else queues_ctx e ts mx i c k (Suc t)) (\<lambda>(c', k', t'). used c c' k k' \<and> k' \<le> mx))"
    proof (rule post_mono [OF post_appctx], clarify)
      fix s and r :: int assume "sends (cdp c) s (r = 0)"
      from used_ran [OF this, of k] have u: "used c (ran c (bc_handle c k) s) k (if r = 0 then Suc k else k)" .
      have m: "post m (\<lambda>(c', k', t'). used c c' k k' \<and> k' \<le> mx)"
        if "post m (\<lambda>(c', k', t'). used (ran c (bc_handle c k) s) c' (if r = 0 then Suc k else k) k' \<and> k' \<le> mx)" for m :: "(core \<times> nat \<times> nat) res"
        by (rule post_mono [OF that]) (use used_trans [OF u] in auto)
      show "post (let c = ran c (bc_handle c k) s in
         if r = 0 then queues_ctx e ts mx i c (Suc k) (Suc t) else if r < 0 then Inr (c, k, t)
         else queues_ctx e ts mx i c k (Suc t)) (\<lambda>(c', k', t'). used c c' k k' \<and> k' \<le> mx)"
        using True by (intro m) (auto simp: Let_def intro!: Suc.IH)
    qed
    then show ?thesis using True by (simp add: case_prod_unfold)
  qed (use Suc.prems in auto)
qed simp

lemma post_queues_loop:
  "k \<le> mx \<Longrightarrow> post (queues_loop e ts mx n c k t) (\<lambda>(c', k', t'). used c c' k k' \<and> k' \<le> mx)"
proof (induction n arbitrary: c k t)
  case (Suc n)
  show ?case
  proof (cases "k < mx")
    case True
    have "post (queues_ctx e ts mx BATCH_SIZE c k t) (\<lambda>(c1, k1, t1). post
        (queues_loop e ts mx n (c1\<lparr>poll_next_ctx := (poll_next_ctx c1 + 1) mod of_nat APPCTX_NUM\<rparr>) k1 t1)
        (\<lambda>(c', k', t'). used c c' k k' \<and> k' \<le> mx))"
    proof (rule post_mono [OF post_queues_ctx [OF Suc.prems]], clarify)
      fix c1 k1 t1 assume u: "used c c1 k k1" "k1 \<le> mx"
      show "post (queues_loop e ts mx n (c1\<lparr>poll_next_ctx := (poll_next_ctx c1 + 1) mod of_nat APPCTX_NUM\<rparr>) k1 t1)
        (\<lambda>(c', k', t'). used c c' k k' \<and> k' \<le> mx)"
        by (rule post_mono [OF Suc.IH [OF u(2)]]) (use used_trans [OF used_next_ctx [OF u(1)]] in auto)
    qed
    then show ?thesis using True by (simp add: case_prod_unfold)
  qed (use Suc.prems in auto)
qed simp

lemma post_kernel_loop:
  "k \<le> mx \<Longrightarrow> post (kernel_loop fuel e ts mx c k t) (\<lambda>(c', k', t'). used c c' k k' \<and> k' \<le> mx)"
proof (induction fuel arbitrary: c k t)
  case (Suc fuel)
  show ?case
  proof (cases "k < mx")
    case True
    have "post (fast_kernel_poll e (cdp c) ts) (\<lambda>(s, ret). post (let c = ran c (bc_handle c k) s in
         if ret = 0 then kernel_loop fuel e ts mx c (Suc k) (Suc t) else if ret < 0 then Inr (c, k, t)
         else kernel_loop fuel e ts mx c k (Suc t)) (\<lambda>(c', k', t'). used c c' k k' \<and> k' \<le> mx))"
    proof (rule post_mono [OF post_kernel_poll], clarify)
      fix s and r :: int assume "sends (cdp c) s (r = 0)"
      from used_ran [OF this, of k] have u: "used c (ran c (bc_handle c k) s) k (if r = 0 then Suc k else k)" .
      have m: "post m (\<lambda>(c', k', t'). used c c' k k' \<and> k' \<le> mx)"
        if "post m (\<lambda>(c', k', t'). used (ran c (bc_handle c k) s) c' (if r = 0 then Suc k else k) k' \<and> k' \<le> mx)" for m :: "(core \<times> nat \<times> nat) res"
        by (rule post_mono [OF that]) (use used_trans [OF u] in auto)
      show "post (let c = ran c (bc_handle c k) s in
         if r = 0 then kernel_loop fuel e ts mx c (Suc k) (Suc t) else if r < 0 then Inr (c, k, t)
         else kernel_loop fuel e ts mx c k (Suc t)) (\<lambda>(c', k', t'). used c c' k k' \<and> k' \<le> mx)"
        using True by (intro m) (auto simp: Let_def intro!: Suc.IH)
    qed
    then show ?thesis using True by (simp add: kernel_loop.simps [of "Suc fuel"] case_prod_unfold)
  qed (use Suc.prems in \<open>auto simp: kernel_loop.simps [of "Suc fuel"]\<close>)
qed (simp add: kernel_loop.simps [of 0])

lemma post_qman_loop:
  "post (qman_loop e ts qs c k) (\<lambda>(c', k'). used c c' k k' \<and> k' \<le> k + length qs)"
proof (induction qs arbitrary: c k)
  case (Cons q qs)
  obtain i b x where q: "q = (i, b, x)" by (cases q)
  have "post (fast_flows_qman e (cdp c) i ts) (\<lambda>(s, ret). post (qman_loop e ts qs (ran c (bc_handle c k) s) (if ret = 0 then Suc k else k))
      (\<lambda>(c', k'). used c c' k k' \<and> k' \<le> k + length (q # qs)))"
  proof (rule post_mono [OF post_flows_qman], clarify)
    fix s and r :: int assume "sends (cdp c) s (r = 0)"
    from used_trans [OF used_ran [OF this, of k]]
    show "post (qman_loop e ts qs (ran c (bc_handle c k) s) (if r = 0 then Suc k else k)) (\<lambda>(c', k'). used c c' k k' \<and> k' \<le> k + length (q # qs))"
      by (intro post_mono [OF Cons.IH]) (auto split: if_splits)
  qed
  then show ?case unfolding q by (simp add: case_prod_unfold)
qed simp

text \<open>A poll that preallocates, uses and reserves buffers neither loses nor duplicates one.\<close>

definition keeps :: "core \<Rightarrow> core \<Rightarrow> bool" where
  "keeps c c' \<longleftrightarrow> (core_ok c \<longrightarrow> core_ok c' \<and> buffers c' = buffers c)"

lemma keeps_trans: "keeps c c1 \<Longrightarrow> keeps c1 c2 \<Longrightarrow> keeps c c2"
  by (simp add: keeps_def)

lemma reserve_used:
  assumes ok: "core_ok c" and pre: "bufcache_prealloc c n = (c1, mx)" and u: "used c1 c2 0 k" "k \<le> mx"
  shows "\<exists>c'. bufcache_alloc c2 k = Inr c' \<and> core_ok c' \<and> buffers c' = buffers c"
proof -
  note p = bufcache_prealloc_ok [OF ok pre]
  have c2: "core_ok c2" "bc_num c2 = bc_num c1" "bc_head c2 = bc_head c1" "bc_handles c2 = bc_handles c1"
    using p u(1) by (auto simp: used_def core_ok_def)
  obtain c' where c': "bufcache_alloc c2 k = Inr c'" "core_ok c'"
    "buffers c2 = buffers c' + image_mset clr (mset (ring_read (bc_handles c2) (unat (bc_head c2)) k))"
    using bufcache_alloc_ok [OF c2(1), of k] p u(2) c2(2) by auto
  have "ring_read (bc_handles c2) (unat (bc_head c2)) k = map (bc_handle c1) [0..<k]"
    using p u(2) c2 by (simp add: ring_read_def bc_handle_def)
  moreover have "buffers c2 = buffers c1 + image_mset clr (mset (map (bc_handle c1) [0..<k]))"
  proof -
    have "mset (tx_handles c2) = mset (tx_handles c1) + image_mset clr (mset (map (bc_handle c1) [0..<k]))"
      using u(1) by (simp add: used_def image_mset.compositionality comp_def)
    then show ?thesis using u(1) by (simp add: buffers_def used_def image_mset.compositionality comp_def ac_simps)
  qed
  ultimately have "buffers c' = buffers c1" using c'(3) by simp
  then show ?thesis using c' p by simp
qed

lemma post_poll_queues: "post (poll_queues e ts c) (\<lambda>(c', t). keeps c c')"
proof (cases "core_ok c")
  case True
  obtain c1 mx where pre: "bufcache_prealloc c (tx_room c) = (c1, mx)" by fastforce
  have "post (queues_loop e ts mx APPCTX_NUM c1 0 0) (\<lambda>(c2, k, t). post (bufcache_alloc c2 k) (\<lambda>c'. keeps c c'))"
    by (rule post_mono [OF post_queues_loop]) (use reserve_used [OF True pre] in \<open>fastforce simp: keeps_def\<close>)+
  then show ?thesis by (simp add: poll_queues_def pre case_prod_unfold)
qed (simp add: keeps_def post_any)

lemma post_poll_kernel: "post (poll_kernel e ts c) (\<lambda>(c', t). keeps c c')"
proof (cases "core_ok c")
  case True
  obtain c1 mx where pre: "bufcache_prealloc c (min 8 (tx_room c)) = (c1, mx)" by fastforce
  have "post (kernel_loop (kernel_fuel c1) e ts mx c1 0 0) (\<lambda>(c2, k, t). post (bufcache_alloc c2 k) (\<lambda>c'. keeps c c'))"
    by (rule post_mono [OF post_kernel_loop]) (use reserve_used [OF True pre] in \<open>fastforce simp: keeps_def\<close>)+
  then show ?thesis by (simp add: poll_kernel_def pre case_prod_unfold)
qed (simp add: keeps_def post_any)


text \<open>A poll of the queue manager fires at most as many queues as asked.\<close>

lemma poll_nolimit_bound: "length out \<le> n \<Longrightarrow> post (poll_nolimit f t n out) (\<lambda>(t', out'). length out' \<le> n)"
proof (induction f arbitrary: t out)
  case (Suc f)
  then show ?case by (auto simp: Let_def intro!: post_split post_any [where m = "queue_fire a b" for a b])
qed simp

lemma poll_skip_loop_bound: "length out \<le> n \<Longrightarrow> post (poll_skip_loop f t v n out) (\<lambda>(t', out'). length out' \<le> n)"
proof (induction f arbitrary: t out)
  case (Suc f)
  then show ?case by (auto simp: Let_def intro!: post_split post_any [where m = "queue_fire a b" for a b])
qed simp

lemma poll_skiplist_bound: "post (poll_skiplist f t ts n) (\<lambda>(t', out). length out \<le> n)"
  unfolding poll_skiplist_def Let_def post_simps
  by (rule post_mono [OF poll_skip_loop_bound]) auto

lemma qman_poll_bound: "post (qman_poll f t ts n) (\<lambda>(t', out). length out \<le> n)"
proof -
  have "post (poll_nolimit f t n []) (\<lambda>(t, x). post (poll_skiplist f t ts (n - length x)) (\<lambda>(t, y). length (x @ y) \<le> n))"
    by (rule post_mono [OF poll_nolimit_bound]) (auto intro!: post_mono [OF poll_skiplist_bound])
  moreover have "post (poll_skiplist f t ts n) (\<lambda>(t, x). post (poll_nolimit f t (n - length x) []) (\<lambda>(t, y). length (x @ y) \<le> n))"
    by (rule post_mono [OF poll_skiplist_bound]) (auto intro!: post_mono [OF poll_nolimit_bound])
  ultimately show ?thesis by (simp add: qman_poll_def Let_def case_prod_unfold)
qed

lemma post_poll_qman: "post (poll_qman e ts c) (\<lambda>(c', t). keeps c c')"
proof (cases "core_ok c")
  case True
  obtain c1 mx where pre: "bufcache_prealloc c (tx_room c) = (c1, mx)" by fastforce
  have "post (qman_poll (length (queues (qm (cdp c1))) + mx + 1) (qm (cdp c1)) ts mx) (\<lambda>(t, qs).
      post (let c2 = c1\<lparr>cdp := (cdp c1)\<lparr>qm := t\<rparr>\<rparr> in
       if qs = [] then Inr (c2, 0)
       else bind_res (qman_loop e ts qs c2 0) (\<lambda>(c, off). bind_res (bufcache_alloc c off) (\<lambda>c. Inr (c, length qs))))
      (\<lambda>(c', t). keeps c c'))"
  proof (rule post_mono [OF qman_poll_bound], clarify)
    fix t qs assume len: "length (qs :: (u32 \<times> u16 \<times> u8) list) \<le> mx"
    let ?c2 = "c1\<lparr>cdp := (cdp c1)\<lparr>qm := t\<rparr>\<rparr>"
    have "post (qman_loop e ts qs ?c2 0) (\<lambda>(c3, k). post (bufcache_alloc c3 k) (\<lambda>c'. keeps c c'))"
    proof (rule post_mono [OF post_qman_loop], clarify)
      fix c3 k assume u: "used ?c2 c3 0 k" "k \<le> 0 + length qs"
      then have "used c1 c3 0 k" "k \<le> mx" using used_trans [OF used_time] len by auto
      then show "post (bufcache_alloc c3 k) (\<lambda>c'. keeps c c')"
        using reserve_used [OF True pre] by (fastforce simp: keeps_def)
    qed
    moreover have "keeps c ?c2" using bufcache_prealloc_ok [OF True pre] by (simp add: keeps_def core_ok_def buffers_def)
    ultimately show "post (let c2 = ?c2 in
       if qs = [] then Inr (c2, 0)
       else bind_res (qman_loop e ts qs c2 0) (\<lambda>(c, off). bind_res (bufcache_alloc c off) (\<lambda>c. Inr (c, length qs))))
      (\<lambda>(c', t). keeps c c')"
      by (simp add: Let_def case_prod_unfold)
  qed
  then show ?thesis unfolding poll_qman_def pre Let_def prod.case post_simps by (simp only: case_prod_unfold)
qed (simp add: keeps_def post_any)

lemma post_poll_fwd: "post (poll_qman_fwd fs c) (keeps c)"
proof (induction fs arbitrary: c)
  case (Cons f fs)
  have "post (fast_flows_qman_fwd (cdp c) f) (\<lambda>s. post (poll_qman_fwd fs (c\<lparr>cdp := s\<rparr>)) (keeps c))"
  proof (rule post_mono [OF post_fwd])
    fix s assume "sends (cdp c) s False"
    then have "keeps c (c\<lparr>cdp := s\<rparr>)" by (simp add: keeps_def core_ok_def buffers_def sends_def)
    then show "post (poll_qman_fwd fs (c\<lparr>cdp := s\<rparr>)) (keeps c)" by (intro post_mono [OF Cons.IH]) (rule keeps_trans)
  qed
  then show ?case by simp
qed (simp add: keeps_def)

lemma tx_flush_keeps: "keeps c (tx_flush k c)"
proof -
  have "buffers (tx_flush k c) = buffers c" if ok: "core_ok c" and ne: "length (txq (cdp c)) \<noteq> 0"
  proof -
    define j where "j = min k (length (txq (cdp c)))"
    have l: "length (tx_handles c) = length (txq (cdp c))" using ok by (simp add: core_ok_def)
    have "map snd (zip (take j (txq (cdp c))) (take j (tx_handles c))) = take j (tx_handles c)" using l by simp
    moreover have "mset (tx_handles c) = mset (take j (tx_handles c)) + mset (drop j (tx_handles c))"
      by (metis append_take_drop_id mset_append)
    ultimately show ?thesis
      using ne by (simp add: tx_flush_def Let_def buffers_def j_def [symmetric] ac_simps del: mset_map)
  qed
  then show ?thesis by (auto simp: keeps_def tx_flush_def Let_def core_ok_def)
qed

text \<open>A received packet's buffer is in the transmit buffer or is freed.\<close>

definition rx_used :: "core \<Rightarrow> core \<Rightarrow> rx_pkt \<Rightarrow> bool \<Rightarrow> bool" where
  "rx_used c c' r b \<longleftrightarrow> (core_ok c \<longrightarrow> core_ok c' \<and> buffers c' = buffers c + (if b then {#clr (rp_handle r)#} else {#}))"

lemma post_rx_pkt: "post (poll_rx_pkt e ts c r fs) (\<lambda>(c', b). rx_used c c' r b)"
proof (cases fs)
  case None
  have "post (fast_kernel_packet (cdp c) (pkt_bytes (rp_pkt r)) (rp_len r) (rp_group r)) (\<lambda>s. rx_used c (c\<lparr>cdp := s\<rparr>) r False)"
    by (rule post_mono [OF post_kernel_packet]) (simp add: rx_used_def core_ok_def buffers_def sends_def)
  then show ?thesis using None by (simp add: poll_rx_pkt_def)
next
  case (Some fid)
  have "post (fast_flows_packet e (cdp c) (rp_pkt r) (rp_len r) fid ts) (\<lambda>(s, p, ret).
      post (let c = ran c (rp_handle r) s in
           if ret > 0 then Inr (c, True)
           else if ret < 0 then
             bind_res (fast_kernel_packet s (pkt_bytes p) (rp_len r) (rp_group r)) (\<lambda>s. Inr (c\<lparr>cdp := s\<rparr>, False))
           else Inr (c, False)) (\<lambda>(c', b). rx_used c c' r b))"
  proof (rule post_mono [OF post_packet], clarify)
    fix s p and ret :: int assume s: "sends (cdp c) s (0 < ret)"
    have k: "post (fast_kernel_packet s (pkt_bytes p) (rp_len r) (rp_group r)) (\<lambda>s. rx_used c (c\<lparr>cdp := s\<rparr>) r False)"
      if "sends (cdp c) s False"
      by (rule post_mono [OF post_kernel_packet]) (use that in \<open>simp add: rx_used_def core_ok_def buffers_def sends_def\<close>)
    have ran: "ran c (rp_handle r) s = (if ret > 0 then c\<lparr>cdp := s, tx_handles := tx_handles c @ [clr (rp_handle r)]\<rparr> else c\<lparr>cdp := s\<rparr>)"
      using s by (simp add: ran_def sends_def clr_def)
    show "post (let c = ran c (rp_handle r) s in
           if ret > 0 then Inr (c, True)
           else if ret < 0 then
             bind_res (fast_kernel_packet s (pkt_bytes p) (rp_len r) (rp_group r)) (\<lambda>s. Inr (c\<lparr>cdp := s\<rparr>, False))
           else Inr (c, False)) (\<lambda>(c', b). rx_used c c' r b)"
      using s k unfolding ran by (auto simp: Let_def rx_used_def core_ok_def buffers_def sends_def)
  qed
  then show ?thesis using Some by (simp add: poll_rx_pkt_def case_prod_unfold)
qed

lemma post_rx_loop:
  "post (poll_rx_loop e ts rs c) (\<lambda>(c', fr). core_ok c \<longrightarrow> core_ok c' \<and>
     buffers c' + image_mset clr (mset (map rp_handle fr)) = buffers c + image_mset clr (mset (map (\<lambda>x. rp_handle (fst x)) rs)))"
proof (induction rs arbitrary: c)
  case (Cons x rs)
  obtain r fs where x: "x = (r, fs)" by (cases x)
  have "post (poll_rx_pkt e ts c r fs) (\<lambda>(c1, b). post (poll_rx_loop e ts rs c1) (\<lambda>(c', fr). core_ok c \<longrightarrow> core_ok c' \<and>
     buffers c' + image_mset clr (mset (map rp_handle (if b then fr else r # fr))) = buffers c + image_mset clr (mset (map (\<lambda>x. rp_handle (fst x)) (x # rs)))))"
  proof (rule post_mono [OF post_rx_pkt], clarify)
    fix c1 b assume u: "rx_used c c1 r b"
    show "post (poll_rx_loop e ts rs c1) (\<lambda>(c', fr). core_ok c \<longrightarrow> core_ok c' \<and>
       buffers c' + image_mset clr (mset (map rp_handle (if b then fr else r # fr))) = buffers c + image_mset clr (mset (map (\<lambda>x. rp_handle (fst x)) (x # rs))))"
      by (rule post_mono [OF Cons.IH]) (use u in \<open>auto simp: rx_used_def x\<close>)
  qed
  then show ?case by (simp add: x case_prod_unfold)
qed simp

lemma free_all:
  "core_ok c \<Longrightarrow> core_ok (fold (\<lambda>r c. bufcache_free c (rp_handle r)) fr c) \<and>
    buffers (fold (\<lambda>r c. bufcache_free c (rp_handle r)) fr c) = buffers c + image_mset clr (mset (map rp_handle fr))"
proof (induction fr arbitrary: c)
  case (Cons r fr)
  then show ?case using bufcache_free_ok [OF Cons.prems, of "rp_handle r"] by auto
qed simp

lemma post_poll_rx: "post (poll_rx e ts c) (keeps c)"
proof -
  define n where "n = tx_room c"
  define rs where "rs = take n (rx_ring c)"
  let ?c = "c\<lparr>rx_ring := drop n (rx_ring c)\<rparr>"
  let ?z = "zip rs (fast_flows_packet_fss e (cdp ?c) (map rp_pkt rs))"
  have "length (fast_flows_packet_fss e (cdp ?c) (map rp_pkt rs)) = length rs"
    by (simp add: fast_flows_packet_fss_def)
  then have "map fst ?z = rs" by simp
  then have "map rp_handle (map fst ?z) = map rp_handle rs" by (rule arg_cong)
  then have "map (\<lambda>x. rp_handle (fst x)) ?z = map rp_handle rs" by (simp add: comp_def)
  from arg_cong [OF this, of mset] have z: "image_mset (\<lambda>x. rp_handle (fst x)) (mset ?z) = image_mset rp_handle (mset rs)" by simp
  have "mset (map rp_handle (rx_ring c)) = mset (map rp_handle rs) + mset (map rp_handle (drop n (rx_ring c)))"
    unfolding rs_def by (metis append_take_drop_id map_append mset_append)
  then have b: "buffers c = buffers ?c + image_mset clr (mset (map rp_handle rs))"
    by (simp add: buffers_def ac_simps del: mset_map)
  have "post (poll_rx_loop e ts ?z ?c) (\<lambda>(c', fr). keeps c (fold (\<lambda>r c. bufcache_free c (rp_handle r)) fr c'))"
  proof (rule post_mono [OF post_rx_loop], clarify)
    fix c' fr assume l: "core_ok ?c \<longrightarrow> core_ok c' \<and>
      buffers c' + image_mset clr (mset (map rp_handle fr)) = buffers ?c + image_mset clr (mset (map (\<lambda>x. rp_handle (fst x)) ?z))"
    have "core_ok c \<longrightarrow> core_ok ?c" by (simp add: core_ok_def)
    then show "keeps c (fold (\<lambda>r c. bufcache_free c (rp_handle r)) fr c')"
      using l free_all [of c' fr] b z by (auto simp: keeps_def)
  qed
  then show ?thesis by (simp add: poll_rx_def Let_def n_def [symmetric] rs_def [symmetric] case_prod_unfold)
qed


subsection \<open>The loop\<close>

lemma keeps_bind: "post m (keeps c) \<Longrightarrow> (\<And>c1. post (f c1) (keeps c1)) \<Longrightarrow> post (bind_res m f) (keeps c)"
  unfolding post_simps by (erule post_mono) (blast intro: post_mono keeps_trans)

lemma keeps_bind_pair:
  "post m (\<lambda>(c', t). keeps c c') \<Longrightarrow> (\<And>c1 t. post (f (c1, t)) (keeps c1)) \<Longrightarrow> post (bind_res m f) (keeps c)"
  unfolding post_simps by (erule post_mono) (auto intro: post_mono keeps_trans)

lemma post_dataplane_iter: "post (dataplane_iter e ts qts fids k1 k2 c) (keeps c)"
proof -
  have kernel: "post (bind_res (poll_kernel e ts c) (\<lambda>(c, n3). Inr (tx_flush k2 c))) (keeps c)" for c
    by (rule keeps_bind_pair [OF post_poll_kernel]) (simp add: tx_flush_keeps)
  have queues: "post (bind_res (poll_queues e ts c) (\<lambda>(c, n2). bind_res (poll_kernel e ts c) (\<lambda>(c, n3). Inr (tx_flush k2 c)))) (keeps c)" for c
    by (rule keeps_bind_pair [OF post_poll_queues]) (simp only: prod.case kernel)
  have qman: "post (bind_res (poll_qman e qts c) (\<lambda>(c, n1). bind_res (poll_queues e ts c) (\<lambda>(c, n2).
      bind_res (poll_kernel e ts c) (\<lambda>(c, n3). Inr (tx_flush k2 c))))) (keeps c)" for c
    by (rule keeps_bind_pair [OF post_poll_qman]) (simp only: prod.case queues)
  have fwd: "post (poll_qman_fwd fids (tx_flush k1 c)) (keeps c)" for c
    by (rule post_mono [OF post_poll_fwd]) (rule keeps_trans [OF tx_flush_keeps])
  show ?thesis
    unfolding dataplane_iter_def by (intro keeps_bind [OF post_poll_rx] keeps_bind [OF fwd] qman)
qed

text \<open>Iterations of a core's loop, with any inputs from the NIC, the clocks and the other cores in between.\<close>

inductive core_run :: "env \<Rightarrow> core \<Rightarrow> core \<Rightarrow> bool" for e where
  run_start: "core_run e c c"
| run_iter: "core_run e c c1 \<Longrightarrow> dataplane_iter e ts qts fids k1 k2 c1 = Inr c2 \<Longrightarrow> core_run e c c2"

text \<open>
  C26: however long the loop runs, the multiset of packet buffers is the same before and after: no handle is lost, given
  out twice or sent twice, whatever mix of acknowledgements, segments, kernel packets and drops the polls produced and
  however the cache wraps around; the transmit buffer never exceeds its size and every frame in it has its buffer.
\<close>

theorem buffers_conserved:
  assumes "core_run e c c'" "core_ok c"
  shows "buffers c' = buffers c \<and> core_ok c'"
  using assms
proof (induction rule: core_run.induct)
  case (run_iter c c1 ts qts fids k1 k2 c2)
  then have "keeps c1 c2" using postD [OF post_dataplane_iter] by blast
  then show ?case using run_iter by (simp add: keeps_def)
qed simp



text \<open>The kernel's queue: with at least as much fuel as there are non-zero bytes more fuel changes nothing, because every
  iteration that goes on clears the type of an entry.\<close>

lemma kernel_loop_fuel:
  "marks (cdp c) < fuel \<Longrightarrow> kernel_loop (fuel + d) e ts mx c k t = kernel_loop fuel e ts mx c k t"
proof (induction fuel arbitrary: c k t)
  case (Suc fuel)
  note step = kernel_loop.simps [of "Suc _"]
  show ?case
  proof (cases "fast_kernel_poll e (cdp c) ts")
    case (Inl x)
    then show ?thesis by (simp add: step)
  next
    case (Inr y)
    obtain s r where y: "y = (s, r)" by (cases y)
    have "r \<ge> 0 \<Longrightarrow> marks s < marks (cdp c)" using postD [OF post_kernel_poll, of e "cdp c" ts] Inr y by auto
    then have "kernel_loop (fuel + d) e ts mx (ran c (bc_handle c k) s) k' t' = kernel_loop fuel e ts mx (ran c (bc_handle c k) s) k' t'"
      if "r \<ge> 0" for k' t'
      using that Suc.prems by (intro Suc.IH) (simp add: ran_def)
    then show ?thesis using Inr y by (simp add: step Let_def)
  qed
qed simp

lemma marks_fuel: "marks (cdp c) < kernel_fuel c"
  unfolding marks_def by (rule le_less_trans [OF length_filter_le]) simp

text \<open>A core with idle queues, three free buffers and a received frame of no registered flow.\<close>

definition ex_idle :: appctx where
  "ex_idle = \<lparr>ax_rx_base = 0, ax_tx_base = 0, ax_rx_len = 0, ax_tx_len = 0, ax_qman_qid = 0, ax_appst_id = 0, ax_rx_head = 0,
     ax_tx_head = 0, ax_last_ts = 0\<rparr>"

definition ex_core :: core where
  "ex_core = \<lparr>cdp = \<lparr>dmem = [], appctxs = [replicate 16 ex_idle], flows = [], flowht = replicate 4 (0, 0), qmant = [0],
       kctxs = [ex_idle], appsts = [], steering = [0], core_id = 0, qm = qman_thread_init 1 0 0, fwd = [], txq = [], kicks = [],
       now_us = 0, klast_ts = 0\<rparr>,
     poll_next_ctx = 0, bc_handles = replicate 128 0, bc_num = 0, bc_head = 126, tx_handles = [], bufpool = [8, 16, 24],
     rx_ring = [\<lparr>rp_pkt = ex_seg, rp_len = 70, rp_handle = 32, rp_group = Some 0\<rparr>], nic_tx = []\<rparr>"

lemma ex_core_iter:
  "case dataplane_iter ex_env 5 5 [] 0 0 ex_core of Inl _ \<Rightarrow> False
   | Inr c \<Rightarrow> bc_num c = 4 \<and> bufpool c = [] \<and> rx_ring c = []"
  by code_simp

theorem buffers_conserved_witness:
  "\<exists>c'. core_run ex_env ex_core c' \<and> buffers c' = {#8, 16, 24, 32#} \<and> bc_num c' = 4 \<and> bufpool c' = []"
proof -
  obtain c' where c': "dataplane_iter ex_env 5 5 [] 0 0 ex_core = Inr c'" "bc_num c' = 4" "bufpool c' = []"
    using ex_core_iter by (auto split: sum.splits)
  have "core_run ex_env ex_core c'" by (rule run_iter [OF run_start c'(1)])
  moreover have "core_ok ex_core" by (simp add: core_ok_def ex_core_def)
  moreover have "buffers ex_core = {#8, 16, 24, 32#}" by (simp add: buffers_def ex_core_def ring_read_def clr_def)
  ultimately show ?thesis using buffers_conserved [of ex_env ex_core c'] c' by auto
qed

end
