(* ===== verification/Scaling.thy ===== *)
theory Scaling
  imports Prelude "HOL-Library.Multiset"
begin

text \<open>
  Scaling the fast path to another number of cores (flexnic/network.c, flexnic/flexnic.c, flexnic/fastemu.c): the RSS
  redirection table that assigns flow groups to cores, the number of groups per core, the steering table shared with
  the applications, and the load monitor that asks for more or fewer cores.

  \<open>reta\<close> is the redirection table as one array; the update masks and the write of the table to the device
  (\<open>rte_eth_dev_rss_reta_update\<close>) belong to DPDK: \<open>dev_ok\<close> is the device's answer.
\<close>

record rss =
  reta :: "u16 list"
  rss_core_buckets :: "u16 list"
  flow_group_steering :: "u8 list"

section \<open>Operations\<close>

text \<open>\<open>reta_setup\<close>: the groups go to the first \<open>cur\<close> cores in turn.\<close>

definition reta_setup :: "nat \<Rightarrow> nat \<Rightarrow> nat \<Rightarrow> rss" where
  "reta_setup size' cores_max cur =
    fold (\<lambda>i r. let c = i mod cur in
        r\<lparr>rss_core_buckets := (rss_core_buckets r)[c := rss_core_buckets r ! c + 1],
          reta := (reta r)[i := of_nat c], flow_group_steering := (flow_group_steering r)[i := of_nat c]\<rparr>)
      [0..<size'] \<lparr>reta = replicate size' 0, rss_core_buckets = replicate cores_max 0, flow_group_steering = replicate size' 0\<rparr>"

text \<open>The least loaded of the first \<open>num\<close> cores; the search starts from \<open>UINT8_MAX\<close>.\<close>

definition core_min :: "u16 list \<Rightarrow> nat \<Rightarrow> nat" where
  "core_min bs num = fst (fold (\<lambda>i (i_min, v_min). if bs ! i < v_min then (i, bs ! i) else (i_min, v_min)) [0..<num] (0, 255))"

definition core_max :: "u16 list \<Rightarrow> nat \<Rightarrow> nat" where
  "core_max bs num = fst (fold (\<lambda>i (i_max, v_max). if bs ! i \<ge> v_max then (i, bs ! i) else (i_max, v_max)) [0..<num] (0, 0))"

text \<open>Moving entry \<open>k\<close> of the table from core \<open>c\<close> to core \<open>j\<close>.\<close>

definition move_group :: "nat \<Rightarrow> nat \<Rightarrow> nat \<Rightarrow> rss \<Rightarrow> rss" where
  "move_group k c j r =
    (let bs = (rss_core_buckets r)[c := rss_core_buckets r ! c - 1] in
     r\<lparr>reta := (reta r)[k := of_nat j], flow_group_steering := (flow_group_steering r)[k := of_nat j],
       rss_core_buckets := bs[j := bs ! j + 1]\<rparr>)"

text \<open>\<open>for (; ; k = (k + 1) % rss_reta_size)\<close> until an entry of core \<open>c\<close>, with fuel.\<close>

fun find_entry :: "nat \<Rightarrow> u16 list \<Rightarrow> nat \<Rightarrow> nat \<Rightarrow> nat option" where
  "find_entry 0 rt c k = None"
| "find_entry (Suc f) rt c k = (if rt ! k = of_nat c then Some k else find_entry f rt c ((k + 1) mod length rt))"

text \<open>One group for each core in \<open>js\<close>, taken from the most loaded old core.\<close>

fun scale_up_loop :: "nat \<Rightarrow> nat list \<Rightarrow> rss \<Rightarrow> nat \<Rightarrow> rss res" where
  "scale_up_loop old [] r k = Inr r"
| "scale_up_loop old (j # js) r k =
    (let c = core_max (rss_core_buckets r) old in
     case find_entry (length (reta r)) (reta r) c k of None \<Rightarrow> Inl Diverge
     | Some k \<Rightarrow> scale_up_loop old js (move_group k c j r) k)"

definition network_scale_up :: "bool \<Rightarrow> nat \<Rightarrow> nat \<Rightarrow> rss \<Rightarrow> (rss \<times> int) res" where
  "network_scale_up dev_ok old new r =
    (let share = length (reta r) div new in
     bind_res (scale_up_loop old (concat (map (\<lambda>j. replicate share j) [old..<new])) r 0)
       (\<lambda>r. Inr (r, if dev_ok then 0 else -1)))"

definition network_scale_down :: "bool \<Rightarrow> nat \<Rightarrow> nat \<Rightarrow> rss \<Rightarrow> rss \<times> int" where
  "network_scale_down dev_ok old new r =
    (fold (\<lambda>i r. let o_c = unat (reta r ! i) in
        if o_c \<ge> new then move_group i o_c (core_min (rss_core_buckets r) new) r else r) [0..<length (reta r)] r,
     if dev_ok then 0 else -1)"

text \<open>The request \<open>fp_scale_to\<close> and its processing by core 0: the current number of cores, the cleared request, the tables.\<close>

definition flexnic_scale_to :: "nat \<Rightarrow> nat \<Rightarrow> nat option" where
  "flexnic_scale_to scale_to cores = (if scale_to \<noteq> 0 then None else Some cores)"

definition poll_scale :: "bool \<Rightarrow> nat \<Rightarrow> nat \<Rightarrow> rss \<Rightarrow> (nat \<times> nat \<times> rss) res" where
  "poll_scale dev_ok cur st r =
    (if st = 0 then Inr (cur, st, r)
     else if st < cur then
       (case network_scale_down dev_ok cur st r of (r, ret) \<Rightarrow> if ret \<noteq> 0 then Inl Abort else Inr (st, 0, r))
     else if st > cur then
       bind_res (network_scale_up dev_ok cur st r) (\<lambda>(r, ret). if ret \<noteq> 0 then Inl Abort else Inr (st, 0, r))
     else Inr (st, 0, r))"

text \<open>
  The load monitor's static variables and the busy cycles it has seen per core.  \<open>ctxs\<close> holds the busy cycles of each
  core's context, \<open>None\<close> for a context not created yet, which ends the call early.
\<close>

record loadmon =
  ewma_busy :: u64
  ewma_cycles :: u64
  last_tsc :: u64
  waiting :: bool
  waiting_n :: int
  core_loads :: "u64 list"

fun loads_loop :: "u64 option list \<Rightarrow> nat list \<Rightarrow> u64 list \<Rightarrow> u64 \<Rightarrow> u64 list \<times> u64 option" where
  "loads_loop ctxs [] loads busy = (loads, Some busy)"
| "loads_loop ctxs (i # is) loads busy =
    (case ctxs ! i of None \<Rightarrow> (loads, None)
     | Some x \<Rightarrow> loads_loop ctxs is (loads[i := x]) (busy + (x - loads ! i)))"

text \<open>The state and the request \<open>fp_scale_to\<close>.\<close>

definition flexnic_loadmon :: "nat \<Rightarrow> nat \<Rightarrow> u64 option list \<Rightarrow> u64 \<Rightarrow> nat \<Rightarrow> loadmon \<Rightarrow> loadmon \<times> nat" where
  "flexnic_loadmon cores_max num_cores ctxs tsc scale_to m =
    (case loads_loop ctxs [0..<num_cores] (core_loads m) 0 of
       (loads, None) \<Rightarrow> (m\<lparr>core_loads := loads\<rparr>, scale_to)
     | (loads, Some cyc_busy) \<Rightarrow>
         let m = m\<lparr>core_loads := loads\<rparr> in
         if last_tsc m = 0 then (m\<lparr>last_tsc := tsc\<rparr>, scale_to)
         else
           let cycles = tsc - last_tsc m;
               m = m\<lparr>last_tsc := tsc, ewma_busy := (7 * ewma_busy m + cyc_busy) div 8, ewma_cycles := (7 * ewma_cycles m + cycles) div 8\<rparr>;
               m = (if waiting m then m\<lparr>waiting_n := waiting_n m + 1\<rparr> else m) in
           if waiting m \<and> waiting_n m < 10 then (m, scale_to)
           else
             let id_cyc = of_nat num_cores * ewma_cycles m - ewma_busy m;
                 req = (\<lambda>c. (m\<lparr>waiting := True, waiting_n := 0\<rparr>,
                    case flexnic_scale_to scale_to c of None \<Rightarrow> scale_to | Some st \<Rightarrow> st)) in
             if num_cores > 1 \<and> id_cyc > ewma_cycles m * 5 div 4 then req (num_cores - 1)
             else if num_cores < cores_max \<and> id_cyc < ewma_cycles m div 5 then req (num_cores + 1)
             else (m, scale_to))"

section \<open>The tables agree\<close>

text \<open>With \<open>n\<close> cores: every group belongs to one of them, the steering table says the same as the redirection table,
  and the counters count.\<close>

definition rss_ok :: "nat \<Rightarrow> rss \<Rightarrow> bool" where
  "rss_ok n r \<longleftrightarrow> n \<le> length (rss_core_buckets r) \<and> length (rss_core_buckets r) \<le> 256 \<and> length (reta r) \<le> 4096 \<and>
     (\<forall>x \<in> set (reta r). unat x < n) \<and> flow_group_steering r = map ucast (reta r) \<and>
     (\<forall>c < length (rss_core_buckets r). unat (rss_core_buckets r ! c) = count_list (reta r) (of_nat c))"

lemma core_min_bound: "0 < num \<Longrightarrow> core_min bs num < num"
proof -
  have "fst (fold (\<lambda>i (i_min, v_min). if bs ! i < v_min then (i, bs ! i) else (i_min, v_min)) [0..<k] (0, 255)) < max 1 k" for k
    by (induction k) (auto simp: case_prod_unfold)
  from this [of num] show ?thesis if "0 < num" using that by (simp add: core_min_def)
qed

lemma core_max_spec:
  assumes "0 < num"
  shows "core_max bs num < num \<and> (\<forall>i < num. bs ! i \<le> bs ! core_max bs num)"
proof -
  define F where "F = (\<lambda>i (i_max, v_max). if bs ! i \<ge> v_max then (i, bs ! i) else (i_max :: nat, v_max))"
  have "\<exists>i v. fold F [0..<Suc k] (0, 0) = (i, v) \<and> i < Suc k \<and> v = bs ! i \<and> (\<forall>j < Suc k. bs ! j \<le> v)" for k
  proof (induction k)
    case (Suc k)
    then obtain i v where e: "fold F [0..<Suc k] (0, 0) = (i, v)" "i < Suc k" "v = bs ! i" "\<forall>j < Suc k. bs ! j \<le> v" by blast
    have "fold F [0..<Suc (Suc k)] (0, 0) = F (Suc k) (i, v)"
      unfolding upt_Suc_append [OF le0, of "Suc k"] fold_append comp_apply e(1) by simp
    then show ?case
    proof (cases "bs ! Suc k \<ge> v")
      case True
      then have "fold F [0..<Suc (Suc k)] (0, 0) = (Suc k, bs ! Suc k)"
        using \<open>fold F [0..<Suc (Suc k)] (0, 0) = F (Suc k) (i, v)\<close> by (simp add: F_def)
      moreover have "bs ! j \<le> bs ! Suc k" if "j < Suc (Suc k)" for j
        using that e(4) True by (auto simp: less_Suc_eq intro: order_trans)
      ultimately show ?thesis by blast
    next
      case False
      then have "fold F [0..<Suc (Suc k)] (0, 0) = (i, v)"
        using \<open>fold F [0..<Suc (Suc k)] (0, 0) = F (Suc k) (i, v)\<close> by (simp add: F_def)
      moreover have "bs ! j \<le> v" if "j < Suc (Suc k)" for j
        using that e(4) False by (cases "j = Suc k") auto
      ultimately show ?thesis using e(2,3) by auto
    qed
  qed (simp add: F_def)
  from this [of "num - 1"] show ?thesis using assms by (auto simp: core_max_def F_def)
qed

lemma count_list_update: "k < length xs \<Longrightarrow> count_list (xs[k := y]) x + (if xs ! k = x then 1 else 0) = count_list xs x + (if y = x then 1 else 0)"
proof (induction xs arbitrary: k)
  case (Cons a xs)
  show ?case
  proof (cases k)
    case (Suc k')
    then show ?thesis using Cons.IH [of k'] Cons.prems by (simp split: if_splits)
  qed simp
qed simp

lemma next_index: "k < length rt \<Longrightarrow> (k + 1) mod length rt < length rt"
  by (rule mod_less_divisor) linarith

lemma find_entry_some: "find_entry f rt c k = Some k' \<Longrightarrow> k < length rt \<Longrightarrow> k' < length rt \<and> rt ! k' = of_nat c"
proof (induction f arbitrary: k)
  case (Suc f)
  then show ?case using Suc.IH [OF _ next_index] by (auto split: if_splits)
qed simp

lemma find_entry_all: "find_entry f rt c k = None \<Longrightarrow> i < f \<Longrightarrow> k < length rt \<Longrightarrow> rt ! ((k + i) mod length rt) \<noteq> of_nat c"
proof (induction f arbitrary: k i)
  case (Suc f)
  show ?case
  proof (cases i)
    case (Suc i')
    have "rt ! (((k + 1) mod length rt + i') mod length rt) \<noteq> of_nat c"
      using Suc.IH [OF _ _ next_index, of k i'] Suc.prems \<open>i = Suc i'\<close> by (simp split: if_splits)
    then show ?thesis using Suc by (simp add: mod_add_left_eq)
  qed (use Suc.prems in \<open>auto split: if_splits\<close>)
qed simp

lemma find_entry_found:
  assumes "of_nat c \<in> set rt" "k < length rt"
  shows "\<exists>k'. find_entry (length rt) rt c k = Some k' \<and> k' < length rt \<and> rt ! k' = of_nat c"
proof (cases "find_entry (length rt) rt c k")
  case None
  obtain p where p: "p < length rt" "rt ! p = of_nat c" using assms(1) by (auto simp: in_set_conv_nth)
  define i where "i = (if k \<le> p then p - k else p + length rt - k)"
  have "i < length rt" "(k + i) mod length rt = p" using p(1) assms(2) by (auto simp: i_def)
  then show ?thesis using find_entry_all [OF None, of i] p assms(2) by simp
qed (use find_entry_some assms(2) in blast)

text \<open>Moving a group from its core to another keeps the tables in agreement.\<close>

lemma core_number: "c < 65536 \<Longrightarrow> unat (of_nat c :: u16) = c"
  by (simp add: unat_of_nat)

lemma bucket_move:
  fixes bs :: "u16 list"
  assumes "c < length bs" "j < length bs" "c \<noteq> j" "\<forall>i < length bs. unat (bs ! i) = m i" "0 < m c" "m j < 65535"
    "i < length bs"
  shows "unat ((bs[c := bs ! c - 1, j := bs ! j + 1]) ! i) = m i + (if i = j then 1 else 0) - (if i = c then 1 else 0)"
proof -
  have "unat (bs ! c - 1) = m c - 1" using assms(1,4,5) by (simp add: unat_sub_if' word_le_nat_alt)
  moreover have "unat (bs ! j + 1) = m j + 1" using assms(2,4,6) by (simp add: unat_plus_if')
  ultimately show ?thesis using assms by (auto simp: nth_list_update)
qed

lemma move_group_ok:
  assumes "rss_ok n r" "k < length (reta r)" "reta r ! k = of_nat c" "c < n" "j < n" "c \<noteq> j"
  shows "rss_ok n (move_group k c j r)"
proof -
  let ?bs = "rss_core_buckets r" and ?rt = "reta r"
  let ?r' = "move_group k c j r"
  have n: "n \<le> length ?bs" "length ?bs \<le> 256" "length ?rt \<le> 4096" and rt: "\<forall>x \<in> set ?rt. unat x < n"
    and st: "flow_group_steering r = map ucast ?rt"
    and cnt: "\<forall>c < length ?bs. unat (?bs ! c) = count_list ?rt (of_nat c)"
    using assms(1) by (simp_all add: rss_ok_def)
  have le: "count_list ?rt x \<le> 4096" for x using count_le_length [of ?rt x] n(3) by linarith
  have pos: "0 < count_list ?rt (of_nat c)"
    using assms(2,3) count_list_0_iff [of ?rt "of_nat c"] nth_mem [of k ?rt] by auto
  have eq: "(of_nat i :: u16) = of_nat i' \<longleftrightarrow> i = i'" if "i < 256" "i' < 256" for i i'
  proof -
    have "unat (of_nat i :: u16) = i" "unat (of_nat i' :: u16) = i'" using that by (simp_all add: core_number)
    then show ?thesis by metis
  qed
  have bs': "rss_core_buckets ?r' = ?bs[c := ?bs ! c - 1, j := ?bs ! j + 1]"
    using assms(6) by (simp add: move_group_def Let_def)
  have "unat (rss_core_buckets ?r' ! i) = count_list (reta ?r') (of_nat i)" if i: "i < length ?bs" for i
  proof -
    have "unat (rss_core_buckets ?r' ! i) = count_list ?rt (of_nat i) + (if i = j then 1 else 0) - (if i = c then 1 else 0)"
      unfolding bs' by (rule bucket_move) (use assms n cnt pos le [of "of_nat j"] i in auto)
    moreover have "count_list (reta ?r') (of_nat i) + (if i = c then 1 else 0) = count_list ?rt (of_nat i) + (if i = j then 1 else 0)"
      using count_list_update [OF assms(2), of "of_nat j" "of_nat i"] assms i n eq [of c i] eq [of j i]
      by (auto simp: move_group_def Let_def)
    ultimately show ?thesis using assms(6) by auto
  qed
  moreover have "\<forall>x \<in> set (reta ?r'). unat x < n"
    using rt assms(5) n core_number [of j] by (auto simp: move_group_def Let_def dest!: subsetD [OF set_update_subset_insert])
  moreover have "flow_group_steering ?r' = map ucast (reta ?r')"
  proof -
    have "unat (ucast (of_nat j :: u16) :: u8) = unat (of_nat j :: u8)"
      using assms(5) n by (simp add: unat_of_nat unsigned_ucast_eq take_bit_nat_eq_self)
    then have "ucast (of_nat j :: u16) = (of_nat j :: u8)" by (simp only: word_unat_eq_iff)
    then show ?thesis using st by (simp add: move_group_def Let_def map_update)
  qed
  moreover have "length (rss_core_buckets ?r') = length ?bs" "length (reta ?r') = length ?rt" by (simp_all add: move_group_def Let_def)
  ultimately show ?thesis using n by (simp add: rss_ok_def)
qed


section \<open>Scaling\<close>

lemma rss_ok_mono: "rss_ok n r \<Longrightarrow> n \<le> n' \<Longrightarrow> n' \<le> length (rss_core_buckets r) \<Longrightarrow> rss_ok n' r"
  by (auto simp: rss_ok_def)

lemma move_group_simps [simp]:
  "length (reta (move_group k c j r)) = length (reta r)"
  "length (rss_core_buckets (move_group k c j r)) = length (rss_core_buckets r)"
  "reta (move_group k c j r) = (reta r)[k := of_nat j]"
  by (simp_all add: move_group_def Let_def)

lemma entry_core: "rss_ok n r \<Longrightarrow> k < length (reta r) \<Longrightarrow> unat (reta r ! k) < n"
  by (simp add: rss_ok_def)

lemma rss_ok_small: "rss_ok n r \<Longrightarrow> n \<le> 256"
  by (simp add: rss_ok_def)

lemma scale_down_ok:
  assumes "rss_ok old r" "0 < new" "new \<le> old"
  defines "F \<equiv> \<lambda>i r. let o_c = unat (reta r ! i) in
        if o_c \<ge> new then move_group i o_c (core_min (rss_core_buckets r) new) r else r"
  shows "i \<le> length (reta r) \<Longrightarrow> rss_ok old (fold F [0..<i] r) \<and> length (reta (fold F [0..<i] r)) = length (reta r) \<and>
    (\<forall>k < i. unat (reta (fold F [0..<i] r) ! k) < new) \<and>
    (\<forall>k < length (reta r). i \<le> k \<or> unat (reta r ! k) < new \<longrightarrow> reta (fold F [0..<i] r) ! k = reta r ! k)"
proof (induction i)
  case (Suc i)
  define r' where "r' = fold F [0..<i] r"
  have ih: "rss_ok old r'" "length (reta r') = length (reta r)" "\<forall>k < i. unat (reta r' ! k) < new"
    "\<forall>k < length (reta r). i \<le> k \<or> unat (reta r ! k) < new \<longrightarrow> reta r' ! k = reta r ! k"
    using Suc unfolding r'_def by simp_all
  have f: "fold F [0..<Suc i] r = F i r'" by (simp add: r'_def)
  define m where "m = core_min (rss_core_buckets r') new"
  have m: "m < new" using core_min_bound [OF assms(2)] by (simp add: m_def)
  show ?case
  proof (cases "unat (reta r' ! i) \<ge> new")
    case True
    have i: "i < length (reta r')" using Suc.prems ih(2) by simp
    have e: "F i r' = move_group i (unat (reta r' ! i)) m r'" using True by (simp add: F_def Let_def m_def)
    have "rss_ok old (move_group i (unat (reta r' ! i)) m r')"
      using move_group_ok [OF ih(1) i, of "unat (reta r' ! i)" m] entry_core [OF ih(1) i] m assms(3) True by simp
    moreover have "unat (of_nat m :: u16) = m" using m rss_ok_small [OF ih(1)] assms(3) by (simp add: core_number)
    moreover have "reta r' ! i = reta r ! i" using ih(4) i ih(2) by simp
    ultimately show ?thesis
      unfolding f e using ih m i True by (auto simp: nth_list_update less_Suc_eq)
  next
    case False
    then have "F i r' = r'" by (simp add: F_def Let_def)
    then show ?thesis unfolding f using ih False by (auto simp: less_Suc_eq)
  qed
qed (use assms(1) in simp)

text \<open>Entries of the table that belong to cores from \<open>n\<close> on.\<close>

definition moved :: "nat \<Rightarrow> u16 list \<Rightarrow> nat" where
  "moved n rt = length (filter (\<lambda>x. n \<le> unat x) rt)"

lemma moved_update:
  assumes "k < length rt" "unat (rt ! k) < n" "n \<le> unat y"
  shows "moved n (rt[k := y]) = Suc (moved n rt)"
  using assms
proof (induction rt arbitrary: k)
  case (Cons x rt)
  then show ?case by (cases k) (auto simp: moved_def)
qed simp

lemma old_entry: "moved n rt < length rt \<Longrightarrow> \<exists>x \<in> set rt. unat x < n"
proof (rule ccontr)
  assume "moved n rt < length rt" "\<not> (\<exists>x \<in> set rt. unat x < n)"
  moreover from this(2) have "filter (\<lambda>x. n \<le> unat x) rt = rt" by (auto simp: filter_id_conv not_less)
  ultimately show False by (simp add: moved_def)
qed

lemma scale_up_step:
  assumes ok: "rss_ok new r" and old: "0 < old" "old \<le> j" "j < new" and room: "moved old (reta r) < length (reta r)"
    and k: "k < length (reta r)"
  shows "\<exists>k' c. find_entry (length (reta r)) (reta r) (core_max (rss_core_buckets r) old) k = Some k' \<and>
    k' < length (reta r) \<and> rss_ok new (move_group k' (core_max (rss_core_buckets r) old) j r) \<and>
    unat (reta r ! k') < old"
proof -
  define c where "c = core_max (rss_core_buckets r) old"
  have c: "c < old" "\<forall>i < old. rss_core_buckets r ! i \<le> rss_core_buckets r ! c"
    using core_max_spec [OF old(1), of "rss_core_buckets r"] by (simp_all add: c_def)
  have n: "new \<le> length (rss_core_buckets r)" "new \<le> 256" using ok by (simp_all add: rss_ok_def)
  obtain x where x: "x \<in> set (reta r)" "unat x < old" using old_entry [OF room] by blast
  then have "0 < count_list (reta r) x" using count_list_0_iff [of "reta r" x] by simp
  then have "0 < unat (rss_core_buckets r ! unat x)" using ok x(2) old n by (simp add: rss_ok_def)
  then have "0 < unat (rss_core_buckets r ! c)" using c(2) x(2) by (metis less_le_trans word_le_nat_alt)
  then have "0 < count_list (reta r) (of_nat c)" using ok c(1) old n by (simp add: rss_ok_def)
  then have "of_nat c \<in> set (reta r)" using count_list_0_iff [of "reta r" "of_nat c"] by (metis less_not_refl)
  then obtain k' where k': "find_entry (length (reta r)) (reta r) c k = Some k'" "k' < length (reta r)" "reta r ! k' = of_nat c"
    using find_entry_found [OF _ k] by blast
  have "rss_ok new (move_group k' c j r)" using move_group_ok [OF ok k'(2,3)] c(1) old by simp
  moreover have "unat (reta r ! k') < old" using k'(3) c(1) n old core_number [of c] by simp
  ultimately show ?thesis using k' by (auto simp: c_def)
qed


lemma scale_up_loop_ok:
  assumes "rss_ok new r" "0 < old" "\<forall>j \<in> set js. old \<le> j \<and> j < new" "moved old (reta r) + length js \<le> length (reta r)"
    "k < length (reta r)"
  shows "\<exists>r'. scale_up_loop old js r k = Inr r' \<and> rss_ok new r' \<and> length (reta r') = length (reta r) \<and>
    (\<forall>j. old \<le> j \<and> j < new \<longrightarrow> count_list (reta r') (of_nat j) = count_list (reta r) (of_nat j) + count_list js j) \<and>
    (\<forall>i < length (reta r). old \<le> unat (reta r ! i) \<longrightarrow> reta r' ! i = reta r ! i)"
  using assms
proof (induction js arbitrary: r k)
  case (Cons j js)
  define c where "c = core_max (rss_core_buckets r) old"
  have j: "old \<le> j" "j < new" "new \<le> 256" using Cons.prems(1,3) rss_ok_small by auto
  have "moved old (reta r) < length (reta r)" using Cons.prems(4) by simp
  from scale_up_step [OF Cons.prems(1,2) j(1,2) this Cons.prems(5)] obtain k' where
    k': "find_entry (length (reta r)) (reta r) c k = Some k'" "k' < length (reta r)" "unat (reta r ! k') < old"
      "rss_ok new (move_group k' c j r)"
    by (auto simp: c_def)
  define r1 where "r1 = move_group k' c j r"
  have jn: "unat (of_nat j :: u16) = j" using j core_number [of j] by simp
  have rt: "reta r1 = (reta r)[k' := of_nat j]" by (simp add: r1_def)
  have m: "moved old (reta r1) = Suc (moved old (reta r))"
    unfolding rt using moved_update [OF k'(2,3)] jn j(1) by simp
  have "moved old (reta r1) + length js \<le> length (reta r1)" "k' < length (reta r1)"
    using m Cons.prems(4) k'(2) by (simp_all add: rt)
  then obtain r' where r': "scale_up_loop old js r1 k' = Inr r'" "rss_ok new r'" "length (reta r') = length (reta r1)"
    "\<forall>i. old \<le> i \<and> i < new \<longrightarrow> count_list (reta r') (of_nat i) = count_list (reta r1) (of_nat i) + count_list js i"
    "\<forall>i < length (reta r1). old \<le> unat (reta r1 ! i) \<longrightarrow> reta r' ! i = reta r1 ! i"
    using Cons.IH [of r1 k'] k'(4) Cons.prems(2,3) by (auto simp: r1_def)
  have "count_list (reta r1) (of_nat i) = count_list (reta r) (of_nat i) + (if i = j then 1 else 0)"
    if "old \<le> i" "i < new" for i
  proof -
    have n: "unat (of_nat i :: u16) = i" using that j core_number [of i] by simp
    then have "reta r ! k' \<noteq> of_nat i" using k'(3) that(1) by auto
    moreover have "(of_nat j :: u16) = of_nat i \<longleftrightarrow> i = j" using n jn by metis
    ultimately show ?thesis using count_list_update [OF k'(2), of "of_nat j" "of_nat i"] by (simp add: rt)
  qed
  then have "\<forall>i. old \<le> i \<and> i < new \<longrightarrow> count_list (reta r') (of_nat i) = count_list (reta r) (of_nat i) + count_list (j # js) i"
    using r'(4) by auto
  moreover have "reta r' ! i = reta r ! i" if i: "i < length (reta r)" "old \<le> unat (reta r ! i)" for i
  proof -
    have "i \<noteq> k'" using i(2) k'(3) by auto
    then have "reta r1 ! i = reta r ! i" by (simp add: rt)
    then show ?thesis using r'(5) i by (simp add: rt)
  qed
  ultimately show ?case
    using r'(1-3) k'(1) by (intro exI [of _ r']) (simp add: c_def [symmetric] r1_def [symmetric] rt)
qed simp

lemma count_shares: "old \<le> j \<Longrightarrow> j < new \<Longrightarrow> count_list (concat (map (\<lambda>j. replicate n j) [old..<new])) j = n"
proof (induction new)
  case (Suc new)
  have z: "count_list (concat (map (\<lambda>j. replicate n j) [old..<new])) new = 0"
    by (subst count_list_0_iff) auto
  have r: "count_list (replicate n x) y = (if x = y then n else 0)" for x y :: nat by (induction n) auto
  show ?case
  proof (cases "j = new")
    case True
    then show ?thesis using Suc.prems z r by (simp add: count_list_append)
  next
    case False
    then show ?thesis using Suc r by (simp add: count_list_append)
  qed
qed simp

lemma scale_up_ok:
  assumes "rss_ok old r" "0 < old" "old \<le> new" "new \<le> length (rss_core_buckets r)" "reta r \<noteq> []"
  shows "\<exists>r'. network_scale_up dev_ok old new r = Inr (r', if dev_ok then 0 else -1) \<and> rss_ok new r' \<and>
    length (reta r') = length (reta r) \<and>
    (\<forall>j. old \<le> j \<and> j < new \<longrightarrow> count_list (reta r') (of_nat j) = length (reta r) div new)"
proof -
  define js where "js = concat (map (\<lambda>j. replicate (length (reta r) div new) j) [old..<new])"
  have n: "new \<le> 256" using assms(1,4) by (simp add: rss_ok_def)
  have ok: "rss_ok new r" using rss_ok_mono assms by blast
  have m: "moved old (reta r) = 0" using assms(1) by (auto simp: moved_def rss_ok_def filter_empty_conv)
  have "length js = (new - old) * (length (reta r) div new)" by (simp add: js_def length_concat comp_def sum_list_triv)
  also have "\<dots> \<le> new * (length (reta r) div new)" by simp
  also have "\<dots> \<le> length (reta r)" by simp
  finally have l: "moved old (reta r) + length js \<le> length (reta r)" using m by simp
  have "\<forall>j \<in> set js. old \<le> j \<and> j < new" by (auto simp: js_def)
  from scale_up_loop_ok [OF ok assms(2) this l, of 0] assms(5) obtain r' where
    r': "scale_up_loop old js r 0 = Inr r'" "rss_ok new r'" "length (reta r') = length (reta r)"
      "\<forall>j. old \<le> j \<and> j < new \<longrightarrow> count_list (reta r') (of_nat j) = count_list (reta r) (of_nat j) + count_list js j"
    by auto
  have "count_list (reta r) (of_nat j) = 0" if "old \<le> j" "j < new" for j
    using assms(1) that n core_number [of j] by (subst count_list_0_iff) (auto simp: rss_ok_def)
  then have "\<forall>j. old \<le> j \<and> j < new \<longrightarrow> count_list (reta r') (of_nat j) = length (reta r) div new"
    using r'(4) count_shares by (simp add: js_def)
  then show ?thesis using r' by (simp add: network_scale_up_def Let_def js_def [symmetric])
qed


lemma reta_setup_ok:
  assumes "0 < cur" "cur \<le> cores_max" "cores_max \<le> 256" "n \<le> 4096"
  shows "rss_ok cur (reta_setup n cores_max cur) \<and> length (reta (reta_setup n cores_max cur)) = n \<and>
    length (rss_core_buckets (reta_setup n cores_max cur)) = cores_max"
proof -
  define F where "F = (\<lambda>i (r :: rss). let c = i mod cur in
        r\<lparr>rss_core_buckets := (rss_core_buckets r)[c := rss_core_buckets r ! c + 1],
          reta := (reta r)[i := of_nat c], flow_group_steering := (flow_group_steering r)[i := of_nat c]\<rparr>)"
  define r0 where "r0 = \<lparr>reta = replicate n 0, rss_core_buckets = replicate cores_max 0, flow_group_steering = replicate n 0\<rparr>"
  have "i \<le> n \<Longrightarrow> length (reta (fold F [0..<i] r0)) = n \<and> length (rss_core_buckets (fold F [0..<i] r0)) = cores_max \<and>
      flow_group_steering (fold F [0..<i] r0) = map ucast (reta (fold F [0..<i] r0)) \<and>
      (\<forall>k < i. unat (reta (fold F [0..<i] r0) ! k) < cur) \<and>
      (\<forall>c < cores_max. unat (rss_core_buckets (fold F [0..<i] r0) ! c) = count_list (take i (reta (fold F [0..<i] r0))) (of_nat c))" for i
  proof (induction i)
    case (Suc i)
    define r where "r = fold F [0..<i] r0"
    have ih: "length (reta r) = n" "length (rss_core_buckets r) = cores_max" "flow_group_steering r = map ucast (reta r)"
      "\<forall>k < i. unat (reta r ! k) < cur" "\<forall>c < cores_max. unat (rss_core_buckets r ! c) = count_list (take i (reta r)) (of_nat c)"
      using Suc unfolding r_def by simp_all
    define c where "c = i mod cur"
    have c: "c < cur" "c < 256" using assms by (simp_all add: c_def less_le_trans [OF mod_less_divisor])
    have cn: "unat (of_nat c :: u16) = c" using c by (simp add: core_number)
    have fs: "fold F [0..<Suc i] r0 = r\<lparr>rss_core_buckets := (rss_core_buckets r)[c := rss_core_buckets r ! c + 1],
          reta := (reta r)[i := of_nat c], flow_group_steering := (flow_group_steering r)[i := of_nat c]\<rparr>"
      by (simp add: r_def F_def c_def Let_def)
    have t: "take (Suc i) ((reta r)[i := of_nat c]) = take i (reta r) @ [of_nat c]"
      using Suc.prems ih(1) by (simp add: take_Suc_conv_app_nth)
    have u: "(ucast (of_nat c :: u16) :: u8) = of_nat c"
    proof -
      have "unat (ucast (of_nat c :: u16) :: u8) = unat (of_nat c :: u8)"
        using c by (simp add: unat_of_nat unsigned_ucast_eq take_bit_nat_eq_self)
      then show ?thesis by (simp only: word_unat_eq_iff)
    qed
    have small: "count_list (take i (reta r)) x < 65535" for x
      using count_le_length [of "take i (reta r)" x] Suc.prems assms(4) by simp
    have b: "unat (((rss_core_buckets r)[c := rss_core_buckets r ! c + 1]) ! d) = count_list (take i (reta r) @ [of_nat c]) (of_nat d)"
      if d: "d < cores_max" for d
    proof (cases "d = c")
      case True
      then show ?thesis using ih(2,5) d small by (simp add: unat_plus_if' count_list_append)
    next
      case False
      have "unat (of_nat d :: u16) = d" using d assms(3) by (simp add: core_number)
      then have "(of_nat c :: u16) \<noteq> of_nat d" using cn False by metis
      then show ?thesis using ih(5) d False by (simp add: count_list_append)
    qed
    show ?case
      unfolding fs using ih c cn t u b Suc.prems by (auto simp: map_update less_Suc_eq nth_list_update)
  qed (simp add: r0_def)
  from this [of n] show ?thesis
    using assms by (auto simp: rss_ok_def reta_setup_def F_def r0_def in_set_conv_nth Let_def)
qed

text \<open>
  C27: processing a scaling request always ends with tables that agree.  Scaling down moves only the flow groups of the
  cores that go away; scaling up terminates although it searches the table in an unbounded loop, and gives every new
  core its share of the groups.
\<close>

theorem poll_scale_keeps_tables:
  assumes "rss_ok cur r" "0 < cur" "st \<le> length (rss_core_buckets r)" "reta r \<noteq> []"
  shows "\<exists>r'. poll_scale True cur st r = Inr (if st = 0 then cur else st, 0, r') \<and> rss_ok (if st = 0 then cur else st) r' \<and>
    (0 < st \<and> st < cur \<longrightarrow> (\<forall>k < length (reta r). unat (reta r ! k) < st \<longrightarrow> reta r' ! k = reta r ! k)) \<and>
    (cur < st \<longrightarrow> (\<forall>j. cur \<le> j \<and> j < st \<longrightarrow> count_list (reta r') (of_nat j) = length (reta r) div st))"
proof -
  consider "st = 0" | "0 < st" "st < cur" | "cur < st" | "st = cur" "st \<noteq> 0" by linarith
  then show ?thesis
  proof cases
    case 2
    define r' where "r' = fst (network_scale_down True cur st r)"
    have d: "rss_ok cur r'" "length (reta r') = length (reta r)" "\<forall>k < length (reta r). unat (reta r' ! k) < st"
      "\<forall>k < length (reta r). unat (reta r ! k) < st \<longrightarrow> reta r' ! k = reta r ! k"
      using scale_down_ok [OF assms(1) 2(1), of "length (reta r)"] 2(2)
      by (simp_all add: r'_def network_scale_down_def)
    have "rss_ok st r'" using d 2(2) by (auto simp: rss_ok_def in_set_conv_nth)
    moreover have "poll_scale True cur st r = Inr (st, 0, r')"
      using 2 by (simp add: poll_scale_def r'_def network_scale_down_def)
    ultimately show ?thesis using 2 d(4) by auto
  next
    case 3
    then show ?thesis using scale_up_ok [OF assms(1,2), of st True] assms(3,4) by (auto simp: poll_scale_def)
  qed (use assms(1) in \<open>auto simp: poll_scale_def\<close>)
qed

theorem poll_scale_keeps_tables_witness:
  "\<exists>r'. poll_scale True 1 2 (reta_setup 128 2 1) = Inr (2, 0, r') \<and> rss_ok 2 r' \<and> count_list (reta r') 1 = 64"
proof -
  have s: "rss_ok 1 (reta_setup 128 2 1)" "length (reta (reta_setup 128 2 1)) = 128" "length (rss_core_buckets (reta_setup 128 2 1)) = 2"
    using reta_setup_ok [of 1 2 128] by simp_all
  then have "reta (reta_setup 128 2 1) \<noteq> []" by auto
  with poll_scale_keeps_tables [OF s(1), of 2] s(2,3) obtain r' where
    r': "poll_scale True 1 2 (reta_setup 128 2 1) = Inr (2, 0, r')" "rss_ok 2 r'"
      "\<forall>j. 1 \<le> j \<and> j < 2 \<longrightarrow> count_list (reta r') (of_nat j) = 64" by auto
  from r'(3) have "count_list (reta r') (of_nat 1) = 64" by (rule allE [of _ 1]) simp
  then show ?thesis using r'(1,2) by auto
qed


section \<open>The load monitor\<close>

text \<open>
  C28: the idle cycles are an unsigned difference.  When the measured busy cycles exceed the cycles of all cores (a fully
  loaded fast path whose cores report a long iteration only at its end), the difference wraps to an enormous idle time
  and the monitor asks for one core less instead of one more.
\<close>

theorem loadmon_scales_down_overloaded:
  assumes "flexnic_loadmon cores_max num_cores ctxs tsc 0 m = (m', st)" "\<forall>i < num_cores. ctxs ! i \<noteq> None" "last_tsc m \<noteq> 0"
    "waiting m \<longrightarrow> 9 \<le> waiting_n m" "1 < num_cores" "num_cores * unat (ewma_cycles m') < unat (ewma_busy m')"
    "unat (ewma_busy m') < 2 ^ 60"
  shows "st = num_cores - 1"
proof -
  have all: "\<forall>i \<in> set is. ctxs ! i \<noteq> None \<Longrightarrow> \<exists>b. snd (loads_loop ctxs is l c) = Some b" for "is" l c
    by (induction "is" arbitrary: l c) auto
  obtain loads b where l: "loads_loop ctxs [0..<num_cores] (core_loads m) 0 = (loads, Some b)"
    using all [of "[0..<num_cores]" "core_loads m" 0] assms(2) by (cases "loads_loop ctxs [0..<num_cores] (core_loads m) 0") auto
  define y e where "y = (7 * ewma_cycles m + (tsc - last_tsc m)) div 8" and "e = (7 * ewma_busy m + b) div 8"
  have m': "ewma_cycles m' = y" "ewma_busy m' = e"
    and st: "st = (if of_nat num_cores * y - e > y * 5 div 4 then num_cores - 1
       else if num_cores < cores_max \<and> of_nat num_cores * y - e < y div 5 then num_cores + 1 else 0)"
    using assms(1,3,4,5) l
    by (auto simp: flexnic_loadmon_def Let_def y_def e_def flexnic_scale_to_def split: if_splits)
  define Y E where "Y = unat y" and "E = unat e"
  have YE: "num_cores * Y < E" "E < 1152921504606846976" "2 * Y \<le> num_cores * Y"
    using assms(5-7) unfolding m' by (simp_all add: Y_def E_def)
  have nY: "unat (of_nat num_cores * y) = num_cores * Y"
  proof -
    have p: "(of_nat num_cores :: u64) * y = of_nat (num_cores * Y)" by (simp add: Y_def)
    have "num_cores * Y < 18446744073709551616" using YE(1,2) by linarith
    then show ?thesis unfolding p by (simp add: unat_of_nat del: of_nat_mult)
  qed
  have "unat (of_nat num_cores * y - e) = 18446744073709551616 + num_cores * Y - E"
    using YE nY unfolding unat_sub_if' by (simp add: E_def word_le_nat_alt)
  moreover have "unat (y * 5 div 4) = Y * 5 div 4"
  proof -
    have "Y * 5 < 18446744073709551616" using YE by linarith
    then have "unat (y * 5) = Y * 5" unfolding Y_def by (simp only: unat_word_ariths) simp
    then show ?thesis by (simp add: unat_div)
  qed
  moreover have "Y * 5 div 4 < 18446744073709551616 + num_cores * Y - E"
  proof -
    have "Y * 5 div 4 \<le> 5 * E" using YE by linarith
    then show ?thesis using YE by linarith
  qed
  ultimately have "of_nat num_cores * y - e > y * 5 div 4" by (simp add: word_less_nat_alt)
  then show ?thesis using st by simp
qed

definition ex_loadmon :: loadmon where
  "ex_loadmon = \<lparr>ewma_busy = 2000, ewma_cycles = 1000, last_tsc = 5000, waiting = True, waiting_n = 20, core_loads = [0, 0]\<rparr>"

theorem loadmon_scales_down_overloaded_witness:
  "snd (flexnic_loadmon 8 2 [Some 1000, Some 1016] 6000 0 ex_loadmon) = 1"
proof -
  obtain m' st where r: "flexnic_loadmon 8 2 [Some 1000, Some 1016] 6000 0 ex_loadmon = (m', st)" by fastforce
  have "m' = fst (flexnic_loadmon 8 2 [Some 1000, Some 1016] 6000 0 ex_loadmon)" by (simp add: r)
  moreover have "ewma_cycles (fst (flexnic_loadmon 8 2 [Some 1000, Some 1016] 6000 0 ex_loadmon)) = 1000 \<and>
      ewma_busy (fst (flexnic_loadmon 8 2 [Some 1000, Some 1016] 6000 0 ex_loadmon)) = 2002"
    by code_simp
  ultimately have m': "unat (ewma_cycles m') = 1000" "unat (ewma_busy m') = 2002" by simp_all
  have l: "last_tsc ex_loadmon \<noteq> 0" "waiting ex_loadmon \<longrightarrow> 9 \<le> waiting_n ex_loadmon" by (simp_all add: ex_loadmon_def)
  have "\<forall>i < 2. [Some (1000::u64), Some 1016] ! i \<noteq> None" by (simp add: less_2_cases_iff)
  from loadmon_scales_down_overloaded [OF r this l] m' have "st = 1" by simp
  then show ?thesis by (simp add: r)
qed

end
