(* ===== verification/Timeouts.thy ===== *)
theory Timeouts
  imports Prelude "HOL-Library.While_Combinator"
begin

unbundle bit_operations_syntax

text \<open>
  Timeouts of the kernel (utils/timeout.c, include/utils_timeout.h): the manager with its two doubly linked lists, one
  of the pending timeouts in the order of their deadlines and one of the timeouts that are due, on time stamps of 28 bits.

  A timeout object is known by its address, a natural number; \<open>None\<close> is the null pointer.  The manager holds the objects
  themselves, since every function of the module reads them through it.
\<close>

record timeout =
  timeout_type :: u32
  t_next :: "nat option"
  t_prev :: "nat option"

record tmgr =
  timeouts_first :: "nat option"
  timeouts_last :: "nat option"
  due_first :: "nat option"
  due_last :: "nat option"
  timeout_objs :: "nat \<Rightarrow> timeout"

abbreviation TIMEOUT_BITS :: nat where "TIMEOUT_BITS \<equiv> 28"
abbreviation TIMEOUT_MASK :: u32 where "TIMEOUT_MASK \<equiv> 0xFFFFFFF"
abbreviation TIMEOUT_MIDDLE :: u32 where "TIMEOUT_MIDDLE \<equiv> 0x8000000"
abbreviation MAX_TIMEOUTS :: nat where "MAX_TIMEOUTS \<equiv> 64"

section \<open>Operations\<close>

definition upd_to :: "nat \<Rightarrow> (timeout \<Rightarrow> timeout) \<Rightarrow> 'a tmgr_scheme \<Rightarrow> 'a tmgr_scheme" where
  "upd_to i f m = m\<lparr>timeout_objs := (timeout_objs m)(i := f (timeout_objs m i))\<rparr>"

text \<open>\<open>while\<close> loops through the lists: \<open>Diverge\<close> when the loop does not end.\<close>

definition while_res :: "('s \<Rightarrow> bool) \<Rightarrow> ('s \<Rightarrow> 's) \<Rightarrow> 's \<Rightarrow> 's res" where
  "while_res b c s = (case while_option b c s of None \<Rightarrow> Inl Diverge | Some s \<Rightarrow> Inr s)"

lemma while_res_unfold: "while_res b c s = (if b s then while_res b c (c s) else Inr s)"
  by (auto simp: while_res_def while_option_unfold [of b c s])

lemma while_res_stop: "\<not> b s \<Longrightarrow> while_res b c s = Inr s"
  by (simp add: while_res_unfold [of b c s])

text \<open>\<open>rel_time\<close>: the bits of the \<open>int32_t\<close> it returns, for the time stamp \<open>to_ts\<close> of the timeout.\<close>

definition to_rel_time :: "u32 \<Rightarrow> u32 \<Rightarrow> u32" where
  "to_rel_time cur_ts to_ts =
    (if cur_ts < TIMEOUT_MIDDLE then
       let start = (cur_ts - TIMEOUT_MIDDLE) AND TIMEOUT_MASK; end_ts = 0x10000000 in
       if start \<le> to_ts \<and> to_ts < end_ts then to_ts - start - TIMEOUT_MIDDLE else to_ts - cur_ts
     else if cur_ts = TIMEOUT_MIDDLE then to_ts - cur_ts
     else
       let start = 0; end_ts = ((cur_ts + TIMEOUT_MIDDLE) AND TIMEOUT_MASK) + 1 in
       if start \<le> cur_ts \<and> to_ts < end_ts then to_ts + (0x10000000 - cur_ts) else to_ts - cur_ts)"

abbreviation to_ts_of :: "'a tmgr_scheme \<Rightarrow> nat \<Rightarrow> u32" where
  "to_ts_of m i \<equiv> timeout_type (timeout_objs m i) AND TIMEOUT_MASK"

definition timeout_due :: "'a tmgr_scheme \<Rightarrow> nat \<Rightarrow> u32 \<Rightarrow> bool" where
  "timeout_due m i ts \<longleftrightarrow> sint (to_rel_time ts (to_ts_of m i)) \<le> 0"

text \<open>One iteration of \<open>move_due_timeouts\<close>: the first pending timeout goes to the end of the due list.\<close>

definition move_first :: "'a tmgr_scheme \<Rightarrow> 'a tmgr_scheme" where
  "move_first m =
    (case timeouts_first m of None \<Rightarrow> m
     | Some i \<Rightarrow>
         let next = t_next (timeout_objs m i);
             m = m\<lparr>timeouts_first := next\<rparr>;
             m = (case next of Some n \<Rightarrow> upd_to n (\<lambda>t. t\<lparr>t_prev := None\<rparr>) m | None \<Rightarrow> m\<lparr>timeouts_last := None\<rparr>);
             m = upd_to i (\<lambda>t. t\<lparr>t_next := None, t_prev := due_last m\<rparr>) m;
             m = (case due_last m of None \<Rightarrow> m\<lparr>due_first := Some i\<rparr> | Some l \<Rightarrow> upd_to l (\<lambda>t. t\<lparr>t_next := Some i\<rparr>) m) in
         m\<lparr>due_last := Some i\<rparr>)"

definition move_due_timeouts :: "'a tmgr_scheme \<Rightarrow> u32 \<Rightarrow> 'a tmgr_scheme res" where
  "move_due_timeouts m cur_ts =
    while_res (\<lambda>m. case timeouts_first m of None \<Rightarrow> False | Some i \<Rightarrow> timeout_due m i cur_ts) move_first m"

definition util_timeout_arm_ts :: "'a tmgr_scheme \<Rightarrow> nat \<Rightarrow> u32 \<Rightarrow> u8 \<Rightarrow> u32 \<Rightarrow> 'a tmgr_scheme res" where
  "util_timeout_arm_ts m i us type cur_ts =
    (if us \<ge> TIMEOUT_MIDDLE then Inl Abort
     else
       bind_res (move_due_timeouts m cur_ts) (\<lambda>m.
       bind_res (while_res (\<lambda>tp. case tp of None \<Rightarrow> False | Some p \<Rightarrow> to_rel_time cur_ts (to_ts_of m p) > us)
           (\<lambda>tp. case tp of None \<Rightarrow> None | Some p \<Rightarrow> t_prev (timeout_objs m p)) (timeouts_last m)) (\<lambda>tp.
         let tn = (case tp of Some p \<Rightarrow> t_next (timeout_objs m p) | None \<Rightarrow> timeouts_first m);
             m = upd_to i (\<lambda>t. \<lparr>timeout_type = push_bit TIMEOUT_BITS (ucast type) OR ((cur_ts + us) AND TIMEOUT_MASK),
                   t_next = tn, t_prev = tp\<rparr>) m;
             m = (case tp of None \<Rightarrow> m\<lparr>timeouts_first := Some i\<rparr> | Some p \<Rightarrow> upd_to p (\<lambda>t. t\<lparr>t_next := Some i\<rparr>) m);
             m = (case tn of None \<Rightarrow> m\<lparr>timeouts_last := Some i\<rparr> | Some n \<Rightarrow> upd_to n (\<lambda>t. t\<lparr>t_prev := Some i\<rparr>) m) in
         Inr m)))"

definition util_timeout_disarm :: "'a tmgr_scheme \<Rightarrow> nat \<Rightarrow> 'a tmgr_scheme res" where
  "util_timeout_disarm m i =
    (let prev = t_prev (timeout_objs m i); next = t_next (timeout_objs m i) in
     bind_res
       (case prev of
          None \<Rightarrow> if timeouts_first m = Some i then Inr (m\<lparr>timeouts_first := next\<rparr>)
                 else if due_first m = Some i then Inr (m\<lparr>due_first := next\<rparr>)
                 else Inl Abort
        | Some p \<Rightarrow> Inr (upd_to p (\<lambda>t. t\<lparr>t_next := next\<rparr>) m)) (\<lambda>m.
       case next of
         None \<Rightarrow> if timeouts_last m = Some i then Inr (m\<lparr>timeouts_last := prev\<rparr>)
                else if due_last m = Some i then Inr (m\<lparr>due_last := prev\<rparr>)
                else Inl Abort
       | Some n \<Rightarrow> Inr (upd_to n (\<lambda>t. t\<lparr>t_prev := prev\<rparr>) m)))"

text \<open>The loop of \<open>util_timeout_poll_ts\<close>, at most \<open>n\<close> times; \<open>h\<close> is the client's handler.\<close>

fun fire_due :: "(nat \<Rightarrow> u8 \<Rightarrow> 'a tmgr_scheme \<Rightarrow> 'a tmgr_scheme res) \<Rightarrow> nat \<Rightarrow> 'a tmgr_scheme \<Rightarrow> 'a tmgr_scheme res" where
  "fire_due h 0 m = Inr m"
| "fire_due h (Suc n) m =
    (case due_first m of None \<Rightarrow> Inr m
     | Some i \<Rightarrow>
         let m = m\<lparr>due_first := t_next (timeout_objs m i)\<rparr>;
             m = (case due_first m of Some f \<Rightarrow> upd_to f (\<lambda>t. t\<lparr>t_prev := None\<rparr>) m | None \<Rightarrow> m\<lparr>due_last := None\<rparr>) in
         bind_res (h i (ucast (drop_bit TIMEOUT_BITS (timeout_type (timeout_objs m i)))) m) (\<lambda>m. fire_due h n m))"

definition util_timeout_poll_ts :: "(nat \<Rightarrow> u8 \<Rightarrow> 'a tmgr_scheme \<Rightarrow> 'a tmgr_scheme res) \<Rightarrow> 'a tmgr_scheme \<Rightarrow> u32 \<Rightarrow> 'a tmgr_scheme res" where
  "util_timeout_poll_ts h m cur_ts = bind_res (move_due_timeouts m cur_ts) (fire_due h MAX_TIMEOUTS)"

definition util_timeout_next :: "'a tmgr_scheme \<Rightarrow> u32 \<Rightarrow> u32" where
  "util_timeout_next m cur_ts =
    (if due_first m \<noteq> None then 0
     else case timeouts_first m of None \<Rightarrow> - 1
       | Some i \<Rightarrow> let next = to_rel_time cur_ts (to_ts_of m i) in if sint next < 0 then 0 else next)"

section \<open>Time stamps\<close>

text \<open>The time stamp of the real time \<open>t\<close>, and the distance of two stamps less than \<open>2^27\<close> microseconds apart.\<close>

definition stamp :: "nat \<Rightarrow> u32" where
  "stamp t = of_nat (t mod 268435456)"

lemma unat_stamp: "unat (stamp t) = t mod 268435456"
proof -
  have "t mod 268435456 < 268435456" by simp
  then have "t mod 268435456 < 4294967296" by linarith
  then show ?thesis unfolding stamp_def by (simp only: unat_of_nat) simp
qed

lemma mask28: "unat ((x :: u32) AND TIMEOUT_MASK) = unat x mod 268435456"
proof -
  have "TIMEOUT_MASK = mask 28" by (simp add: mask_eq_exp_minus_1)
  then have "x AND TIMEOUT_MASK = take_bit 28 x" by (simp only: take_bit_eq_mask)
  then have "unat (x AND TIMEOUT_MASK) = take_bit 28 (unat x)" by (simp only: unsigned_take_bit_eq)
  then show ?thesis by (simp add: take_bit_eq_mod)
qed

lemma stamp_and [simp]: "stamp t AND TIMEOUT_MASK = stamp t"
  unfolding word_unat_eq_iff mask28 unat_stamp by simp

lemma stamp_add: "us < TIMEOUT_MIDDLE \<Longrightarrow> (stamp t + us) AND TIMEOUT_MASK = stamp (t + unat us)"
proof -
  assume us: "us < TIMEOUT_MIDDLE"
  have "unat us < 134217728" using us by (simp add: word_less_nat_alt)
  moreover have "t mod 268435456 < 268435456" by simp
  ultimately have "t mod 268435456 + unat us < 4294967296" by linarith
  then have "unat (stamp t + us) = t mod 268435456 + unat us" by (simp add: u32_nat unat_stamp)
  then show ?thesis unfolding word_unat_eq_iff mask28 by (simp add: unat_stamp mod_add_left_eq)
qed

lemma of_int_u32_eq: "(of_int i :: u32) = of_int j \<longleftrightarrow> i mod 4294967296 = j mod 4294967296"
  by (simp add: word_of_int_eq_iff take_bit_eq_mod)

lemma to_rel_time_int:
  assumes "d < cur + 134217728" "cur < d + 134217728"
  shows "to_rel_time (stamp cur) (stamp d) = of_int (int d - int cur)"
proof -
  define a b where "a = cur mod 268435456" and "b = d mod 268435456"
  have ab: "a < 268435456" "b < 268435456" by (simp_all add: a_def b_def)
  have s: "unat (stamp cur) = a" "unat (stamp d) = b" by (simp_all add: a_def b_def unat_stamp)
  have e: "stamp cur = of_int (int a)" "stamp d = of_int (int b)" by (simp_all add: a_def b_def stamp_def)
  obtain qa qb where q: "cur = a + 268435456 * qa" "d = b + 268435456 * qb"
    using mod_mult_div_eq [of cur 268435456] mod_mult_div_eq [of d 268435456] by (metis a_def b_def)
  consider "qa = qb" | "qb = qa + 1" | "qa = qb + 1" using assms q ab by linarith
  then have c: "int b - int a = int d - int cur \<or> int b - int a + 268435456 = int d - int cur \<and> b < a \<or>
      int b - int a - 268435456 = int d - int cur \<and> a < b"
    using q ab assms by cases (auto simp: algebra_simps)
  have r: "to_rel_time (stamp cur) (stamp d) = of_int (if a < 134217728 \<and> a + 134217728 \<le> b then int b - int a - 268435456
      else if 134217728 < a \<and> b < a - 134217728 + 1 then int b - int a + 268435456 else int b - int a)"
  proof -
    consider "a < 134217728" | "a = 134217728" | "134217728 < a" by linarith
    then show ?thesis
    proof cases
      case 1
      have "unat (stamp cur - TIMEOUT_MIDDLE) = a + 4160749568" using 1 by (simp add: u32_nat s)
      then have u: "unat ((stamp cur - TIMEOUT_MIDDLE) AND TIMEOUT_MASK) = a + 134217728"
      proof -
        have "(a + 134217728 + 15 * 268435456) mod 268435456 = a + 134217728" using 1 unfolding mod_mult_self1 by simp
        moreover have "a + 4160749568 = a + 134217728 + 15 * 268435456" by simp
        ultimately show ?thesis unfolding mask28 \<open>unat (stamp cur - TIMEOUT_MIDDLE) = _\<close> by metis
      qed
      have st: "(stamp cur - TIMEOUT_MIDDLE) AND TIMEOUT_MASK = stamp cur + TIMEOUT_MIDDLE"
        unfolding word_unat_eq_iff u using 1 by (simp add: u32_nat s)
      have "stamp cur < TIMEOUT_MIDDLE" using 1 by (simp add: word_less_nat_alt s)
      moreover have "stamp cur + TIMEOUT_MIDDLE \<le> stamp d \<longleftrightarrow> a + 134217728 \<le> b"
        using 1 by (simp add: u32_nat s)
      moreover have "stamp d < 0x10000000" using ab by (simp add: word_less_nat_alt s)
      ultimately show ?thesis using 1 unfolding to_rel_time_def st by (simp add: e Let_def)
    next
      case 2
      then have "stamp cur = TIMEOUT_MIDDLE" by (simp add: word_unat_eq_iff s)
      then show ?thesis using 2 unfolding to_rel_time_def by (simp add: e)
    next
      case 3
      have "unat (stamp cur + TIMEOUT_MIDDLE) = a + 134217728" using 3 ab by (simp add: u32_nat s)
      then have u: "unat ((stamp cur + TIMEOUT_MIDDLE) AND TIMEOUT_MASK) = a - 134217728"
        unfolding mask28 using 3 ab by (simp add: mod_if)
      then have "unat (((stamp cur + TIMEOUT_MIDDLE) AND TIMEOUT_MASK) + 1) = a - 134217728 + 1"
        using 3 ab by (simp add: u32_nat)
      then have "stamp d < ((stamp cur + TIMEOUT_MIDDLE) AND TIMEOUT_MASK) + 1 \<longleftrightarrow> b < a - 134217728 + 1"
        by (simp only: word_less_nat_alt s)
      moreover have "\<not> stamp cur < TIMEOUT_MIDDLE" "stamp cur \<noteq> TIMEOUT_MIDDLE"
        using 3 by (simp_all add: word_less_nat_alt word_unat_eq_iff s)
      ultimately show ?thesis using 3 unfolding to_rel_time_def by (simp add: e Let_def)
    qed
  qed
  moreover have "(if a < 134217728 \<and> a + 134217728 \<le> b then int b - int a - 268435456
      else if 134217728 < a \<and> b < a - 134217728 + 1 then int b - int a + 268435456 else int b - int a) = int d - int cur"
  proof -
    have z: "int d < int cur + 134217728" "int cur < int d + 134217728" using assms by linarith+
    from c show ?thesis
    proof (elim disjE conjE)
      assume e: "int b - int a = int d - int cur"
      then have n: "\<not> (a < 134217728 \<and> a + 134217728 \<le> b)" "\<not> (134217728 < a \<and> b < a - 134217728 + 1)" using z by linarith+
      show ?thesis unfolding if_not_P [OF n(1)] if_not_P [OF n(2)] by (rule e)
    next
      assume e: "int b - int a + 268435456 = int d - int cur"
      then have "b + 134217728 < a" using z by linarith
      then show ?thesis using e by simp
    next
      assume e: "int b - int a - 268435456 = int d - int cur"
      then have l: "a + 134217728 \<le> b" using z by linarith
      then have "a < 134217728" using ab by linarith
      then show ?thesis using e l by simp
    qed
  qed
  ultimately show ?thesis by (rule trans [OF _ arg_cong [where f = of_int]])
qed

lemma sint_of_int_small: "- 2147483648 \<le> i \<Longrightarrow> i < 2147483648 \<Longrightarrow> sint (of_int i :: u32) = i"
  by (simp add: signed_of_int signed_take_bit_int_eq_self)

lemma to_rel_time_cases:
  assumes "d < cur + 134217728" "cur < d + 134217728"
  shows "sint (to_rel_time (stamp cur) (stamp d)) = int d - int cur"
    and "cur \<le> d \<Longrightarrow> unat (to_rel_time (stamp cur) (stamp d)) = d - cur"
proof -
  note r = to_rel_time_int [OF assms]
  show "sint (to_rel_time (stamp cur) (stamp d)) = int d - int cur"
    unfolding r by (rule sint_of_int_small) (use assms in linarith)+
  assume "cur \<le> d"
  then have "to_rel_time (stamp cur) (stamp d) = of_nat (d - cur)" unfolding r by (simp add: of_nat_diff)
  moreover have "d - cur < 4294967296" using assms by linarith
  ultimately show "unat (to_rel_time (stamp cur) (stamp d)) = d - cur" by (simp add: unat_of_nat del: of_nat_diff)
qed

end
