(* ===== verification/TimeoutsInv.thy ===== *)
theory TimeoutsInv
  imports Timeouts
begin

unbundle bit_operations_syntax

text \<open>
  The timeout manager implements a queue of deadlines: the two doubly linked lists as lists of addresses, the sorted list
  of pending timeouts, and runs of arming, disarming and polling against an abstract queue on real time.
\<close>

section \<open>Doubly linked lists\<close>

text \<open>\<open>dseg h p xs n\<close>: the objects \<open>xs\<close> are linked in both directions, between the references \<open>p\<close> and \<open>n\<close>.\<close>

definition fst_of :: "nat list \<Rightarrow> nat option \<Rightarrow> nat option" where
  "fst_of xs n = (case xs of [] \<Rightarrow> n | x # _ \<Rightarrow> Some x)"

definition lst_of :: "nat option \<Rightarrow> nat list \<Rightarrow> nat option" where
  "lst_of p xs = (if xs = [] then p else Some (last xs))"

lemma fst_of_simps [simp]: "fst_of [] n = n" "fst_of (x # xs) n = Some x" "fst_of (xs @ ys) n = fst_of xs (fst_of ys n)"
  by (auto simp: fst_of_def split: list.splits)

lemma lst_of_simps [simp]: "lst_of p [] = p" "lst_of p (x # xs) = lst_of (Some x) xs" "lst_of p (xs @ ys) = lst_of (lst_of p xs) ys"
  by (auto simp: lst_of_def)

fun dseg :: "(nat \<Rightarrow> timeout) \<Rightarrow> nat option \<Rightarrow> nat list \<Rightarrow> nat option \<Rightarrow> bool" where
  "dseg h p [] n \<longleftrightarrow> True"
| "dseg h p (x # xs) n \<longleftrightarrow> t_prev (h x) = p \<and> t_next (h x) = fst_of xs n \<and> dseg h (Some x) xs n"

lemma dseg_append [simp]: "dseg h p (xs @ ys) n \<longleftrightarrow> dseg h p xs (fst_of ys n) \<and> dseg h (lst_of p xs) ys n"
  by (induction xs arbitrary: p) auto

lemma dseg_upd [simp]: "x \<notin> set xs \<Longrightarrow> dseg (h(x := v)) p xs n = dseg h p xs n"
  by (induction xs arbitrary: p) auto

lemma dseg_prev: "x \<notin> set xs \<Longrightarrow> dseg (h(x := (h x)\<lparr>t_prev := q\<rparr>)) q (x # xs) n = (t_next (h x) = fst_of xs n \<and> dseg h (Some x) xs n)"
  by simp

lemma dseg_next: "dseg h p (xs @ [x]) n \<Longrightarrow> x \<notin> set xs \<Longrightarrow> dseg (h(x := (h x)\<lparr>t_next := m\<rparr>)) p (xs @ [x]) m"
  by simp

text \<open>The manager's two lists.\<close>

definition dlists :: "'a tmgr_scheme \<Rightarrow> nat list \<Rightarrow> nat list \<Rightarrow> bool" where
  "dlists m Ps Ds \<longleftrightarrow> distinct (Ps @ Ds) \<and>
     dseg (timeout_objs m) None Ps None \<and> timeouts_first m = fst_of Ps None \<and> timeouts_last m = lst_of None Ps \<and>
     dseg (timeout_objs m) None Ds None \<and> due_first m = fst_of Ds None \<and> due_last m = lst_of None Ds"

text \<open>An operation on the lists leaves the time stamps and the rest of the state alone.\<close>

definition same_stamps :: "'a tmgr_scheme \<Rightarrow> 'a tmgr_scheme \<Rightarrow> bool" where
  "same_stamps m m' \<longleftrightarrow> (\<forall>i. timeout_type (timeout_objs m' i) = timeout_type (timeout_objs m i)) \<and> tmgr.more m' = tmgr.more m"

lemma move_first_lists:
  assumes "dlists m (i # Ps) Ds"
  shows "dlists (move_first m) Ps (Ds @ [i]) \<and> same_stamps m (move_first m)"
proof (cases Ps)
  case Nil
  show ?thesis
  proof (cases Ds rule: rev_cases)
    case Nil
    then show ?thesis using assms \<open>Ps = []\<close> by (simp add: dlists_def same_stamps_def move_first_def upd_to_def Let_def)
  next
    case (snoc Ds' l)
    then show ?thesis using assms \<open>Ps = []\<close>
      by (auto simp: dlists_def same_stamps_def move_first_def upd_to_def Let_def)
  qed
next
  case (Cons j Ps')
  show ?thesis
  proof (cases Ds rule: rev_cases)
    case Nil
    then show ?thesis using assms \<open>Ps = j # Ps'\<close>
      by (auto simp: dlists_def same_stamps_def move_first_def upd_to_def Let_def)
  next
    case (snoc Ds' l)
    then show ?thesis using assms \<open>Ps = j # Ps'\<close>
      by (auto simp: dlists_def same_stamps_def move_first_def upd_to_def Let_def)
  qed
qed

text \<open>Linking object \<open>i\<close> between \<open>A\<close> and \<open>B\<close>.\<close>

definition link_at :: "nat \<Rightarrow> u32 \<Rightarrow> nat option \<Rightarrow> 'a tmgr_scheme \<Rightarrow> 'a tmgr_scheme" where
  "link_at i tt tp m =
    (let tn = (case tp of Some p \<Rightarrow> t_next (timeout_objs m p) | None \<Rightarrow> timeouts_first m);
         m = upd_to i (\<lambda>t. \<lparr>timeout_type = tt, t_next = tn, t_prev = tp\<rparr>) m;
         m = (case tp of None \<Rightarrow> m\<lparr>timeouts_first := Some i\<rparr> | Some p \<Rightarrow> upd_to p (\<lambda>t. t\<lparr>t_next := Some i\<rparr>) m) in
     case tn of None \<Rightarrow> m\<lparr>timeouts_last := Some i\<rparr> | Some n \<Rightarrow> upd_to n (\<lambda>t. t\<lparr>t_prev := Some i\<rparr>) m)"

lemma link_at_lists:
  assumes "dlists m (A @ B) Ds" "i \<notin> set (A @ B @ Ds)"
  shows "dlists (link_at i tt (lst_of None A) m) (A @ i # B) Ds \<and> tmgr.more (link_at i tt (lst_of None A) m) = tmgr.more m \<and>
    (\<forall>x. timeout_type (timeout_objs (link_at i tt (lst_of None A) m) x) = (if x = i then tt else timeout_type (timeout_objs m x)))"
proof (cases A rule: rev_cases)
  case Nil
  then show ?thesis using assms by (cases B) (auto simp: dlists_def link_at_def upd_to_def Let_def)
next
  case (snoc A' p)
  then show ?thesis using assms by (cases B) (auto simp: dlists_def link_at_def upd_to_def Let_def)
qed

lemma disarm_pending:
  assumes "dlists m (A @ i # B) Ds"
  shows "\<exists>m'. util_timeout_disarm m i = Inr m' \<and> dlists m' (A @ B) Ds \<and> same_stamps m m'"
proof (cases A rule: rev_cases)
  case Nil
  then show ?thesis using assms by (cases B) (auto simp: dlists_def same_stamps_def util_timeout_disarm_def upd_to_def)
next
  case (snoc A' p)
  then show ?thesis using assms by (cases B) (auto simp: dlists_def same_stamps_def util_timeout_disarm_def upd_to_def)
qed

lemma disarm_due:
  assumes "dlists m Ps (A @ i # B)"
  shows "\<exists>m'. util_timeout_disarm m i = Inr m' \<and> dlists m' Ps (A @ B) \<and> same_stamps m m'"
proof -
  have n: "fst_of Ps None \<noteq> Some i" "lst_of None Ps \<noteq> Some i"
  proof -
    have "i \<notin> set Ps" using assms by (auto simp: dlists_def)
    then show "fst_of Ps None \<noteq> Some i" "lst_of None Ps \<noteq> Some i"
      by (auto simp: fst_of_def lst_of_def split: list.splits)
  qed
  show ?thesis
  proof (cases A rule: rev_cases)
    case Nil
    then show ?thesis using assms n by (cases B) (auto simp: dlists_def same_stamps_def util_timeout_disarm_def upd_to_def)
  next
    case (snoc A' p)
    then show ?thesis using assms n by (cases B) (auto simp: dlists_def same_stamps_def util_timeout_disarm_def upd_to_def)
  qed
qed


lemma pop_due:
  assumes "dlists m Ps (i # Ds)"
  shows "\<exists>m'. m' = (let m = m\<lparr>due_first := t_next (timeout_objs m i)\<rparr> in
           case due_first m of Some f \<Rightarrow> upd_to f (\<lambda>t. t\<lparr>t_prev := None\<rparr>) m | None \<Rightarrow> m\<lparr>due_last := None\<rparr>) \<and>
         dlists m' Ps Ds \<and> same_stamps m m'"
  using assms by (cases Ds) (auto simp: dlists_def same_stamps_def upd_to_def Let_def)

section \<open>The abstract queue\<close>

text \<open>Entries (address, type, deadline) in real time.\<close>

type_synonym t_entry = "nat \<times> u8 \<times> nat"

record tq =
  q_pending :: "t_entry list"
  q_due :: "t_entry list"
  q_fired :: "(nat \<times> u8) list"

abbreviation deadline :: "t_entry \<Rightarrow> nat" where "deadline e \<equiv> snd (snd e)"

definition tq_ids :: "tq \<Rightarrow> nat list" where
  "tq_ids q = map fst (q_pending q @ q_due q)"

definition tq_move :: "nat \<Rightarrow> tq \<Rightarrow> tq" where
  "tq_move t q = q\<lparr>q_pending := dropWhile (\<lambda>e. deadline e \<le> t) (q_pending q),
     q_due := q_due q @ takeWhile (\<lambda>e. deadline e \<le> t) (q_pending q)\<rparr>"

definition tq_insert :: "t_entry \<Rightarrow> t_entry list \<Rightarrow> t_entry list" where
  "tq_insert e es = takeWhile (\<lambda>x. deadline x \<le> deadline e) es @ e # dropWhile (\<lambda>x. deadline x \<le> deadline e) es"

datatype t_op = T_arm nat u32 u8 nat | T_disarm nat | T_poll nat

fun t_spec :: "t_op \<Rightarrow> tq \<Rightarrow> tq" where
  "t_spec (T_arm i us ty t) q = (let q = tq_move t q in q\<lparr>q_pending := tq_insert (i, ty, t + unat us) (q_pending q)\<rparr>)"
| "t_spec (T_disarm i) q = q\<lparr>q_pending := filter (\<lambda>e. fst e \<noteq> i) (q_pending q), q_due := filter (\<lambda>e. fst e \<noteq> i) (q_due q)\<rparr>"
| "t_spec (T_poll t) q =
    (let q = tq_move t q in
     q\<lparr>q_due := drop MAX_TIMEOUTS (q_due q), q_fired := q_fired q @ map (\<lambda>(i, ty, d). (i, ty)) (take MAX_TIMEOUTS (q_due q))\<rparr>)"

text \<open>What a client must respect: a timeout is armed once, disarmed only while armed, its delay is below \<open>2^27\<close> us and its
  type has 4 bits; time does not go back, and there are less than \<open>2^27\<close> us between two calls.\<close>

fun t_legal :: "nat \<Rightarrow> t_op \<Rightarrow> tq \<Rightarrow> bool" where
  "t_legal now (T_arm i us ty t) q \<longleftrightarrow> now \<le> t \<and> t < now + 134217728 \<and> us < TIMEOUT_MIDDLE \<and> ty < 16 \<and> i \<notin> set (tq_ids q)"
| "t_legal now (T_disarm i) q \<longleftrightarrow> i \<in> set (tq_ids q)"
| "t_legal now (T_poll t) q \<longleftrightarrow> now \<le> t \<and> t < now + 134217728"

fun t_now :: "t_op \<Rightarrow> nat \<Rightarrow> nat" where
  "t_now (T_arm i us ty t) now = t"
| "t_now (T_disarm i) now = now"
| "t_now (T_poll t) now = t"

text \<open>The program: a manager whose handler records the timeouts that fire.\<close>

record tmgr_log = tmgr + fired :: "(nat \<times> u8) list"

definition log_handler :: "nat \<Rightarrow> u8 \<Rightarrow> tmgr_log \<Rightarrow> tmgr_log res" where
  "log_handler i ty m = Inr (m\<lparr>fired := fired m @ [(i, ty)]\<rparr>)"

fun t_exec :: "t_op \<Rightarrow> tmgr_log \<Rightarrow> tmgr_log res" where
  "t_exec (T_arm i us ty t) m = util_timeout_arm_ts m i us ty (stamp t)"
| "t_exec (T_disarm i) m = util_timeout_disarm m i"
| "t_exec (T_poll t) m = util_timeout_poll_ts log_handler m (stamp t)"

section \<open>Simulation\<close>

definition entry_stamp :: "u8 \<Rightarrow> nat \<Rightarrow> u32" where
  "entry_stamp ty d = push_bit TIMEOUT_BITS (ucast ty) OR stamp d"

definition tq_rep :: "nat \<Rightarrow> 'a tmgr_scheme \<Rightarrow> t_entry list \<Rightarrow> t_entry list \<Rightarrow> bool" where
  "tq_rep now m P D \<longleftrightarrow> dlists m (map fst P) (map fst D) \<and>
     (\<forall>(i, ty, d) \<in> set (P @ D). timeout_type (timeout_objs m i) = entry_stamp ty d \<and> ty < 16) \<and>
     sorted (map deadline P) \<and> (\<forall>e \<in> set P. now \<le> deadline e \<and> deadline e < now + 134217728)"

lemma entry_stamp_ts: "entry_stamp ty d AND TIMEOUT_MASK = stamp d"
proof -
  have m: "TIMEOUT_MASK = mask 28" by (simp add: mask_eq_exp_minus_1)
  have "(push_bit 28 (ucast ty) :: u32) AND mask 28 = 0"
    by (rule bit_word_eqI) (auto simp: bit_simps)
  then have "(push_bit 28 (ucast ty) :: u32) AND TIMEOUT_MASK = 0" unfolding m .
  then show ?thesis by (simp add: entry_stamp_def bit.conj_disj_distrib2)
qed

lemma entry_stamp_type: "ty < 16 \<Longrightarrow> ucast (drop_bit TIMEOUT_BITS (entry_stamp ty d)) = ty"
proof -
  assume "ty < 16"
  then have "unat ty < 16" by (simp add: word_less_nat_alt)
  then have "take_bit 4 ty = ty" unfolding word_unat_eq_iff by (simp add: unsigned_take_bit_eq take_bit_nat_eq_self)
  then have t: "bit ty n \<Longrightarrow> n < 4" for n by (metis bit_take_bit_iff)
  have "stamp d AND mask 28 = stamp d" using stamp_and [of d] by (simp add: mask_eq_exp_minus_1)
  then have s: "bit (stamp d) n \<Longrightarrow> n < 28" for n by (metis bit_and_iff bit_mask_iff)
  show ?thesis
    unfolding entry_stamp_def
    by (rule bit_word_eqI) (auto simp: bit_simps dest: t s)
qed


lemma tq_rep_entry:
  "tq_rep now m P D \<Longrightarrow> (i, ty, d) \<in> set (P @ D) \<Longrightarrow> timeout_type (timeout_objs m i) = entry_stamp ty d \<and> ty < 16"
  unfolding tq_rep_def by blast

lemma tq_rep_ts: "tq_rep now m P D \<Longrightarrow> (i, ty, d) \<in> set (P @ D) \<Longrightarrow> to_ts_of m i = stamp d"
  using tq_rep_entry [of now m P D i ty d] by (simp add: entry_stamp_ts)

lemma rel_bounds:
  assumes "tq_rep now m P D" "(i, ty, d) \<in> set P" "now \<le> t" "t < now + 134217728"
  shows "d < t + 134217728" "t < d + 134217728"
  using assms by (auto simp: tq_rep_def)

lemma timeout_due_iff:
  assumes "tq_rep now m P D" "(i, ty, d) \<in> set P" "now \<le> t" "t < now + 134217728"
  shows "timeout_due m i (stamp t) \<longleftrightarrow> d \<le> t"
proof -
  have "to_ts_of m i = stamp d" using assms(1,2) tq_rep_ts by fastforce
  then show ?thesis using to_rel_time_cases(1) [OF rel_bounds [OF assms]] by (simp add: timeout_due_def)
qed

lemma move_first_rep:
  assumes "tq_rep now m (e # P) D"
  shows "tq_rep now (move_first m) P (D @ [e])" "tmgr.more (move_first m) = tmgr.more m"
  using assms move_first_lists [of m "fst e" "map fst P" "map fst D"]
  by (auto simp: tq_rep_def same_stamps_def split: prod.splits)

lemma move_due_loop:
  assumes "tq_rep now m P D" "now \<le> t" "t < now + 134217728"
  shows "\<exists>m'. move_due_timeouts m (stamp t) = Inr m' \<and> tmgr.more m' = tmgr.more m \<and>
    tq_rep now m' (dropWhile (\<lambda>e. deadline e \<le> t) P) (D @ takeWhile (\<lambda>e. deadline e \<le> t) P)"
  using assms(1)
proof (induction P arbitrary: m D)
  case Nil
  then have "timeouts_first m = None" by (simp add: tq_rep_def dlists_def)
  then show ?case using Nil unfolding move_due_timeouts_def while_res_unfold [of _ _ m] by simp
next
  case (Cons e P)
  obtain i ty d where e: "e = (i, ty, d)" by (cases e)
  have f: "timeouts_first m = Some i" using Cons.prems by (simp add: tq_rep_def dlists_def e)
  have "(i, ty, d) \<in> set (e # P)" by (simp add: e)
  note due = timeout_due_iff [OF Cons.prems this assms(2,3)]
  show ?case
  proof (cases "d \<le> t")
    case True
    have "move_due_timeouts m (stamp t) = move_due_timeouts (move_first m) (stamp t)"
      using f due True unfolding move_due_timeouts_def while_res_unfold [of _ _ m] by simp
    then show ?thesis using Cons.IH [OF move_first_rep(1) [OF Cons.prems]] move_first_rep(2) [OF Cons.prems] True e by simp
  next
    case False
    then show ?thesis using Cons.prems f due e unfolding move_due_timeouts_def while_res_unfold [of _ _ m] by simp
  qed
qed

lemma sorted_dropWhile_le:
  assumes "sorted (map f xs)" "x \<in> set (dropWhile (\<lambda>e. f e \<le> (t :: nat)) xs)"
  shows "t < f x"
  using assms by (induction xs) (auto split: if_splits)

lemma move_due_rep:
  assumes "tq_rep now m P D" "now \<le> t" "t < now + 134217728"
  obtains m' where "move_due_timeouts m (stamp t) = Inr m'" "tmgr.more m' = tmgr.more m"
    "tq_rep t m' (dropWhile (\<lambda>e. deadline e \<le> t) P) (D @ takeWhile (\<lambda>e. deadline e \<le> t) P)"
proof -
  obtain m' where m': "move_due_timeouts m (stamp t) = Inr m'" "tmgr.more m' = tmgr.more m"
    "tq_rep now m' (dropWhile (\<lambda>e. deadline e \<le> t) P) (D @ takeWhile (\<lambda>e. deadline e \<le> t) P)"
    using move_due_loop [OF assms] by blast
  have "t < deadline e" if "e \<in> set (dropWhile (\<lambda>e. deadline e \<le> t) P)" for e
    using sorted_dropWhile_le [OF _ that] assms(1) by (simp add: tq_rep_def)
  moreover have "deadline e < t + 134217728" if "e \<in> set (dropWhile (\<lambda>e. deadline e \<le> t) P)" for e
    using set_dropWhileD [OF that] assms by (fastforce simp: tq_rep_def)
  ultimately have "tq_rep t m' (dropWhile (\<lambda>e. deadline e \<le> t) P) (D @ takeWhile (\<lambda>e. deadline e \<le> t) P)"
    using m'(3) by (auto simp: tq_rep_def less_imp_le)
  then show ?thesis using m' that by blast
qed

lemma find_position:
  assumes "tq_rep t m (A @ B) D" "\<forall>e \<in> set B. t + unat us < deadline e" "us < TIMEOUT_MIDDLE"
  shows "while_res (\<lambda>tp. case tp of None \<Rightarrow> False | Some p \<Rightarrow> to_rel_time (stamp t) (to_ts_of m p) > us)
           (\<lambda>tp. case tp of None \<Rightarrow> None | Some p \<Rightarrow> t_prev (timeout_objs m p)) (lst_of None (map fst A))
    = Inr (lst_of None (map fst (takeWhile (\<lambda>e. deadline e \<le> t + unat us) (A @ B))))"
  using assms(1,2)
proof (induction A arbitrary: B rule: rev_induct)
  case Nil
  then have "takeWhile (\<lambda>e. deadline e \<le> t + unat us) B = []" by (cases B) auto
  then show ?case by (simp add: while_res_unfold [of _ _ None])
next
  case (snoc e A)
  obtain i ty d where e: "e = (i, ty, d)" by (cases e)
  have "(i, ty, d) \<in> set ((A @ [e]) @ B)" by (simp add: e)
  note b = rel_bounds [OF snoc.prems(1) this order_refl]
  have "t \<le> d" using snoc.prems(1) e by (auto simp: tq_rep_def)
  moreover have "to_ts_of m i = stamp d" using tq_rep_ts [OF snoc.prems(1), of i ty d] e by simp
  ultimately have gt: "to_rel_time (stamp t) (to_ts_of m i) > us \<longleftrightarrow> t + unat us < d"
    using to_rel_time_cases(2) [OF b] by (auto simp: word_less_nat_alt)
  show ?case
  proof (cases "t + unat us < d")
    case True
    have p: "t_prev (timeout_objs m i) = lst_of None (map fst A)"
      using snoc.prems(1) e by (simp add: tq_rep_def dlists_def)
    have "\<forall>e' \<in> set (e # B). t + unat us < deadline e'" using snoc.prems(2) True e by simp
    from snoc.IH [OF _ this] show ?thesis
      using snoc.prems(1) True gt e p by (simp add: while_res_unfold [of _ _ "Some i"])
  next
    case False
    have "\<forall>x \<in> set (A @ [e]). deadline x \<le> t + unat us"
      using snoc.prems(1) False e by (auto simp: tq_rep_def sorted_append)
    then have "takeWhile (\<lambda>e. deadline e \<le> t + unat us) ((A @ [e]) @ B) = A @ [e]"
      using snoc.prems(2) by (subst takeWhile_append2) (auto simp: takeWhile_eq_Nil_iff dest!: hd_in_set)
    then show ?thesis
      using False gt e by (simp add: while_res_unfold [of _ _ "Some i"])
  qed
qed


lemma link_at_rep:
  assumes "tq_rep t m P D" "i \<notin> fst ` set (P @ D)" "ty < 16" "us < TIMEOUT_MIDDLE"
    "m' = link_at i (entry_stamp ty (t + unat us)) (lst_of None (map fst (takeWhile (\<lambda>e. deadline e \<le> t + unat us) P))) m"
  shows "tq_rep t m' (tq_insert (i, ty, t + unat us) P) D" "tmgr.more m' = tmgr.more m"
proof -
  define A B where "A = takeWhile (\<lambda>e. deadline e \<le> t + unat us) P" and "B = dropWhile (\<lambda>e. deadline e \<le> t + unat us) P"
  have P: "P = A @ B" by (simp add: A_def B_def)
  have us: "unat us < 134217728" using assms(4) by (simp add: word_less_nat_alt)
  have "dlists m (map fst A @ map fst B) (map fst D)" "i \<notin> set (map fst A @ map fst B @ map fst D)"
    using assms(1,2) by (auto simp: tq_rep_def P)
  from link_at_lists [OF this, of "entry_stamp ty (t + unat us)"]
  have l: "dlists m' (map fst A @ i # map fst B) (map fst D)" "tmgr.more m' = tmgr.more m"
    "timeout_type (timeout_objs m' x) = (if x = i then entry_stamp ty (t + unat us) else timeout_type (timeout_objs m x))" for x
    unfolding assms(5) A_def by simp_all
  show "tmgr.more m' = tmgr.more m" by (rule l(2))
  have le: "\<forall>e \<in> set A. deadline e \<le> t + unat us" "\<forall>e \<in> set B. t + unat us < deadline e"
    using assms(1) sorted_dropWhile_le [of deadline P _ "t + unat us"]
    by (auto simp: A_def B_def tq_rep_def dest: set_takeWhileD)
  have i: "tq_insert (i, ty, t + unat us) P = A @ (i, ty, t + unat us) # B" by (simp add: tq_insert_def A_def B_def)
  have "timeout_type (timeout_objs m' j) = entry_stamp y d \<and> y < 16" if "(j, y, d) \<in> set (P @ D)" for j y d
  proof -
    have "j \<noteq> i" using that assms(2) by force
    then show ?thesis using tq_rep_entry [OF assms(1) that] l(3) by simp
  qed
  moreover have "sorted (map deadline (A @ (i, ty, t + unat us) # B))"
    using assms(1) le by (auto simp: tq_rep_def P sorted_append less_imp_le)
  ultimately show "tq_rep t m' (tq_insert (i, ty, t + unat us) P) D"
    using assms(1,3) us l(1) l(3) [of i] unfolding i unfolding tq_rep_def P by (auto simp: less_imp_le)
qed

lemma arm_rep:
  assumes "tq_rep now m P D" "now \<le> t" "t < now + 134217728" "us < TIMEOUT_MIDDLE" "ty < 16" "i \<notin> fst ` set (P @ D)"
  obtains m' where "util_timeout_arm_ts m i us ty (stamp t) = Inr m'" "tmgr.more m' = tmgr.more m"
    "tq_rep t m' (tq_insert (i, ty, t + unat us) (dropWhile (\<lambda>e. deadline e \<le> t) P)) (D @ takeWhile (\<lambda>e. deadline e \<le> t) P)"
proof -
  define P' D' where "P' = dropWhile (\<lambda>e. deadline e \<le> t) P" and "D' = D @ takeWhile (\<lambda>e. deadline e \<le> t) P"
  obtain m1 where m1: "move_due_timeouts m (stamp t) = Inr m1" "tmgr.more m1 = tmgr.more m" "tq_rep t m1 P' D'"
    using move_due_rep [OF assms(1-3)] unfolding P'_def D'_def by blast
  have last: "timeouts_last m1 = lst_of None (map fst P')" using m1(3) by (simp add: tq_rep_def dlists_def)
  define m' where "m' = link_at i (entry_stamp ty (t + unat us)) (lst_of None (map fst (takeWhile (\<lambda>e. deadline e \<le> t + unat us) P'))) m1"
  have "\<not> us \<ge> TIMEOUT_MIDDLE" using assms(4) by simp
  then have "util_timeout_arm_ts m i us ty (stamp t) = Inr m'"
    using m1(1) find_position [of t m1 P' "[]" D' us] m1(3) assms(4)
    by (simp add: util_timeout_arm_ts_def last m'_def link_at_def stamp_add entry_stamp_def Let_def)
  moreover have "i \<notin> fst ` set (P' @ D')"
    using assms(6) by (auto simp: P'_def D'_def dest!: set_dropWhileD set_takeWhileD)
  then have "tq_rep t m' (tq_insert (i, ty, t + unat us) P') D'" "tmgr.more m' = tmgr.more m1"
    using link_at_rep [OF m1(3) _ assms(5,4) m'_def] by blast+
  ultimately show ?thesis using that m1(2) by (simp add: P'_def D'_def)
qed

lemma filter_ids: "distinct (map fst (A @ (i, e) # B)) \<Longrightarrow> filter (\<lambda>e. fst e \<noteq> i) (A @ (i, e) # B) = A @ B"
  by (auto simp: filter_id_conv image_iff intro!: arg_cong2 [where f = append])

lemma filter_id_other: "i \<notin> fst ` set A \<Longrightarrow> filter (\<lambda>e. fst e \<noteq> i) A = A"
  by (auto simp: filter_id_conv)

lemma disarm_rep:
  assumes "tq_rep now m P D" "i \<in> fst ` set (P @ D)"
  obtains m' where "util_timeout_disarm m i = Inr m'" "tmgr.more m' = tmgr.more m"
    "tq_rep now m' (filter (\<lambda>e. fst e \<noteq> i) P) (filter (\<lambda>e. fst e \<noteq> i) D)"
proof -
  have d: "distinct (map fst (P @ D))" and l: "dlists m (map fst P) (map fst D)" using assms(1) by (simp_all add: tq_rep_def dlists_def)
  consider A e B where "P = A @ (i, e) # B" | A e B where "D = A @ (i, e) # B"
    using assms(2) by (auto dest!: split_list)
  then have "\<exists>m'. util_timeout_disarm m i = Inr m' \<and> dlists m' (map fst (filter (\<lambda>e. fst e \<noteq> i) P)) (map fst (filter (\<lambda>e. fst e \<noteq> i) D)) \<and>
      same_stamps m m'"
  proof cases
    case 1
    have "filter (\<lambda>e. fst e \<noteq> i) P = A @ B" unfolding 1 by (rule filter_ids) (use d 1 in auto)
    moreover have "filter (\<lambda>e. fst e \<noteq> i) D = D" by (rule filter_id_other) (use d 1 in auto)
    ultimately show ?thesis using disarm_pending [of m "map fst A" i "map fst B" "map fst D"] l 1 by simp
  next
    case 2
    have "filter (\<lambda>e. fst e \<noteq> i) D = A @ B" unfolding 2 by (rule filter_ids) (use d 2 in auto)
    moreover have "filter (\<lambda>e. fst e \<noteq> i) P = P" by (rule filter_id_other) (use d 2 in auto)
    ultimately show ?thesis using disarm_due [of m "map fst P" "map fst A" i "map fst B"] l 2 by simp
  qed
  then obtain m' where m': "util_timeout_disarm m i = Inr m'" "same_stamps m m'"
    "dlists m' (map fst (filter (\<lambda>e. fst e \<noteq> i) P)) (map fst (filter (\<lambda>e. fst e \<noteq> i) D))" by blast
  have "sorted (map deadline (filter (\<lambda>e. fst e \<noteq> i) P))" using assms(1) by (simp add: tq_rep_def sorted_filter)
  then have "tq_rep now m' (filter (\<lambda>e. fst e \<noteq> i) P) (filter (\<lambda>e. fst e \<noteq> i) D)"
    using assms(1) m'(2,3) tq_rep_entry [OF assms(1)] unfolding tq_rep_def same_stamps_def by simp_all blast
  then show ?thesis using that m' by (simp add: same_stamps_def)
qed

lemma fire_rep:
  assumes "tq_rep now (m :: tmgr_log) P D"
  shows "\<exists>m'. fire_due log_handler n m = Inr m' \<and> tq_rep now m' P (drop n D) \<and>
    fired m' = fired m @ map (\<lambda>(i, ty, d). (i, ty)) (take n D)"
  using assms
proof (induction n arbitrary: m D)
  case (Suc n)
  show ?case
  proof (cases D)
    case Nil
    then show ?thesis using Suc.prems by (simp add: tq_rep_def dlists_def)
  next
    case (Cons e D')
    obtain i ty d where e: "e = (i, ty, d)" by (cases e)
    have f: "due_first m = Some i" using Suc.prems Cons e by (simp add: tq_rep_def dlists_def)
    define m1 where "m1 = (let m = m\<lparr>due_first := t_next (timeout_objs m i)\<rparr> in
           case due_first m of Some f \<Rightarrow> upd_to f (\<lambda>t. t\<lparr>t_prev := None\<rparr>) m | None \<Rightarrow> m\<lparr>due_last := None\<rparr>)"
    have m1: "dlists m1 (map fst P) (map fst D')" "same_stamps m m1"
      using pop_due [of m "map fst P" i "map fst D'"] Suc.prems Cons e by (auto simp: tq_rep_def m1_def)
    have ty: "timeout_type (timeout_objs m1 i) = entry_stamp ty d" "ty < 16"
      using Suc.prems Cons e m1(2) unfolding tq_rep_def same_stamps_def by auto
    have fd: "fired m1 = fired m" using m1(2) by (cases m; cases m1) (simp add: same_stamps_def)
    define m2 where "m2 = m1\<lparr>fired := fired m1 @ [(i, ty)]\<rparr>"
    have "dlists m2 (map fst P) (map fst D')" using m1(1) by (simp add: m2_def dlists_def)
    then have "tq_rep now m2 P D'" using Suc.prems Cons m1(2) unfolding tq_rep_def same_stamps_def m2_def by auto
    from Suc.IH [OF this] obtain m' where m': "fire_due log_handler n m2 = Inr m'" "tq_rep now m' P (drop n D')"
      "fired m' = fired m2 @ map (\<lambda>(i, ty, d). (i, ty)) (take n D')" by blast
    have "fire_due log_handler (Suc n) m =
        bind_res (log_handler i (ucast (drop_bit TIMEOUT_BITS (timeout_type (timeout_objs m1 i)))) m1) (fire_due log_handler n)"
      by (simp add: f m1_def Let_def)
    then have "fire_due log_handler (Suc n) m = fire_due log_handler n m2"
      unfolding ty(1) entry_stamp_type [OF ty(2)] by (simp add: log_handler_def m2_def)
    then show ?thesis using m' Cons e fd by (simp add: m2_def)
  qed
qed simp


section \<open>Runs\<close>

definition util_timeout_init :: tmgr_log where
  "util_timeout_init = \<lparr>timeouts_first = None, timeouts_last = None, due_first = None, due_last = None,
     timeout_objs = (\<lambda>i. \<lparr>timeout_type = 0, t_next = None, t_prev = None\<rparr>), fired = []\<rparr>"

definition tq_empty :: tq where
  "tq_empty = \<lparr>q_pending = [], q_due = [], q_fired = []\<rparr>"

text \<open>The manager and the abstract queue after the same legal calls, the last one at time \<open>now\<close>.\<close>

inductive t_run :: "nat \<Rightarrow> tmgr_log \<Rightarrow> tq \<Rightarrow> bool" where
  t_start: "t_run now util_timeout_init tq_empty"
| t_step: "t_run now m q \<Longrightarrow> t_legal now op q \<Longrightarrow> t_exec op m = Inr m' \<Longrightarrow> t_run (t_now op now) m' (t_spec op q)"

definition t_sim :: "nat \<Rightarrow> tmgr_log \<Rightarrow> tq \<Rightarrow> bool" where
  "t_sim now m q \<longleftrightarrow> tq_rep now m (q_pending q) (q_due q) \<and> fired m = q_fired q"

lemma fired_more: "tmgr.more (m' :: tmgr_log) = tmgr.more m \<Longrightarrow> fired m' = fired m"
  by (cases m; cases m') simp

lemma t_sim_step:
  assumes "t_sim now m q" "t_legal now op q"
  shows "\<exists>m'. t_exec op m = Inr m' \<and> t_sim (t_now op now) m' (t_spec op q)"
proof (cases op)
  case (T_arm i us ty t)
  have "i \<notin> fst ` set (q_pending q @ q_due q)" using assms(2) by (auto simp: T_arm tq_ids_def)
  with assms arm_rep [of now m "q_pending q" "q_due q" t us ty i] obtain m' where
    "util_timeout_arm_ts m i us ty (stamp t) = Inr m'" "tmgr.more m' = tmgr.more m"
    "tq_rep t m' (tq_insert (i, ty, t + unat us) (dropWhile (\<lambda>e. deadline e \<le> t) (q_pending q)))
       (q_due q @ takeWhile (\<lambda>e. deadline e \<le> t) (q_pending q))"
    by (auto simp: T_arm t_sim_def)
  then show ?thesis using assms(1) fired_more [of m' m] by (simp add: T_arm t_sim_def tq_move_def Let_def)
next
  case (T_disarm i)
  have "i \<in> fst ` set (q_pending q @ q_due q)" using assms(2) by (auto simp: T_disarm tq_ids_def)
  with assms(1) disarm_rep [of now m "q_pending q" "q_due q" i] obtain m' where
    "util_timeout_disarm m i = Inr m'" "tmgr.more m' = tmgr.more m"
    "tq_rep now m' (filter (\<lambda>e. fst e \<noteq> i) (q_pending q)) (filter (\<lambda>e. fst e \<noteq> i) (q_due q))"
    by (auto simp: t_sim_def)
  then show ?thesis using assms(1) fired_more [of m' m] by (simp add: T_disarm t_sim_def)
next
  case (T_poll t)
  obtain m1 where m1: "move_due_timeouts m (stamp t) = Inr m1" "tmgr.more m1 = tmgr.more m"
    "tq_rep t m1 (dropWhile (\<lambda>e. deadline e \<le> t) (q_pending q)) (q_due q @ takeWhile (\<lambda>e. deadline e \<le> t) (q_pending q))"
    using assms move_due_rep [of now m "q_pending q" "q_due q" t] by (auto simp: T_poll t_sim_def)
  then show ?thesis
    using fire_rep [OF m1(3), of MAX_TIMEOUTS] assms(1) fired_more [of m1 m]
    by (auto simp: T_poll t_sim_def tq_move_def util_timeout_poll_ts_def Let_def)
qed

lemma t_run_sim: "t_run now m q \<Longrightarrow> t_sim now m q"
proof (induction rule: t_run.induct)
  case t_start
  show ?case by (simp add: t_sim_def tq_rep_def dlists_def util_timeout_init_def tq_empty_def)
next
  case (t_step now m q op m')
  then show ?case using t_sim_step [of now m q op] by auto
qed

text \<open>
  C29: the timeout manager refines a queue of deadlines in real time.  After any legal calls every further legal call
  returns, with neither an abort nor an endless loop, and the manager stays in step with the queue: it has fired the same
  timeouts with the same types in the same order, the lists hold the same timeouts, and the pending ones are sorted.
\<close>

theorem timeouts_refine:
  assumes "t_run now m q" "t_legal now op q"
  shows "\<exists>m'. t_exec op m = Inr m' \<and> fired m' = q_fired (t_spec op q) \<and>
    dlists m' (map fst (q_pending (t_spec op q))) (map fst (q_due (t_spec op q))) \<and> sorted (map deadline (q_pending (t_spec op q)))"
  using t_sim_step [OF t_run_sim [OF assms(1)] assms(2)] by (auto simp: t_sim_def tq_rep_def)

text \<open>
  C30: \<open>util_timeout_next\<close> is exact: nothing to wait for when a timeout is due, \<open>-1\<close> without timeouts, and otherwise the
  time until the earliest deadline, 0 when it has passed.
\<close>

theorem timeout_next_exact:
  assumes "t_run now m q" "now \<le> t" "t < now + 134217728"
  shows "util_timeout_next m (stamp t) =
    (if q_due q \<noteq> [] then 0 else if q_pending q = [] then UINT32_MAX
     else of_nat (Min (deadline ` set (q_pending q)) - t))"
proof -
  have r: "tq_rep now m (q_pending q) (q_due q)" using t_run_sim [OF assms(1)] by (simp add: t_sim_def)
  then have f: "due_first m = fst_of (map fst (q_due q)) None" "timeouts_first m = fst_of (map fst (q_pending q)) None"
    by (simp_all add: tq_rep_def dlists_def)
  show ?thesis
  proof (cases "q_due q")
    case Nil
    show ?thesis
    proof (cases "q_pending q")
      case (Cons e P)
      obtain i ty d where e: "e = (i, ty, d)" by (cases e)
      have m: "(i, ty, d) \<in> set (q_pending q)" by (simp add: Cons e)
      then have ts: "to_ts_of m i = stamp d" using tq_rep_ts [OF r, of i ty d] by simp
      note b = rel_bounds [OF r m assms(2,3)]
      have "Min (deadline ` set (q_pending q)) = d"
        using r unfolding Cons e tq_rep_def by (intro Min_eqI) auto
      moreover have "to_rel_time (stamp t) (stamp d) = of_nat (d - t)" if "t \<le> d"
      proof -
        have "unat (to_rel_time (stamp t) (stamp d)) = d - t" by (rule to_rel_time_cases(2) [OF b that])
        then show ?thesis by (metis of_nat_unat ucast_id)
      qed
      ultimately show ?thesis
        using to_rel_time_cases(1) [OF b] f ts by (auto simp: util_timeout_next_def Nil Cons e Let_def)
    qed (simp add: util_timeout_next_def f Nil)
  qed (simp add: util_timeout_next_def f)
qed

section \<open>An instance\<close>

text \<open>Two timeouts armed shortly before the time stamps wrap around, the later one first; a poll fires the earlier one.\<close>

definition ex_armed :: tmgr_log where
  "ex_armed = (case bind_res (t_exec (T_arm 7 300 2 268435400) util_timeout_init) (t_exec (T_arm 9 100 1 268435410)) of Inr m \<Rightarrow> m)"

definition ex_queue :: tq where
  "ex_queue = \<lparr>q_pending = [(9, 1, 268435510), (7, 2, 268435700)], q_due = [], q_fired = []\<rparr>"

lemma ex_armed_run: "t_run 268435410 ex_armed ex_queue"
proof -
  have s: "t_sim 268435400 util_timeout_init tq_empty" "t_run 268435400 util_timeout_init tq_empty"
    by (simp_all add: t_run_sim t_start)
  have l: "t_legal 268435400 (T_arm 7 300 2 268435400) tq_empty" by (simp add: tq_ids_def tq_empty_def)
  obtain m1 where m1: "t_exec (T_arm 7 300 2 268435400) util_timeout_init = Inr m1" using t_sim_step [OF s(1) l] by blast
  define q1 where "q1 = t_spec (T_arm 7 300 2 268435400) tq_empty"
  have r1: "t_run 268435400 m1 q1" using t_step [OF s(2) l m1] by (simp add: q1_def)
  have q1: "q1 = \<lparr>q_pending = [(7, 2, 268435700)], q_due = [], q_fired = []\<rparr>"
    by (simp add: q1_def tq_empty_def tq_move_def tq_insert_def)
  have l2: "t_legal 268435400 (T_arm 9 100 1 268435410) q1" by (simp add: tq_ids_def q1)
  obtain m2 where m2: "t_exec (T_arm 9 100 1 268435410) m1 = Inr m2" using t_sim_step [OF t_run_sim [OF r1] l2] by blast
  have "ex_armed = m2" using m1 m2 by (simp add: ex_armed_def del: t_exec.simps)
  moreover have "t_spec (T_arm 9 100 1 268435410) q1 = ex_queue"
    by (simp add: q1 ex_queue_def tq_move_def tq_insert_def)
  ultimately show ?thesis using t_step [OF r1 l2 m2] by simp
qed

theorem timeouts_refine_witness:
  "\<exists>m'. t_exec (T_poll 268435520) ex_armed = Inr m' \<and> fired m' = [(9, 1)] \<and> dlists m' [7] []"
proof -
  have "t_spec (T_poll 268435520) ex_queue = \<lparr>q_pending = [(7, 2, 268435700)], q_due = [], q_fired = [(9, 1)]\<rparr>"
    by (simp add: ex_queue_def tq_move_def)
  then show ?thesis using timeouts_refine [OF ex_armed_run, of "T_poll 268435520"] by auto
qed

theorem timeout_next_exact_witness: "util_timeout_next ex_armed (stamp 268435480) = 30"
  using timeout_next_exact [OF ex_armed_run, of 268435480] by (simp add: ex_queue_def)

end
