(* ===== verification/KernelState.thy ===== *)
theory KernelState
  imports Nicif CongControl Timeouts
begin

unbundle bit_operations_syntax

text \<open>
  The state of the kernel process (kernel/internal.h, kernel/appif.h and the static variables of kernel/tcp.c, kernel/arp.c,
  kernel/routing.c and kernel/kernel.c): connections, listeners, the port table, the ARP cache, routes, the contexts of the
  applications and the NIC interface.  It extends the timeout manager, whose handler changes all of it.

  Heap objects (connections, listeners, ARP entries, contexts) are known by their addresses; \<open>None\<close> in a table of objects is
  memory that is not allocated, and reading it is \<open>Oob\<close>.  A linked list through \<open>hash_next\<close>, \<open>app_next\<close> or the completion
  queue's elements is the list of the addresses.  \<open>malloc\<close> gives addresses that were never given before.
\<close>

section \<open>State\<close>

record kenv =
  fenv :: env
  ip_cksum :: "pkt_tcp \<Rightarrow> u16"
  tcp_cksum :: "pkt_tcp \<Rightarrow> u16"
  info_mac :: u64
  tap_mac :: "u8 list"

record backlog_slot =
  bl_buf :: "u8 list"
  bl_len :: u16

record listener =
  ls_opaque :: u64
  ls_ctx :: nat
  ls_backlog_len :: u32
  ls_backlog_pos :: u32
  ls_backlog_used :: u32
  ls_slots :: "backlog_slot list"
  ls_cores :: "u32 list"
  ls_fgs :: "u16 list"
  ls_wait :: "nat list"
  ls_port :: u16
  ls_flags :: u32

text \<open>\<open>ports\<close>: a pointer with its type in the two lowest bits.\<close>

datatype port = Port_unused | Port_listen nat | Port_multi nat | Port_conn nat

record arp_entry =
  ae_ready :: bool
  ae_ip :: u32
  ae_mac :: "48 word"
  ae_compl :: "nat list"
  ae_timeout :: u32

record route =
  rt_dest :: u32
  rt_mask :: u32
  rt_hop :: u32

record config_route =
  cr_ip :: u32
  cr_prefix :: u8
  cr_hop :: u32

text \<open>\<open>struct app_context\<close>: its queues in DMA memory, and how often its event descriptor was written.\<close>

record app_ctx =
  ac_kin_base :: u64
  ac_kin_len :: u32
  ac_kin_pos :: u32
  ac_kout_base :: u64
  ac_kout_len :: u32
  ac_kout_pos :: u32
  ac_doorbell :: u32
  ac_ready :: bool
  ac_evfd :: int
  ac_last_ts :: u32
  ac_kicks :: nat

record application =
  app_contexts :: "nat list"
  app_conns :: "nat list"
  app_listeners :: "nat list"

record kst = tmgr +
  cfg :: configuration
  kn :: nicif
  conns :: "nat \<Rightarrow> connection option"
  tcp_conns :: "nat list"
  async_q :: "nat list"
  ports :: "u16 \<Rightarrow> port"
  port_eph_hint :: u16
  listeners :: "nat \<Rightarrow> listener option"
  multis :: "nat \<Rightarrow> nat list option"
  krng :: u64
  arp_table :: "(nat \<times> arp_entry) list"
  routing_table :: "route list"
  actxs :: "nat \<Rightarrow> app_ctx option"
  applications :: "application list"
  cur_ts :: u32
  kstat :: kstats
  cc_prev_ts :: u32
  tapq :: "u8 list list"
  fp_scale_to :: nat
  allocs :: nat
  answers :: "nat \<Rightarrow> bool"
  junk :: connection

abbreviation TO_ARP_REQ :: u8 where "TO_ARP_REQ \<equiv> 0"
abbreviation TO_TCP_HANDSHAKE :: u8 where "TO_TCP_HANDSHAKE \<equiv> 1"
abbreviation TO_TCP_RETRANSMIT :: u8 where "TO_TCP_RETRANSMIT \<equiv> 2"

text \<open>The addresses of the timeout objects inside of connections and of ARP entries.\<close>

definition conn_to :: "nat \<Rightarrow> nat" where "conn_to c = 2 * c"
definition arp_to_obj :: "nat \<Rightarrow> nat" where "arp_to_obj a = 2 * a + 1"

section \<open>Access\<close>

definition deref :: "(nat \<Rightarrow> 'a option) \<Rightarrow> nat \<Rightarrow> 'a res" where
  "deref h a = (case h a of None \<Rightarrow> Inl Oob | Some x \<Rightarrow> Inr x)"

definition upd_conn :: "nat \<Rightarrow> (connection \<Rightarrow> connection) \<Rightarrow> kst \<Rightarrow> kst" where
  "upd_conn c f s = s\<lparr>conns := (conns s)(c := map_option f (conns s c))\<rparr>"

definition upd_listener :: "nat \<Rightarrow> (listener \<Rightarrow> listener) \<Rightarrow> kst \<Rightarrow> kst" where
  "upd_listener l f s = s\<lparr>listeners := (listeners s)(l := map_option f (listeners s l))\<rparr>"

definition upd_actx :: "nat \<Rightarrow> (app_ctx \<Rightarrow> app_ctx) \<Rightarrow> kst \<Rightarrow> kst" where
  "upd_actx a f s = s\<lparr>actxs := (actxs s)(a := map_option f (actxs s a))\<rparr>"

definition upd_dmem :: "(u8 list \<Rightarrow> u8 list) \<Rightarrow> kst \<Rightarrow> kst" where
  "upd_dmem f s = s\<lparr>kn := (kn s)\<lparr>nic := (nic (kn s))\<lparr>dmem := f (dmem (nic (kn s)))\<rparr>\<rparr>\<rparr>"

abbreviation kmem :: "kst \<Rightarrow> u8 list" where "kmem s \<equiv> dmem (nic (kn s))"
abbreviation time_us :: "kst \<Rightarrow> u32" where "time_us s \<equiv> now_us (nic (kn s))"

text \<open>\<open>malloc\<close>, whose answers are a parameter.\<close>

definition malloc :: "kst \<Rightarrow> nat option \<times> kst" where
  "malloc s = (if answers s (allocs s) then Some (Suc (allocs s)) else None, s\<lparr>allocs := Suc (allocs s)\<rparr>)"

definition k_packetmem_alloc :: "u64 \<Rightarrow> kst \<Rightarrow> handle option \<times> kst" where
  "k_packetmem_alloc len s =
    (case malloc s of (m, s) \<Rightarrow>
       (case packetmem_alloc (freelist (kn s)) len (m \<noteq> None) of None \<Rightarrow> (None, s)
        | Some (h, fl) \<Rightarrow> (Some h, s\<lparr>kn := (kn s)\<lparr>freelist := fl\<rparr>\<rparr>)))"

definition k_packetmem_free :: "handle \<Rightarrow> kst \<Rightarrow> kst" where
  "k_packetmem_free h s = s\<lparr>kn := (kn s)\<lparr>freelist := packetmem_free (freelist (kn s)) h\<rparr>\<rparr>"

text \<open>\<open>util_timeout_arm\<close> reads the clock, whose stamps have 28 bits.\<close>

definition k_timeout_arm :: "nat \<Rightarrow> u32 \<Rightarrow> u8 \<Rightarrow> kst \<Rightarrow> kst res" where
  "k_timeout_arm i us ty s = util_timeout_arm_ts s i us ty (time_us s)"

text \<open>The completion queue (\<open>nbqueue_enq\<close>, \<open>nbqueue_deq\<close>): elements enter at the head and leave at the end.\<close>

definition nbqueue_enq :: "nat list \<Rightarrow> nat \<Rightarrow> nat list" where
  "nbqueue_enq q el = el # q"

definition nbqueue_deq :: "nat list \<Rightarrow> (nat \<times> nat list) option" where
  "nbqueue_deq q = (if q = [] then None else Some (last q, butlast q))"

text \<open>The first six bytes of a MAC address in a \<open>uint64_t\<close>, and back.\<close>

definition mac48 :: "u64 \<Rightarrow> 48 word" where
  "mac48 m = be48_of (take 6 (le64_bytes m))"

definition mac64 :: "48 word \<Rightarrow> u64" where
  "mac64 m = le64_of (be48_bytes m @ [0, 0])"

end
