(* ===== verification/ArpRouting.thy ===== *)
theory ArpRouting
  imports KernelState
begin

unbundle bit_operations_syntax

text \<open>
  Address resolution (kernel/arp.c) and routing (kernel/routing.c): the cache of MAC addresses with its pending requests,
  which wake the waiting connections through the completion queue, and the table that gives the next hop of an address.
\<close>

section \<open>ARP packets\<close>

record pkt_arp =
  ar_dest :: "48 word"
  ar_src :: "48 word"
  ar_type :: u16
  ar_htype :: u16
  ar_ptype :: u16
  ar_hlen :: u8
  ar_plen :: u8
  ar_oper :: u16
  ar_sha :: "48 word"
  ar_spa :: u32
  ar_tha :: "48 word"
  ar_tpa :: u32

abbreviation ETH_TYPE_ARP :: u16 where "ETH_TYPE_ARP \<equiv> 0x0806"
abbreviation ARP_OPER_REQUEST :: u16 where "ARP_OPER_REQUEST \<equiv> 1"
abbreviation ARP_OPER_REPLY :: u16 where "ARP_OPER_REPLY \<equiv> 2"
abbreviation PKT_ARP_SZ :: nat where "PKT_ARP_SZ \<equiv> 42"

definition arp_bytes :: "pkt_arp \<Rightarrow> u8 list" where
  "arp_bytes p = be48_bytes (ar_dest p) @ be48_bytes (ar_src p) @ be16_bytes (ar_type p) @ be16_bytes (ar_htype p) @
     be16_bytes (ar_ptype p) @ [ar_hlen p, ar_plen p] @ be16_bytes (ar_oper p) @ be48_bytes (ar_sha p) @
     be32_bytes (ar_spa p) @ be48_bytes (ar_tha p) @ be32_bytes (ar_tpa p)"

definition arp_of_bytes :: "u8 list \<Rightarrow> pkt_arp" where
  "arp_of_bytes bs = \<lparr>ar_dest = be48_of (slice bs 0 6), ar_src = be48_of (slice bs 6 6), ar_type = be16_of (slice bs 12 2),
     ar_htype = be16_of (slice bs 14 2), ar_ptype = be16_of (slice bs 16 2), ar_hlen = bs ! 18, ar_plen = bs ! 19,
     ar_oper = be16_of (slice bs 20 2), ar_sha = be48_of (slice bs 22 6), ar_spa = be32_of (slice bs 28 4),
     ar_tha = be48_of (slice bs 32 6), ar_tpa = be32_of (slice bs 38 4)\<rparr>"

definition arp_frame :: "48 word \<Rightarrow> 48 word \<Rightarrow> u32 \<Rightarrow> u32 \<Rightarrow> u16 \<Rightarrow> pkt_arp" where
  "arp_frame smac dmac sip dip oper = \<lparr>ar_dest = dmac, ar_src = smac, ar_type = ETH_TYPE_ARP, ar_htype = 1, ar_ptype = 0x0800,
     ar_hlen = 6, ar_plen = 4, ar_oper = oper, ar_sha = smac, ar_spa = sip, ar_tha = dmac, ar_tpa = dip\<rparr>"

text \<open>A frame through the kernel's transmit queue: the result -1 when the queue is full.\<close>

definition send_frame :: "u8 list \<Rightarrow> nat \<Rightarrow> kst \<Rightarrow> (kst \<times> int) res" where
  "send_frame bs len s =
    bind_res (nicif_tx_alloc (kn s) (of_nat len)) (\<lambda>(n, r).
    case r of None \<Rightarrow> Inr (s\<lparr>kn := n\<rparr>, -1)
    | Some (buf, tail) \<Rightarrow>
        if unat buf + length bs > length (dmem (nic n)) then Inl Oob
        else
          let s = upd_dmem (\<lambda>m. put m (unat buf) bs) (s\<lparr>kn := n\<rparr>) in
          Inr (s\<lparr>kn := nicif_tx_send (kn s) tail\<rparr>, 0))"

definition response_tx :: "kenv \<Rightarrow> 48 word \<Rightarrow> u32 \<Rightarrow> kst \<Rightarrow> (kst \<times> int) res" where
  "response_tx e dst_mac dst_ip s =
    send_frame (arp_bytes (arp_frame (mac48 (info_mac e)) dst_mac (cf_ip (cfg s)) dst_ip ARP_OPER_REPLY)) PKT_ARP_SZ s"

definition request_tx :: "kenv \<Rightarrow> u32 \<Rightarrow> kst \<Rightarrow> (kst \<times> int) res" where
  "request_tx e dst_ip s =
    send_frame (arp_bytes (arp_frame (mac48 (info_mac e)) 0xffffffffffff (cf_ip (cfg s)) dst_ip ARP_OPER_REQUEST)) PKT_ARP_SZ s"

text \<open>\<open>tap_write\<close> replaces the destination by the interface's address.\<close>

definition tap_write :: "kenv \<Rightarrow> u8 list \<Rightarrow> kst \<Rightarrow> kst" where
  "tap_write e bs s = s\<lparr>tapq := tapq s @ [take 6 (tap_mac e) @ drop 6 bs]\<rparr>"

definition response_tx_tap :: "kenv \<Rightarrow> 48 word \<Rightarrow> 48 word \<Rightarrow> u32 \<Rightarrow> u32 \<Rightarrow> kst \<Rightarrow> kst" where
  "response_tx_tap e src_mac dst_mac src_ip dst_ip s =
    tap_write e (arp_bytes (arp_frame src_mac dst_mac src_ip dst_ip ARP_OPER_REPLY)) s"

section \<open>The cache\<close>

fun ae_lookup :: "(nat \<times> arp_entry) list \<Rightarrow> u32 \<Rightarrow> (nat \<times> arp_entry) option" where
  "ae_lookup [] ip = None"
| "ae_lookup ((a, ae) # t) ip = (if ae_ip ae = ip then Some (a, ae) else ae_lookup t ip)"

fun ae_upd :: "nat \<Rightarrow> (arp_entry \<Rightarrow> arp_entry) \<Rightarrow> (nat \<times> arp_entry) list \<Rightarrow> (nat \<times> arp_entry) list" where
  "ae_upd a f [] = []"
| "ae_upd a f ((b, ae) # t) = (if b = a then (b, f ae) # t else (b, ae) # ae_upd a f t)"

definition arp_init :: "kenv \<Rightarrow> kst \<Rightarrow> kst res" where
  "arp_init e s =
    (case malloc s of (None, s) \<Rightarrow> Inl Assert_fail
     | (Some a, s) \<Rightarrow> Inr (s\<lparr>arp_table := [(a, \<lparr>ae_ready = True, ae_ip = cf_ip (cfg s), ae_mac = mac48 (info_mac e),
          ae_compl = [], ae_timeout = 0\<rparr>)]\<rparr>))"

text \<open>\<open>arp_request\<close> for connection \<open>c\<close>, whose completion it registers and whose \<open>remote_mac\<close> is the address it fills in.\<close>

definition arp_request :: "kenv \<Rightarrow> nat \<Rightarrow> u32 \<Rightarrow> kst \<Rightarrow> (kst \<times> int) res" where
  "arp_request e c ip s =
    (let s = upd_conn c (\<lambda>c. c\<lparr>c_remote_mac := 0\<rparr>) s in
     case ae_lookup (arp_table s) ip of
       Some (a, ae) \<Rightarrow>
         if ae_ready ae then Inr (upd_conn c (\<lambda>c. c\<lparr>c_remote_mac := mac64 (ae_mac ae)\<rparr>) s, 0)
         else Inr (s\<lparr>arp_table := ae_upd a (\<lambda>ae. ae\<lparr>ae_compl := c # ae_compl ae\<rparr>) (arp_table s)\<rparr>, 1)
     | None \<Rightarrow>
         (case malloc s of (None, s) \<Rightarrow> Inr (s, -1)
          | (Some a, s) \<Rightarrow>
              bind_res (request_tx e ip s) (\<lambda>(s, _).
              bind_res (k_timeout_arm (arp_to_obj a) (arp_to (cfg s)) TO_ARP_REQ s) (\<lambda>s.
              Inr (s\<lparr>arp_table := (a, \<lparr>ae_ready = False, ae_ip = ip, ae_mac = 0, ae_compl = [c],
                  ae_timeout = arp_to (cfg s)\<rparr>) # arp_table s\<rparr>, 1)))))"

text \<open>The waiting connections: the address (\<open>None\<close> leaves it), the status, the completion queue.\<close>

fun arp_notify :: "48 word option \<Rightarrow> int \<Rightarrow> nat list \<Rightarrow> kst \<Rightarrow> kst res" where
  "arp_notify m st [] s = Inr s"
| "arp_notify m st (c # cs) s =
    bind_res (deref (conns s) c) (\<lambda>_.
      let s = upd_conn c (\<lambda>x. x\<lparr>c_remote_mac := (case m of None \<Rightarrow> c_remote_mac x
                 | Some mac \<Rightarrow> le64_of (be48_bytes mac @ drop 6 (le64_bytes (c_remote_mac x)))), comp_status := st\<rparr>) s in
      arp_notify m st cs (s\<lparr>async_q := nbqueue_enq (async_q s) c\<rparr>))"

definition arp_valid :: "pkt_arp \<Rightarrow> bool" where
  "arp_valid p \<longleftrightarrow> ar_htype p = 1 \<and> ar_ptype p = 0x0800 \<and> ar_hlen p = 6 \<and> ar_plen p = 4"

definition arp_reply :: "pkt_arp \<Rightarrow> kst \<Rightarrow> kst res" where
  "arp_reply p s =
    (case ae_lookup (arp_table s) (ar_spa p) of None \<Rightarrow> Inr s
     | Some (a, ae) \<Rightarrow>
         bind_res (if ae_ready ae then Inr s else util_timeout_disarm s (arp_to_obj a)) (\<lambda>s.
         bind_res (arp_notify (Some (ar_sha p)) 0 (ae_compl ae)
             (s\<lparr>arp_table := ae_upd a (\<lambda>ae. ae\<lparr>ae_mac := ar_sha p, ae_ready := True\<rparr>) (arp_table s)\<rparr>)) (\<lambda>s.
         Inr (s\<lparr>arp_table := ae_upd a (\<lambda>ae. ae\<lparr>ae_compl := []\<rparr>) (arp_table s)\<rparr>))))"

definition arp_packet :: "kenv \<Rightarrow> pkt_arp \<Rightarrow> kst \<Rightarrow> kst res" where
  "arp_packet e p s =
    (if \<not> arp_valid p then Inr s
     else if ar_oper p = ARP_OPER_REQUEST then
       (if ar_tpa p \<noteq> cf_ip (cfg s) then Inr s
        else bind_res (response_tx e (ar_sha p) (ar_spa p) s) (\<lambda>(s, _). Inr s))
     else if ar_oper p = ARP_OPER_REPLY then arp_reply p s
     else Inr s)"

text \<open>A packet of the local network interface; replies are ignored.\<close>

definition arp_packet_tap :: "kenv \<Rightarrow> pkt_arp \<Rightarrow> kst \<Rightarrow> kst" where
  "arp_packet_tap e p s =
    (if \<not> arp_valid p then s
     else if ar_oper p = ARP_OPER_REQUEST then
       (if ae_lookup (arp_table s) (ar_spa p) = None then s
        else response_tx_tap e (ar_tha p) (ar_sha p) (ar_tpa p) (ar_spa p) s)
     else s)"

definition arp_timeout :: "kenv \<Rightarrow> nat \<Rightarrow> kst \<Rightarrow> kst res" where
  "arp_timeout e a s =
    (case map_of (arp_table s) a of None \<Rightarrow> Inl Oob
     | Some ae \<Rightarrow>
         if ae_ready ae then Inl Abort
         else if ae_timeout ae * 2 \<ge> arp_to_max (cfg s) then
           bind_res (arp_notify None (-1) (ae_compl ae) s) (\<lambda>s.
             Inr (s\<lparr>arp_table := filter (\<lambda>(b, _). b \<noteq> a) (arp_table s)\<rparr>))
         else
           bind_res (request_tx e (ae_ip ae) s) (\<lambda>(s, _).
             k_timeout_arm (arp_to_obj a) (ae_timeout ae * 2) TO_ARP_REQ
               (s\<lparr>arp_table := ae_upd a (\<lambda>ae. ae\<lparr>ae_timeout := ae_timeout ae * 2\<rparr>) (arp_table s)\<rparr>)))"

section \<open>Routing\<close>

definition prefix_len_mask :: "u8 \<Rightarrow> u32" where
  "prefix_len_mask len = NOT (ucast (push_bit (32 - unat len) 1 - 1 :: u64))"

fun route_entries :: "config_route list \<Rightarrow> route list option" where
  "route_entries [] = Some []"
| "route_entries (cr # crs) =
    (let mask = prefix_len_mask (cr_prefix cr) in
     if mask AND cr_ip cr \<noteq> cr_ip cr then None
     else map_option (\<lambda>rs. \<lparr>rt_dest = cr_ip cr, rt_mask = mask, rt_hop = cr_hop cr\<rparr> # rs) (route_entries crs))"

definition routing_init :: "config_route list \<Rightarrow> kst \<Rightarrow> kst option" where
  "routing_init crs s =
    (let mask = prefix_len_mask (cf_ip_prefix (cfg s)) in
     map_option (\<lambda>rs. s\<lparr>routing_table := \<lparr>rt_dest = cf_ip (cfg s) AND mask, rt_mask = mask, rt_hop = 0\<rparr> # rs\<rparr>) (route_entries crs))"

fun resolve :: "route list \<Rightarrow> u32 \<Rightarrow> route option" where
  "resolve [] ip = None"
| "resolve (r # rs) ip = (if rt_dest r = ip AND rt_mask r then Some r else resolve rs ip)"

text \<open>The loop over the next hops.\<close>

definition next_hop :: "route list \<Rightarrow> u32 \<Rightarrow> u32 res" where
  "next_hop rs = while_res (\<lambda>ip. case resolve rs ip of None \<Rightarrow> False | Some r \<Rightarrow> rt_hop r \<noteq> 0)
     (\<lambda>ip. case resolve rs ip of None \<Rightarrow> ip | Some r \<Rightarrow> rt_hop r)"

definition routing_resolve :: "kenv \<Rightarrow> nat \<Rightarrow> u32 \<Rightarrow> kst \<Rightarrow> (kst \<times> int) res" where
  "routing_resolve e c ip s =
    bind_res (next_hop (routing_table s) ip) (\<lambda>ip.
      if resolve (routing_table s) ip = None then Inr (s, -1) else arp_request e c ip s)"

end
