(* ===== verification/KernelTcp.thy ===== *)
theory KernelTcp
  imports ArpRouting
begin

unbundle bit_operations_syntax

text \<open>
  The slow path of TCP (kernel/tcp.c) and its messages to applications (the outgoing half of kernel/appif_ctx.c): connections
  in their handshakes, listeners with their backlog, ports, handshake timeouts, control segments and TCP options.
\<close>

abbreviation KTCP_MSS :: u16 where "KTCP_MSS \<equiv> 1460"
abbreviation PORT_FIRST_EPH :: nat where "PORT_FIRST_EPH \<equiv> 49152"
abbreviation LISTEN_MULTI_MAX :: nat where "LISTEN_MULTI_MAX \<equiv> 32"
abbreviation BACKLOG_BUF :: nat where "BACKLOG_BUF \<equiv> 126"

section \<open>TCP options\<close>

text \<open>\<open>struct tcp_opts\<close>: offsets of the options behind the fixed headers.\<close>

record tcp_opts =
  opt_mss :: "nat option"
  opt_ts :: "nat option"

text \<open>The loop of \<open>parse_options\<close>, with fuel: \<open>None\<close> is "still running", \<open>Some None\<close> the error.\<close>

fun parse_opt_loop :: "nat \<Rightarrow> u8 list \<Rightarrow> nat \<Rightarrow> nat \<Rightarrow> tcp_opts \<Rightarrow> tcp_opts option option" where
  "parse_opt_loop 0 opt opts_len off os = None"
| "parse_opt_loop (Suc fuel) opt opts_len off os =
    (if off < opts_len then
       let opt_kind = opt ! off; opt_avail = opts_len - off in
       if opt_kind = 0 then Some (Some os)
       else if opt_kind = 1 then parse_opt_loop fuel opt opts_len (off + 1) os
       else if opt_avail < 2 then Some None
       else
         let opt_len = unat (opt ! (off + 1)) in
         if opt_kind = 2 then
           if opt_len \<noteq> MSS_OPT_SZ then Some None
           else parse_opt_loop fuel opt opts_len (off + opt_len) (os\<lparr>opt_mss := Some off\<rparr>)
         else if opt_kind = 8 then
           if opt_len \<noteq> TS_OPT_SZ then Some None
           else parse_opt_loop fuel opt opts_len (off + opt_len) (os\<lparr>opt_ts := Some off\<rparr>)
         else parse_opt_loop fuel opt opts_len (off + opt_len) os
     else Some (Some os))"

abbreviation OPT_FUEL :: nat where "OPT_FUEL \<equiv> 41"

definition parse_options :: "pkt_tcp \<Rightarrow> u16 \<Rightarrow> tcp_opts option res" where
  "parse_options p len =
    (let opts_len = TCPH_HDRLEN p * 4 - 20 in
     if TCPH_HDRLEN p < 5 \<or> of_nat opts_len > (ucast len - of_nat PKT_TCP_SZ :: u64) then Inr None
     else case parse_opt_loop OPT_FUEL (pbody p) opts_len 0 \<lparr>opt_mss = None, opt_ts = None\<rparr> of
       None \<Rightarrow> Inl Diverge | Some r \<Rightarrow> Inr r)"

text \<open>\<open>opts->ts->ts_val\<close> and \<open>opts->ts->ts_ecr\<close>\<close>

definition read_be32 :: "u8 list \<Rightarrow> nat \<Rightarrow> u32 res" where
  "read_be32 bs off = (if off + 4 \<le> length bs then Inr (be32_of (slice bs off 4)) else Inl Oob)"

section \<open>Control segments\<close>

text \<open>Headers and options as \<open>send_control_raw\<close> and \<open>send_control_tap_raw\<close> build them; \<open>mss\<close> 0 leaves the option out.\<close>

definition control_opts :: "(u32 \<times> u32) option \<Rightarrow> u16 \<Rightarrow> u8 list" where
  "control_opts ts mss =
    (let body = (if mss = 0 then [] else [2, 4] @ be16_bytes mss) @
         (case ts of None \<Rightarrow> [] | Some (val, ecr) \<Rightarrow> [8, 10] @ be32_bytes val @ be32_bytes ecr) in
     body @ (if ts = None then [] else [0, 0]))"

definition control_frame :: "kenv \<Rightarrow> 48 word \<Rightarrow> 48 word \<Rightarrow> u32 \<Rightarrow> u32 \<Rightarrow> u16 \<Rightarrow> u16 \<Rightarrow> u32 \<Rightarrow> u32 \<Rightarrow> u16 \<Rightarrow>
    (u32 \<times> u32) option \<Rightarrow> u16 \<Rightarrow> pkt_tcp" where
  "control_frame e smac dmac lip rip rport lport lseq rseq flags ts mss =
    (let opts = control_opts ts mss; len = PKT_TCP_SZ + length opts;
         p = \<lparr>eth_dest = dmac, eth_src = smac, eth_type = ETH_TYPE_IP, ip_v_hl = 0x45, ip_tos = 0,
              ip_len = of_nat (len - ETH_HDR_SZ), ip_id = 3, ip_offset = 0, ip_ttl = 0xff, ip_proto = IP_PROTO_TCP,
              ip_chksum = 0, ip_src = lip, ip_dest = rip, tcp_src = lport, tcp_dest = rport, tcp_seqno = lseq,
              tcp_ackno = rseq, tcp_hdrlen_flags = TCPH_HDRLEN_FLAGS (5 + length opts div 4) flags, tcp_wnd = 11680,
              tcp_chksum = 0, tcp_urgp = 0, pbody = opts\<rparr>;
         p = p\<lparr>ip_chksum := ip_cksum e p\<rparr> in
     p\<lparr>tcp_chksum := tcp_cksum e p\<rparr>)"

text \<open>\<open>memset(opt_ts, 0, optlen)\<close> starts behind the MSS option and so clears four bytes behind the frame as well.\<close>

definition send_control_raw :: "kenv \<Rightarrow> u64 \<Rightarrow> u32 \<Rightarrow> u16 \<Rightarrow> u16 \<Rightarrow> u32 \<Rightarrow> u32 \<Rightarrow> u16 \<Rightarrow> u32 option \<Rightarrow> u16 \<Rightarrow> kst \<Rightarrow> (kst \<times> int) res" where
  "send_control_raw e rmac rip rport lport lseq rseq flags ts_echo mss s =
    (let p = control_frame e (mac48 (info_mac e)) (mac48 rmac) (cf_ip (cfg s)) rip rport lport lseq rseq flags
           (map_option (\<lambda>t. (0, t)) ts_echo) mss in
     send_frame (pkt_bytes p @ (if ts_echo \<noteq> None \<and> mss \<noteq> 0 then [0, 0, 0, 0] else [])) (PKT_TCP_SZ + length (pbody p)) s)"

definition send_control :: "kenv \<Rightarrow> connection \<Rightarrow> u16 \<Rightarrow> u32 option \<Rightarrow> u16 \<Rightarrow> kst \<Rightarrow> (kst \<times> int) res" where
  "send_control e c flags ts_echo mss s =
    send_control_raw e (c_remote_mac c) (c_remote_ip c) (c_remote_port c) (c_local_port c) (c_local_seq c) (c_remote_seq c)
      flags ts_echo mss s"

definition send_control_tap_rev :: "kenv \<Rightarrow> connection \<Rightarrow> u16 \<Rightarrow> u32 \<Rightarrow> u32 \<Rightarrow> u16 \<Rightarrow> kst \<Rightarrow> kst" where
  "send_control_tap_rev e c flags ts_echo ecr_echo mss s =
    tap_write e (pkt_bytes (control_frame e (mac48 (c_remote_mac c)) (mac48 (c_remote_mac c)) (c_remote_ip c) (c_local_ip c)
      (c_local_port c) (c_remote_port c) (c_remote_seq c) (c_linux_seq c) flags (Some (ts_echo, ecr_echo)) mss)) s"

definition send_reset :: "kenv \<Rightarrow> pkt_tcp \<Rightarrow> tcp_opts \<Rightarrow> kst \<Rightarrow> (kst \<times> int) res" where
  "send_reset e p os s =
    bind_res (case opt_ts os of None \<Rightarrow> Inr None | Some o' \<Rightarrow> bind_res (read_be32 (pbody p) (o' + 2)) (\<lambda>t. Inr (Some t))) (\<lambda>ts.
      send_control_raw e (mac64 (eth_src p)) (ip_src p) (tcp_src p) (tcp_dest p) (tcp_ackno p) (tcp_seqno p + 1)
        (TCP_RST OR TCP_ACK) ts 0 s)"

section \<open>Ports and connection objects\<close>

text \<open>The port behind \<open>p\<close> in the range of ephemeral ports, as a \<open>uint16_t\<close>.\<close>

definition next_port :: "u16 \<Rightarrow> u16" where
  "next_port p = of_nat (if unat p + 1 < PORT_FIRST_EPH then PORT_FIRST_EPH else unat p + 1)"

text \<open>\<open>wrapped\<close> never changes: the search ends only at an unused port.\<close>

definition port_alloc :: "kst \<Rightarrow> (u16 \<times> kst) res" where
  "port_alloc s =
    bind_res (while_res (\<lambda>p. ports s p \<noteq> Port_unused) next_port (port_eph_hint s)) (\<lambda>p.
      Inr (p, s\<lparr>port_eph_hint := next_port p\<rparr>))"

definition conn_alloc :: "kst \<Rightarrow> nat option \<times> kst" where
  "conn_alloc s =
    (case malloc s of (None, s) \<Rightarrow> (None, s)
     | (Some c, s) \<Rightarrow>
         (case k_packetmem_alloc (tcp_rxbuf_len (cfg s)) s of (None, s) \<Rightarrow> (None, s)
          | (Some rx, s) \<Rightarrow>
              (case k_packetmem_alloc (tcp_txbuf_len (cfg s)) s of (None, s) \<Rightarrow> (None, k_packetmem_free rx s)
               | (Some tx, s) \<Rightarrow>
                   (Some c, s\<lparr>conns := (conns s)(c \<mapsto> (junk s)\<lparr>c_rx_handle := rx, c_tx_handle := tx,
                      c_rx_len := ucast (tcp_rxbuf_len (cfg s)), c_tx_len := ucast (tcp_txbuf_len (cfg s)),
                      c_to_armed := False\<rparr>)\<rparr>))))"

definition conn_free :: "nat \<Rightarrow> kst \<Rightarrow> kst res" where
  "conn_free c s =
    bind_res (deref (conns s) c) (\<lambda>x.
      let s = k_packetmem_free (c_rx_handle x) (k_packetmem_free (c_tx_handle x) s) in
      Inr (s\<lparr>conns := (conns s)(c := None)\<rparr>))"

definition tcp_destroy :: "nat \<Rightarrow> kst \<Rightarrow> kst res" where
  "tcp_destroy c s =
    bind_res (deref (conns s) c) (\<lambda>x. if c_status x \<noteq> CONN_FAILED then Inl Assert_fail else conn_free c s)"

definition conn_matches :: "pkt_tcp \<Rightarrow> connection \<Rightarrow> bool" where
  "conn_matches p c \<longleftrightarrow> ip_src p = c_remote_ip c \<and> tcp_dest p = c_local_port c \<and> tcp_src p = c_remote_port c"

definition conn_matches_rev :: "pkt_tcp \<Rightarrow> connection \<Rightarrow> bool" where
  "conn_matches_rev p c \<longleftrightarrow> ip_dest p = c_remote_ip c \<and> tcp_src p = c_local_port c \<and> tcp_dest p = c_remote_port c"

fun conn_search :: "(connection \<Rightarrow> bool) \<Rightarrow> (nat \<Rightarrow> connection option) \<Rightarrow> nat list \<Rightarrow> nat option res" where
  "conn_search Q h [] = Inr None"
| "conn_search Q h (c # cs) = bind_res (deref h c) (\<lambda>x. if Q x then Inr (Some c) else conn_search Q h cs)"

definition conn_lookup :: "pkt_tcp \<Rightarrow> kst \<Rightarrow> nat option res" where
  "conn_lookup p s = conn_search (conn_matches p) (conns s) (tcp_conns s)"

definition conn_lookup_rev :: "pkt_tcp \<Rightarrow> kst \<Rightarrow> nat option res" where
  "conn_lookup_rev p s = conn_search (conn_matches_rev p) (conns s) (tcp_conns s)"

definition conn_register :: "nat \<Rightarrow> kst \<Rightarrow> kst" where
  "conn_register c s = s\<lparr>tcp_conns := c # tcp_conns s\<rparr>"

section \<open>Timeouts\<close>

definition conn_timeout_arm :: "nat \<Rightarrow> kst \<Rightarrow> kst res" where
  "conn_timeout_arm c s =
    bind_res (deref (conns s) c) (\<lambda>x.
      if c_to_armed x then Inl Assert_fail
      else if c_timeout x = 0 then Inl Div_zero
      else
        let (r, seed) = utils_rng_gen32 (krng s) in
        k_timeout_arm (conn_to c) (c_timeout x div 2 + r mod c_timeout x) TO_TCP_HANDSHAKE
          (upd_conn c (\<lambda>x. x\<lparr>c_to_armed := True\<rparr>) (s\<lparr>krng := seed\<rparr>)))"

definition conn_timeout_disarm :: "nat \<Rightarrow> kst \<Rightarrow> kst res" where
  "conn_timeout_disarm c s =
    bind_res (deref (conns s) c) (\<lambda>x.
      if \<not> c_to_armed x then Inl Assert_fail
      else util_timeout_disarm (upd_conn c (\<lambda>x. x\<lparr>c_to_armed := False\<rparr>) s) (conn_to c))"

end
