(* ===== verification/KernelConn.thy ===== *)
theory KernelConn
  imports KernelTcp
begin

unbundle bit_operations_syntax

text \<open>
  Connection establishment in the kernel (kernel/tcp.c) and what it tells the applications (kernel/appif_ctx.c): active and
  passive opens, SYN and SYN-ACK processing, handshake timeouts, failures, the backlog of a listener, and the packets of the
  local network interface (kernel/tap.c).
\<close>

section \<open>Messages to applications\<close>

abbreviation KERNEL_APPIN_STATUS_CONN_MOVE :: u8 where "KERNEL_APPIN_STATUS_CONN_MOVE \<equiv> 2"
abbreviation KERNEL_APPIN_STATUS_LISTEN_OPEN :: u8 where "KERNEL_APPIN_STATUS_LISTEN_OPEN \<equiv> 3"
abbreviation KERNEL_APPIN_CONN_OPENED :: u8 where "KERNEL_APPIN_CONN_OPENED \<equiv> 6"
abbreviation KERNEL_APPIN_LISTEN_NEWCONN :: u8 where "KERNEL_APPIN_LISTEN_NEWCONN \<equiv> 7"
abbreviation KERNEL_APPIN_ACCEPTED_CONN :: u8 where "KERNEL_APPIN_ACCEPTED_CONN \<equiv> 8"
abbreviation APPQ_SZ :: nat where "APPQ_SZ \<equiv> 64"

definition le32_int :: "int \<Rightarrow> u8 list" where
  "le32_int i = le32_bytes (of_int i)"

definition appif_ctx_kick :: "nat \<Rightarrow> kst \<Rightarrow> kst res" where
  "appif_ctx_kick a s =
    bind_res (deref (actxs s) a) (\<lambda>x.
      if ac_evfd x = 0 then Inl Assert_fail
      else Inr (upd_actx a (\<lambda>x. x\<lparr>ac_kicks := ac_kicks x + (if time_us s - ac_last_ts x > POLL_CYCLE then 1 else 0),
             ac_last_ts := time_us s\<rparr>) s))"

definition kout_addr :: "app_ctx \<Rightarrow> nat" where
  "kout_addr x = unat (ac_kout_base x) + unat (ac_kout_pos x) * APPQ_SZ"

definition kout_next :: "app_ctx \<Rightarrow> app_ctx" where
  "kout_next x = x\<lparr>ac_kout_pos := (if ac_kout_pos x + 1 \<ge> ac_kout_len x then 0 else ac_kout_pos x + 1)\<rparr>"

text \<open>The type of an entry, its last byte, is written behind its fields.\<close>

definition put_entry :: "nat \<Rightarrow> u8 list \<Rightarrow> u8 \<Rightarrow> u8 list \<Rightarrow> u8 list" where
  "put_entry a bs ty m = put (put m a bs) (a + 63) [ty]"

text \<open>The fields of a successful \<open>conn_opened\<close> and \<open>accept_connection\<close> message.\<close>

definition conn_opened_fields :: "configuration \<Rightarrow> connection \<Rightarrow> u8 list" where
  "conn_opened_fields cf c = le64_bytes (c_opaque c) @ le64_bytes (h_base (c_rx_handle c)) @ le64_bytes (h_base (c_tx_handle c)) @
     le32_bytes (c_rx_len c) @ le32_bytes (c_tx_len c) @ le32_int 0 @ le32_bytes (c_remote_seq c) @ le32_bytes (c_local_seq c) @
     le32_bytes (c_flow_id c) @ le32_bytes (cf_ip cf) @ le16_bytes (c_local_port c) @ le16_bytes (ucast (c_fn_core c))"

definition accept_conn_fields :: "configuration \<Rightarrow> connection \<Rightarrow> u8 list" where
  "accept_conn_fields cf c = le64_bytes (c_opaque c) @ le64_bytes (h_base (c_rx_handle c)) @ le64_bytes (h_base (c_tx_handle c)) @
     le32_bytes (c_rx_len c) @ le32_bytes (c_tx_len c) @ le32_int 0 @ le32_bytes (c_remote_seq c) @ le32_bytes (c_local_seq c) @
     le32_bytes (c_flow_id c) @ le32_bytes (cf_ip cf) @ le32_bytes (c_remote_ip c) @ le16_bytes (c_remote_port c) @
     le16_bytes (ucast (c_fn_core c))"

text \<open>A message to the context of connection \<open>c\<close>: dropped when its queue is full.  \<open>ok\<close> builds the fields of status 0; a
  failed connection leaves \<open>opaque\<close> and \<open>status\<close> and is destroyed.\<close>

definition appif_conn_msg :: "(configuration \<Rightarrow> connection \<Rightarrow> u8 list) \<Rightarrow> u8 \<Rightarrow> nat \<Rightarrow> int \<Rightarrow> kst \<Rightarrow> kst res" where
  "appif_conn_msg ok ty c status s =
    bind_res (deref (conns s) c) (\<lambda>x.
    bind_res (deref (actxs s) (c_ctx x)) (\<lambda>ctx.
      let a = kout_addr ctx in
      if a + APPQ_SZ > length (kmem s) then Inl Oob
      else if kmem s ! (a + 63) \<noteq> 0 then Inr s
      else
        bind_res
          (if status = 0 then Inr (upd_dmem (\<lambda>m. put m a (ok (cfg s) x)) s)
           else tcp_destroy c (upd_dmem (\<lambda>m. put (put m a (le64_bytes (c_opaque x))) (a + 32) (le32_int status)) s)) (\<lambda>s.
        bind_res (appif_ctx_kick (c_ctx x) (upd_dmem (\<lambda>m. put m (a + 63) [ty]) s)) (\<lambda>s.
        Inr (upd_actx (c_ctx x) (\<lambda>z. z\<lparr>ac_kout_pos := ac_kout_pos (kout_next ctx)\<rparr>) s)))))"

definition appif_conn_opened :: "nat \<Rightarrow> int \<Rightarrow> kst \<Rightarrow> kst res" where
  "appif_conn_opened c status s = appif_conn_msg conn_opened_fields KERNEL_APPIN_CONN_OPENED c status s"

text \<open>The context's application, by position.\<close>

definition app_of :: "kst \<Rightarrow> nat \<Rightarrow> nat option" where
  "app_of s a = (case filter (\<lambda>i. a \<in> set (app_contexts (applications s ! i))) [0..<length (applications s)] of
     [] \<Rightarrow> None | i # _ \<Rightarrow> Some i)"

definition app_add_conn :: "nat \<Rightarrow> nat \<Rightarrow> kst \<Rightarrow> kst" where
  "app_add_conn a c s = (case app_of s a of None \<Rightarrow> s
     | Some i \<Rightarrow> s\<lparr>applications := (applications s)[i := (applications s ! i)\<lparr>app_conns := c # app_conns (applications s ! i)\<rparr>]\<rparr>)"

text \<open>An accepted connection enters its application's list when its message is written.\<close>

definition appif_accept_conn :: "nat \<Rightarrow> int \<Rightarrow> kst \<Rightarrow> kst res" where
  "appif_accept_conn c status s =
    bind_res (deref (conns s) c) (\<lambda>x.
    bind_res (deref (actxs s) (c_ctx x)) (\<lambda>ctx.
      let room = (kout_addr ctx + APPQ_SZ \<le> length (kmem s) \<and> kmem s ! (kout_addr ctx + 63) = 0) in
      appif_conn_msg accept_conn_fields KERNEL_APPIN_ACCEPTED_CONN c status
        (if room \<and> status = 0 then app_add_conn (c_ctx x) c s else s)))"

definition appif_listen_newconn :: "listener \<Rightarrow> u32 \<Rightarrow> u16 \<Rightarrow> kst \<Rightarrow> kst res" where
  "appif_listen_newconn l rip rport s =
    bind_res (deref (actxs s) (ls_ctx l)) (\<lambda>ctx.
      let a = kout_addr ctx in
      if a + APPQ_SZ > length (kmem s) then Inl Oob
      else if kmem s ! (a + 63) \<noteq> 0 then Inr s
      else
        bind_res (appif_ctx_kick (ls_ctx l)
            (upd_dmem (put_entry a (le64_bytes (ls_opaque l) @ le32_bytes rip @ le16_bytes rport) KERNEL_APPIN_LISTEN_NEWCONN) s)) (\<lambda>s.
        Inr (upd_actx (ls_ctx l) (\<lambda>z. z\<lparr>ac_kout_pos := ac_kout_pos (kout_next ctx)\<rparr>) s)))"

section \<open>Failures\<close>

text \<open>The body of the loop ends with \<open>return\<close>: only the first connection of the list is looked at.\<close>

definition conn_failed :: "nat \<Rightarrow> int \<Rightarrow> kst \<Rightarrow> kst res" where
  "conn_failed c status s =
    (case tcp_conns s of [] \<Rightarrow> Inl Abort
     | c_i # rest \<Rightarrow>
         if c_i = c then
           bind_res (deref (conns s) c) (\<lambda>x.
           bind_res (if c_to_armed x then conn_timeout_disarm c (s\<lparr>tcp_conns := rest\<rparr>) else Inr (s\<lparr>tcp_conns := rest\<rparr>)) (\<lambda>s.
             appif_conn_opened c status (upd_conn c (\<lambda>x. x\<lparr>c_status := CONN_FAILED\<rparr>) s)))
         else Inr s)"

section \<open>Active open\<close>

text \<open>\<open>send_control\<close> with the connection's present fields; its result is not looked at.\<close>

definition conn_send :: "kenv \<Rightarrow> nat \<Rightarrow> u16 \<Rightarrow> u32 option \<Rightarrow> u16 \<Rightarrow> kst \<Rightarrow> kst res" where
  "conn_send e c flags ts_echo mss s =
    bind_res (deref (conns s) c) (\<lambda>x. bind_res (send_control e x flags ts_echo mss s) (\<lambda>(s, _). Inr s))"

definition conn_arp_done :: "kenv \<Rightarrow> nat \<Rightarrow> kst \<Rightarrow> kst res" where
  "conn_arp_done e c s =
    bind_res (conn_timeout_arm c (upd_conn c (\<lambda>x. x\<lparr>c_status := CONN_SYN_SENT, c_to_attempts := 0,
        c_timeout := tcp_handshake_to (cfg s)\<rparr>) s)) (\<lambda>s.
      conn_send e c (TCP_SYN OR TCP_ECE OR TCP_CWR) (Some 0) KTCP_MSS s)"

text \<open>The state, the result and the connection (\<open>None\<close> when the call failed).\<close>

definition tcp_open :: "kenv \<Rightarrow> nat \<Rightarrow> u64 \<Rightarrow> u32 \<Rightarrow> u16 \<Rightarrow> u32 \<Rightarrow> bool \<Rightarrow> bool \<Rightarrow> kst \<Rightarrow> (kst \<times> nat option) res" where
  "tcp_open e ctx opaque' rip rport db objconn objnohash s =
    (case conn_alloc s of (None, s) \<Rightarrow> Inr (s, None)
     | (Some c, s) \<Rightarrow>
         bind_res (port_alloc s) (\<lambda>(lport, s).
           if lport = 0 then bind_res (conn_free c s) (\<lambda>s. Inr (s, None))
           else
             let s = upd_conn c (\<lambda>x. x\<lparr>c_ctx := ctx, c_opaque := opaque', c_status := CONN_ARP_PENDING, c_remote_ip := rip,
                   c_local_ip := cf_ip (cfg s), c_remote_port := rport, c_local_port := lport, c_local_seq := 0, c_remote_seq := 0,
                   cnt_tx_pending := 0, c_db_id := db, c_flags := (if objconn then NICIF_CONN_OBJCONN else 0) OR
                     (if objnohash then NICIF_CONN_OBJNOHASH else 0), comp_status := 0\<rparr>) s in
             bind_res (routing_resolve e c rip s) (\<lambda>(s, ret).
               if ret < 0 then bind_res (conn_free c s) (\<lambda>s. Inr (s, None))
               else
                 bind_res (if ret = 0 then conn_arp_done e c (conn_register c s) else Inr (conn_register c s)) (\<lambda>s.
                 Inr (s\<lparr>ports := (ports s)(lport := Port_conn c)\<rparr>, Some c)))))"

text \<open>One completion, and the loop that empties the queue.\<close>

definition tcp_completion :: "kenv \<Rightarrow> nat \<Rightarrow> kst \<Rightarrow> kst res" where
  "tcp_completion e c s =
    bind_res (deref (conns s) c) (\<lambda>x.
      if c_status x = CONN_ARP_PENDING then
        (if comp_status x \<noteq> 0 then conn_failed c (comp_status x) s else conn_arp_done e c s)
      else Inr s)"

fun tcp_poll_loop :: "nat \<Rightarrow> kenv \<Rightarrow> kst \<Rightarrow> kst res" where
  "tcp_poll_loop fuel e s =
    (case nbqueue_deq (async_q s) of None \<Rightarrow> Inr s
     | Some (c, q) \<Rightarrow>
         (case fuel of 0 \<Rightarrow> Inl Diverge
          | Suc fuel \<Rightarrow> bind_res (tcp_completion e c (s\<lparr>async_q := q\<rparr>)) (tcp_poll_loop fuel e)))"

declare tcp_poll_loop.simps [simp del]

definition tcp_poll :: "kenv \<Rightarrow> kst \<Rightarrow> kst res" where
  "tcp_poll e s = tcp_poll_loop (length (async_q s)) e s"

definition tcp_timeout :: "kenv \<Rightarrow> nat \<Rightarrow> u8 \<Rightarrow> kst \<Rightarrow> kst res" where
  "tcp_timeout e c ty s =
    bind_res (deref (conns s) c) (\<lambda>x.
      if \<not> c_to_armed x then Inl Assert_fail
      else if ty \<noteq> TO_TCP_HANDSHAKE \<or> c_status x \<noteq> CONN_SYN_SENT then Inl Abort
      else
        let s = upd_conn c (\<lambda>x. x\<lparr>c_to_armed := False, c_to_attempts := c_to_attempts x + 1\<rparr>) s in
        if c_to_attempts x + 1 > tcp_handshake_retries (cfg s) then conn_failed c (-1) s
        else
          bind_res (conn_timeout_arm c (upd_conn c (\<lambda>x. x\<lparr>c_timeout := c_timeout x * 2\<rparr>) s)) (\<lambda>s.
            conn_send e c (TCP_SYN OR TCP_ECE OR TCP_CWR) (Some 0) KTCP_MSS s))"

text \<open>The call of \<open>nicif_connection_add\<close> with the connection's fields; \<open>lseq\<close> is the local sequence number.\<close>

definition conn_flow_args :: "connection \<Rightarrow> u32 \<Rightarrow> flow_args" where
  "conn_flow_args c lseq = \<lparr>fa_db = c_db_id c, fa_mac = c_remote_mac c, fa_ip_local = c_local_ip c, fa_port_local = c_local_port c,
     fa_ip_remote = c_remote_ip c, fa_port_remote = c_remote_port c, fa_rx_base = h_base (c_rx_handle c), fa_rx_len = c_rx_len c,
     fa_tx_base = h_base (c_tx_handle c), fa_tx_len = c_tx_len c, fa_remote_seq = c_remote_seq c, fa_local_seq = lseq,
     fa_opaque = c_opaque c, fa_flags = c_flags c, fa_rate = cc_rate c, fa_core = c_fn_core c, fa_group = c_flow_group c\<rparr>"

definition conn_add_flow :: "kenv \<Rightarrow> nat \<Rightarrow> u32 \<Rightarrow> kst \<Rightarrow> (kst \<times> bool) res" where
  "conn_add_flow e c off s =
    bind_res (deref (conns s) c) (\<lambda>x.
    bind_res (nicif_connection_add (fenv e) (kn s) (conn_flow_args x (c_local_seq x + off))) (\<lambda>(n, r).
      case r of None \<Rightarrow> Inr (s\<lparr>kn := n\<rparr>, False)
      | Some f \<Rightarrow> Inr (upd_conn c (\<lambda>x. x\<lparr>c_flow_id := f\<rparr>) (s\<lparr>kn := n\<rparr>), True)))"

definition conn_cc_init :: "nat \<Rightarrow> kst \<Rightarrow> kst res" where
  "conn_cc_init c s =
    bind_res (deref (conns s) c) (\<lambda>x. bind_res (cc_conn_init (cfg s) (cur_ts s) x) (\<lambda>x. Inr (upd_conn c (\<lambda>_. x) s)))"

text \<open>The result is the state and the error, 0 or -1.\<close>

definition conn_syn_sent_packet :: "kenv \<Rightarrow> nat \<Rightarrow> pkt_tcp \<Rightarrow> tcp_opts \<Rightarrow> kst \<Rightarrow> (kst \<times> int) res" where
  "conn_syn_sent_packet e c p os s =
    (let ecn_flags = TCPH_FLAGS p AND (TCP_ECE OR TCP_CWR) in
     bind_res (conn_timeout_disarm c s) (\<lambda>s.
       if TCPH_FLAGS p AND (TCP_SYN OR TCP_ACK) \<noteq> TCP_SYN OR TCP_ACK then Inr (s, -1)
       else case opt_ts os of None \<Rightarrow> Inr (s, -1)
       | Some o' \<Rightarrow>
           bind_res (read_be32 (pbody p) (o' + 2)) (\<lambda>ts.
           bind_res (conn_cc_init c (upd_conn c (\<lambda>x. x\<lparr>c_remote_seq := tcp_seqno p + 1, c_local_seq := tcp_ackno p, c_syn_ts := ts,
               c_flags := (if ecn_flags = TCP_ECE then c_flags x OR NICIF_CONN_ECN else c_flags x)\<rparr>) s)) (\<lambda>s.
           bind_res (conn_add_flow e c 0 (upd_conn c (\<lambda>x. x\<lparr>comp_status := 0\<rparr>) s)) (\<lambda>(s, ok).
             if \<not> ok then Inr (s, -1)
             else
               bind_res (conn_send e c TCP_ACK (Some ts) 0 (upd_conn c (\<lambda>x. x\<lparr>c_status := CONN_OPEN\<rparr>) s)) (\<lambda>s.
               bind_res (appif_conn_opened c 0 s) (\<lambda>s. Inr (s, 0))))))))"

text \<open>\<open>ecn_flags\<close> is 0 when the flags of a repeated SYN are compared.\<close>

definition conn_packet :: "kenv \<Rightarrow> nat \<Rightarrow> pkt_tcp \<Rightarrow> tcp_opts \<Rightarrow> u32 \<Rightarrow> u16 \<Rightarrow> kst \<Rightarrow> kst res" where
  "conn_packet e c p os core fg s =
    bind_res (deref (conns s) c) (\<lambda>x.
      if c_status x = CONN_SYN_SENT then
        bind_res (conn_syn_sent_packet e c p os (upd_conn c (\<lambda>x. x\<lparr>c_fn_core := core, c_flow_group := fg\<rparr>) s)) (\<lambda>(s, ret).
          if ret \<noteq> 0 then conn_failed c ret s else Inr s)
      else if c_status x = CONN_OPEN \<and> TCPH_FLAGS p = TCP_SYN then
        (case opt_ts os of None \<Rightarrow> conn_failed c (-1) s
         | Some o' \<Rightarrow>
             bind_res (read_be32 (pbody p) (o' + 2)) (\<lambda>ts.
               conn_send e c (TCP_SYN OR TCP_ACK OR (if c_flags x AND NICIF_CONN_ECN = NICIF_CONN_ECN then TCP_ECE else 0))
                 (Some ts) KTCP_MSS s))
      else Inr s)"


section \<open>Listeners\<close>

text \<open>\<open>tcp_listen\<close>: the state and the listener, \<open>None\<close> for the result -1.  Its allocations besides the listener are one
  answer of \<open>malloc\<close>: each failure frees the others and gives -1.\<close>

definition tcp_listen :: "nat \<Rightarrow> u64 \<Rightarrow> u16 \<Rightarrow> u32 \<Rightarrow> bool \<Rightarrow> bool \<Rightarrow> bool \<Rightarrow> kst \<Rightarrow> (kst \<times> nat option) res" where
  "tcp_listen ctx opaque' lport backlog reuseport objconn objnohash s =
    (case ports s lport of
       Port_listen _ \<Rightarrow> Inr (s, None)
     | Port_conn _ \<Rightarrow> Inr (s, None)
     | pt \<Rightarrow>
         if (case pt of Port_multi _ \<Rightarrow> \<not> reuseport | _ \<Rightarrow> False) then Inr (s, None)
         else
           bind_res (case pt of Port_multi m \<Rightarrow> bind_res (deref (multis s) m) (\<lambda>ls. Inr (length ls)) | _ \<Rightarrow> Inr 0) (\<lambda>num.
             if num = LISTEN_MULTI_MAX then Inr (s, None)
             else
               case (malloc s, malloc (snd (malloc s))) of
                 ((Some l, _), (Some m, s)) \<Rightarrow>
                   let s = s\<lparr>listeners := (listeners s)(l \<mapsto> \<lparr>ls_opaque = opaque', ls_ctx = ctx, ls_backlog_len = backlog, ls_backlog_pos = 0,
                         ls_backlog_used = 0, ls_slots = replicate (unat backlog) \<lparr>bl_buf = replicate BACKLOG_BUF 0, bl_len = 0\<rparr>,
                         ls_cores = replicate (unat backlog) 0, ls_fgs = replicate (unat backlog) 0, ls_wait = [], ls_port = lport,
                         ls_flags = (if objconn then NICIF_CONN_OBJCONN else 0) OR (if objnohash then NICIF_CONN_OBJNOHASH else 0)\<rparr>)\<rparr> in
                   Inr ((if \<not> reuseport then s\<lparr>ports := (ports s)(lport := Port_listen l)\<rparr>
                         else case pt of
                           Port_multi m' \<Rightarrow> s\<lparr>multis := (multis s)(m' := map_option (\<lambda>ls. ls @ [l]) (multis s m'))\<rparr>
                         | _ \<Rightarrow> s\<lparr>multis := (multis s)(m \<mapsto> [l]), ports := (ports s)(lport := Port_multi m)\<rparr>), Some l)
               | (_, (_, s)) \<Rightarrow> Inr (s, None)))"

definition hash_64_to_32 :: "u64 \<Rightarrow> u32" where
  "hash_64_to_32 key =
    (let key = NOT key + push_bit 18 key; key = key XOR drop_bit 31 key; key = key * 21; key = key XOR drop_bit 11 key;
         key = key + push_bit 6 key; key = key XOR drop_bit 22 key in
     ucast key)"

definition listener_lookup :: "pkt_tcp \<Rightarrow> kst \<Rightarrow> nat option res" where
  "listener_lookup p s =
    (case ports s (tcp_dest p) of
       Port_listen l \<Rightarrow> Inr (Some l)
     | Port_multi m \<Rightarrow>
         bind_res (deref (multis s) m) (\<lambda>ls.
           let hash = hash_64_to_32 (push_bit 32 (ucast (ip_src p)) OR push_bit 16 (ucast (tcp_src p)) OR ucast (tcp_dest p)) in
           if ls = [] then Inl Div_zero else Inr (Some (ls ! (unat hash mod length ls))))
     | _ \<Rightarrow> Inr None)"

text \<open>Leaving: the slot at \<open>backlog_pos\<close> is released.\<close>

definition backlog_pop :: "listener \<Rightarrow> listener" where
  "backlog_pop l = l\<lparr>ls_backlog_used := ls_backlog_used l - 1,
     ls_backlog_pos := (if ls_backlog_pos l + 1 \<ge> ls_backlog_len l then ls_backlog_pos l + 1 - ls_backlog_len l else ls_backlog_pos l + 1)\<rparr>"

text \<open>The connection gets the peer's addresses and sequence numbers of the SYN \<open>p\<close> on core \<open>core\<close>.\<close>

definition accept_fields :: "configuration \<Rightarrow> u16 \<Rightarrow> pkt_tcp \<Rightarrow> u32 \<Rightarrow> u16 \<Rightarrow> u32 \<Rightarrow> connection \<Rightarrow> connection" where
  "accept_fields cf port p core fg ts x =
    x\<lparr>c_fn_core := core, c_flow_group := fg, c_remote_mac := mac64 (eth_src p), c_remote_ip := ip_src p, c_local_ip := cf_ip cf,
      c_remote_port := tcp_src p, c_local_port := port, c_remote_seq := tcp_seqno p + 1, c_local_seq := 1, c_syn_ts := ts,
      c_flags := (if TCPH_FLAGS p AND (TCP_ECE OR TCP_CWR) = TCP_ECE OR TCP_CWR then c_flags x OR NICIF_CONN_ECN else c_flags x)\<rparr>"

definition listener_accept :: "kenv \<Rightarrow> nat \<Rightarrow> kst \<Rightarrow> kst res" where
  "listener_accept e li s =
    bind_res (deref (listeners s) li) (\<lambda>l.
      case ls_wait l of [] \<Rightarrow> Inl Assert_fail
      | c # wait \<Rightarrow>
          if ls_backlog_used l = 0 then Inl Assert_fail
          else
            let pos = unat (ls_backlog_pos l); bls = ls_slots l ! pos; p = pkt_of_bytes (bl_buf bls);
                out = upd_listener li backlog_pop in
            bind_res (parse_options p (bl_len bls)) (\<lambda>os.
              case (case os of None \<Rightarrow> None | Some os \<Rightarrow> opt_ts os) of None \<Rightarrow> Inr (out s)
              | Some o' \<Rightarrow>
                  bind_res (read_be32 (pbody p) (o' + 2)) (\<lambda>ts.
                  bind_res (conn_cc_init c (upd_conn c (accept_fields (cfg s) (ls_port l) p (ls_cores l ! pos) (ls_fgs l ! pos) ts) s)) (\<lambda>s.
                  bind_res (conn_add_flow e c 1 (upd_conn c (\<lambda>x. x\<lparr>c_status := CONN_REG_SYNACK, comp_status := 0\<rparr>) s)) (\<lambda>(s, ok).
                    if \<not> ok then Inr (out s)
                    else
                      let s = upd_listener li (\<lambda>l. l\<lparr>ls_wait := wait\<rparr>) (s\<lparr>tcp_conns := c # tcp_conns s\<rparr>);
                          s = tap_write e (take (unat (bl_len bls)) (bl_buf bls)) s in
                      Inr (out (s\<lparr>async_q := nbqueue_enq (async_q s) c\<rparr>)))))))"

text \<open>The four addresses that identify a peer, and the search for them in the used slots.\<close>

definition same_tuple :: "pkt_tcp \<Rightarrow> pkt_tcp \<Rightarrow> bool" where
  "same_tuple p q \<longleftrightarrow> ip_src p = ip_src q \<and> ip_dest p = ip_dest q \<and> tcp_src p = tcp_src q \<and> tcp_dest p = tcp_dest q"

definition backlog_index :: "listener \<Rightarrow> nat \<Rightarrow> nat" where
  "backlog_index l i = (unat (ls_backlog_pos l) + i) mod unat (ls_backlog_len l)"

definition backlog_has :: "listener \<Rightarrow> pkt_tcp \<Rightarrow> bool" where
  "backlog_has l p = list_ex (\<lambda>i. same_tuple p (pkt_of_bytes (bl_buf (ls_slots l ! backlog_index l i)))) [0..<unat (ls_backlog_used l)]"

definition backlog_push :: "pkt_tcp \<Rightarrow> nat \<Rightarrow> u32 \<Rightarrow> u16 \<Rightarrow> listener \<Rightarrow> listener" where
  "backlog_push p len core fg l =
    (let bp = ls_backlog_pos l + ls_backlog_used l;
         bp = unat (if bp \<ge> ls_backlog_len l then bp - ls_backlog_len l else bp) in
     l\<lparr>ls_cores := (ls_cores l)[bp := core], ls_fgs := (ls_fgs l)[bp := fg],
       ls_slots := (ls_slots l)[bp := \<lparr>bl_buf = take len (pkt_bytes p) @ drop len (bl_buf (ls_slots l ! bp)), bl_len = of_nat len\<rparr>],
       ls_backlog_used := ls_backlog_used l + 1\<rparr>)"

definition listener_packet :: "kenv \<Rightarrow> nat \<Rightarrow> pkt_tcp \<Rightarrow> tcp_opts \<Rightarrow> u32 \<Rightarrow> u16 \<Rightarrow> kst \<Rightarrow> kst res" where
  "listener_packet e li p os core fg s =
    bind_res (deref (listeners s) li) (\<lambda>l.
      let len = unat (of_nat ETH_HDR_SZ + ip_len p :: u16) in
      if TCPH_FLAGS p AND NOT (TCP_ECE OR TCP_CWR) \<noteq> TCP_SYN then bind_res (send_reset e p os s) (\<lambda>(s, _). Inr s)
      else if ls_backlog_len l = ls_backlog_used l then Inr s
      else if len > BACKLOG_BUF then Inr s
      else if backlog_has l p then Inr s
      else if len > length (pkt_bytes p) then Inl Oob
      else
        bind_res (appif_listen_newconn l (ip_src p) (tcp_src p) (upd_listener li (backlog_push p len core fg) s)) (\<lambda>s.
          if ls_wait l \<noteq> [] then listener_accept e li s else Inr s))"

text \<open>\<open>li\<close> is \<open>None\<close> for the null pointer, which the caller may pass.\<close>

definition tcp_accept :: "kenv \<Rightarrow> nat \<Rightarrow> u64 \<Rightarrow> nat option \<Rightarrow> u32 \<Rightarrow> kst \<Rightarrow> (kst \<times> int) res" where
  "tcp_accept e ctx opaque' li db s =
    (case conn_alloc s of (None, s) \<Rightarrow> Inr (s, -1)
     | (Some c, s) \<Rightarrow>
         (case li of None \<Rightarrow> Inl Oob
          | Some li \<Rightarrow>
              bind_res (deref (listeners s) li) (\<lambda>l.
                let s = upd_conn c (\<lambda>x. x\<lparr>c_ctx := ctx, c_opaque := opaque', c_status := CONN_SYN_WAIT, c_local_port := ls_port l,
                      c_db_id := db, c_flags := ls_flags l, cnt_tx_pending := 0\<rparr>) s;
                    s = upd_listener li (\<lambda>l. l\<lparr>ls_wait := c # ls_wait l\<rparr>) s in
                bind_res (if ls_backlog_used l > 0 then listener_accept e li s else Inr s) (\<lambda>s. Inr (s, 0)))))"

section \<open>Packets\<close>

definition tcp_packet :: "kenv \<Rightarrow> pkt_tcp \<Rightarrow> u16 \<Rightarrow> u32 \<Rightarrow> u16 \<Rightarrow> kst \<Rightarrow> kst res" where
  "tcp_packet e p len core fg s =
    (if unat len < PKT_TCP_SZ \<or> ip_dest p \<noteq> cf_ip (cfg s) then Inr s
     else
       bind_res (parse_options p len) (\<lambda>os.
         case os of None \<Rightarrow> Inr s
         | Some os \<Rightarrow>
             bind_res (conn_lookup p s) (\<lambda>c.
               case c of Some c \<Rightarrow> conn_packet e c p os core fg s
               | None \<Rightarrow>
                   bind_res (listener_lookup p s) (\<lambda>l.
                     case l of Some l \<Rightarrow> listener_packet e l p os core fg s
                     | None \<Rightarrow> bind_res (send_reset e p os s) (\<lambda>(s, _). Inr s)))))"

definition conn_reg_synack :: "kenv \<Rightarrow> nat \<Rightarrow> kst \<Rightarrow> kst res" where
  "conn_reg_synack e c s =
    bind_res (deref (conns s) c) (\<lambda>x.
    bind_res (conn_send e c (TCP_SYN OR TCP_ACK OR (if c_flags x AND NICIF_CONN_ECN = NICIF_CONN_ECN then TCP_ECE else 0))
        (Some (c_syn_ts x)) KTCP_MSS (upd_conn c (\<lambda>x. x\<lparr>c_status := CONN_OPEN\<rparr>) s)) (\<lambda>s.
      appif_accept_conn c 0 (send_control_tap_rev e x TCP_ACK (c_syn_ts x) (c_syn_ecr x) 0 s)))"

text \<open>\<open>send_network_raw\<close> copies although the allocation of a buffer failed.\<close>

definition send_network_raw :: "u8 list \<Rightarrow> kst \<Rightarrow> kst res" where
  "send_network_raw bs s = bind_res (send_frame bs (length bs) s) (\<lambda>(s, r). if r \<noteq> 0 then Inl Oob else Inr s)"

text \<open>What \<open>opts\<close> holds when \<open>parse_options\<close> returns, with or without an error.\<close>

fun parse_opt_seen :: "nat \<Rightarrow> u8 list \<Rightarrow> nat \<Rightarrow> nat \<Rightarrow> tcp_opts \<Rightarrow> tcp_opts" where
  "parse_opt_seen 0 opt opts_len off os = os"
| "parse_opt_seen (Suc fuel) opt opts_len off os =
    (if off < opts_len then
       let opt_kind = opt ! off; opt_avail = opts_len - off in
       if opt_kind = 0 then os
       else if opt_kind = 1 then parse_opt_seen fuel opt opts_len (off + 1) os
       else if opt_avail < 2 then os
       else
         let opt_len = unat (opt ! (off + 1)) in
         if opt_kind = 2 then
           if opt_len \<noteq> MSS_OPT_SZ then os
           else parse_opt_seen fuel opt opts_len (off + opt_len) (os\<lparr>opt_mss := Some off\<rparr>)
         else if opt_kind = 8 then
           if opt_len \<noteq> TS_OPT_SZ then os
           else parse_opt_seen fuel opt opts_len (off + opt_len) (os\<lparr>opt_ts := Some off\<rparr>)
         else parse_opt_seen fuel opt opts_len (off + opt_len) os
     else os)"

definition parse_options_seen :: "pkt_tcp \<Rightarrow> u16 \<Rightarrow> tcp_opts" where
  "parse_options_seen p len =
    (let opts_len = TCPH_HDRLEN p * 4 - 20; os = \<lparr>opt_mss = None, opt_ts = None\<rparr> in
     if TCPH_HDRLEN p < 5 \<or> of_nat opts_len > (ucast len - of_nat PKT_TCP_SZ :: u64) then os
     else parse_opt_seen OPT_FUEL (pbody p) opts_len 0 os)"

lemma parse_opt_seen_result: "parse_opt_loop f opt l off os = Some (Some os') \<Longrightarrow> parse_opt_seen f opt l off os = os'"
  by (induction f arbitrary: off os) (auto simp: Let_def split: if_splits)

text \<open>A packet of the local network interface (the body of the loop of \<open>tap_poll\<close>).  The error of \<open>parse_options\<close> is
  reported and ignored; if no time stamp option was seen, \<open>opts.ts->ts_ecr\<close> reads through a null pointer.\<close>

definition tap_tcp_packet :: "kenv \<Rightarrow> u8 list \<Rightarrow> kst \<Rightarrow> kst res" where
  "tap_tcp_packet e bs s =
    (let p = pkt_of_bytes bs in
     bind_res (conn_lookup_rev p s) (\<lambda>co.
     bind_res (parse_options p (of_nat (length bs))) (\<lambda>_.
       case co of None \<Rightarrow> send_network_raw bs s
       | Some c \<Rightarrow>
           bind_res (deref (conns s) c) (\<lambda>x.
             if c_status x = CONN_REG_SYNACK then
               (case opt_ts (parse_options_seen p (of_nat (length bs))) of None \<Rightarrow> Inl Oob
                | Some o' \<Rightarrow>
                    bind_res (read_be32 (pbody p) (o' + 6)) (\<lambda>ecr.
                      let s = upd_conn c (\<lambda>x. x\<lparr>c_linux_seq := tcp_seqno p + 1, c_remote_seq := tcp_ackno p, c_syn_ecr := ecr\<rparr>) s in
                      if comp_status x \<noteq> 0 then conn_failed c (comp_status x) s else conn_reg_synack e c s))
             else if TCPH_FLAGS p AND (TCP_SYN OR TCP_ACK) = TCP_SYN OR TCP_ACK then
               Inr (send_control_tap_rev e x TCP_ACK (c_syn_ts x) (c_syn_ecr x) 0 s)
             else Inr s))))"

definition tap_packet :: "kenv \<Rightarrow> u8 list \<Rightarrow> kst \<Rightarrow> kst res" where
  "tap_packet e bs s =
    (let ty = be16_of (slice bs 12 2) in
     if ty = ETH_TYPE_ARP then (if length bs < PKT_ARP_SZ then Inr s else Inr (arp_packet_tap e (arp_of_bytes bs) s))
     else if ty = ETH_TYPE_IP then
       (if length bs < 34 then Inr s
        else if bs ! 23 = IP_PROTO_TCP then (if length bs < PKT_TCP_SZ then Inr s else tap_tcp_packet e bs s)
        else send_network_raw bs s)
     else Inr s)"

section \<open>Dispatch\<close>

text \<open>\<open>process_packet\<close> on the receive buffer and its length, \<open>rxq_poll\<close> and \<open>nicif_poll\<close>, with the number of entries.\<close>

definition process_packet :: "kenv \<Rightarrow> u8 list \<Rightarrow> u16 \<Rightarrow> u32 \<Rightarrow> u16 \<Rightarrow> kst \<Rightarrow> kst res" where
  "process_packet e buf len core fg s =
    (let ty = be16_of (slice buf 12 2) in
     if ty = ETH_TYPE_ARP then (if unat len < PKT_ARP_SZ then Inr s else arp_packet e (arp_of_bytes buf) s)
     else if ty = ETH_TYPE_IP then
       (if unat len < 34 then Inr s
        else if buf ! 23 = IP_PROTO_TCP then (if unat len < PKT_TCP_SZ then Inr s else tcp_packet e (pkt_of_bytes buf) len core fg s)
        else Inr s)
     else Inr s)"

definition rxq_poll :: "kenv \<Rightarrow> kst \<Rightarrow> (kst \<times> bool) res" where
  "rxq_poll e s =
    (let n = kn s; core = unat (rxq_next n); a = rxq_entry_addr n; ty = dmem (nic n) ! (a + 71); (buf, len, fn, fg) = rxq_packet n;
         s = s\<lparr>kn := rxq_next_core n\<rparr> in
     if ty = 0 then Inr (s, False)
     else
       bind_res (if ty = KRX_PACKET then process_packet e buf len (ucast fn) fg s else Inr s) (\<lambda>s.
         Inr (s\<lparr>kn := rxq_done (kn s) core a\<rparr>, True)))"

fun nicif_poll_loop :: "nat \<Rightarrow> kenv \<Rightarrow> kst \<Rightarrow> (kst \<times> nat) res" where
  "nicif_poll_loop 0 e s = Inr (s, 0)"
| "nicif_poll_loop (Suc i) e s =
    bind_res (rxq_poll e s) (\<lambda>(s, b). bind_res (nicif_poll_loop i e s) (\<lambda>(s, k). Inr (s, k + (if b then 1 else 0))))"

definition nicif_poll :: "kenv \<Rightarrow> kst \<Rightarrow> (kst \<times> nat) res" where
  "nicif_poll e s = nicif_poll_loop 16 e s"

end
