(* ===== verification/KernelMain.thy ===== *)
theory KernelMain
  imports KernelConn Scaling
begin

unbundle bit_operations_syntax

text \<open>
  The kernel's service of application requests (kernel/appif_ctx.c, the poll of kernel/appif.c), the trigger of its timeouts
  and its main loop (kernel/kernel.c).
\<close>

section \<open>Requests of applications\<close>

abbreviation KERNEL_APPOUT_CONN_OPEN :: u8 where "KERNEL_APPOUT_CONN_OPEN \<equiv> 1"
abbreviation KERNEL_APPOUT_CONN_MOVE :: u8 where "KERNEL_APPOUT_CONN_MOVE \<equiv> 3"
abbreviation KERNEL_APPOUT_LISTEN_OPEN :: u8 where "KERNEL_APPOUT_LISTEN_OPEN \<equiv> 4"
abbreviation KERNEL_APPOUT_ACCEPT_CONN :: u8 where "KERNEL_APPOUT_ACCEPT_CONN \<equiv> 6"
abbreviation KERNEL_APPOUT_REQ_SCALE :: u8 where "KERNEL_APPOUT_REQ_SCALE \<equiv> 7"

text \<open>The answer in the entry at address \<open>a\<close> of context \<open>ctx\<close>, followed by the kick.\<close>

definition kin_answer :: "nat \<Rightarrow> nat \<Rightarrow> (u8 list \<Rightarrow> u8 list) \<Rightarrow> u8 \<Rightarrow> kst \<Rightarrow> (kst \<times> nat) res" where
  "kin_answer ctx a f ty s = bind_res (appif_ctx_kick ctx (upd_dmem (\<lambda>m. put (f m) (a + 63) [ty]) s)) (\<lambda>s. Inr (s, 1))"

text \<open>\<open>opaque\<close> and \<open>status\<close> of a message whose status is at offset \<open>off\<close>.\<close>

definition put_status :: "nat \<Rightarrow> nat \<Rightarrow> u64 \<Rightarrow> int \<Rightarrow> u8 list \<Rightarrow> u8 list" where
  "put_status a off opaque' status m = put (put m a (le64_bytes opaque')) (a + off) (le32_int status)"

text \<open>Each handler gets the position \<open>i\<close> of the application, the context, the bytes \<open>k\<close> of the request and the address of
  the answer, and returns how many answers it used.\<close>

definition kin_conn_open :: "kenv \<Rightarrow> nat \<Rightarrow> nat \<Rightarrow> u8 list \<Rightarrow> nat \<Rightarrow> kst \<Rightarrow> (kst \<times> nat) res" where
  "kin_conn_open e i ctx k a s =
    (let op = le64_of (slice k 0 8); fl = le32_of (slice k 12 4) in
     bind_res (deref (actxs s) ctx) (\<lambda>x.
     bind_res (tcp_open e ctx op (le32_of (slice k 8 4)) (le16_of (slice k 16 2)) (ac_doorbell x)
         (fl AND 1 \<noteq> 0) (fl AND 2 \<noteq> 0) s) (\<lambda>(s, r).
       case r of
         None \<Rightarrow> kin_answer ctx a (put_status a 32 op (-1)) KERNEL_APPIN_CONN_OPENED s
       | Some c \<Rightarrow> Inr (s\<lparr>applications := (applications s)[i := (applications s ! i)\<lparr>app_conns := c # app_conns (applications s ! i)\<rparr>]\<rparr>, 0))))"

fun move_search :: "(nat \<Rightarrow> connection option) \<Rightarrow> u8 list \<Rightarrow> nat list \<Rightarrow> connection option res" where
  "move_search h k [] = Inr None"
| "move_search h k (c # cs) =
    bind_res (deref h c) (\<lambda>x.
      if c_local_ip x = le32_of (slice k 12 4) \<and> c_remote_ip x = le32_of (slice k 8 4) \<and> c_local_port x = le16_of (slice k 18 2) \<and>
         c_remote_port x = le16_of (slice k 16 2) \<and> c_opaque x = le64_of (slice k 0 8)
      then Inr (Some x) else move_search h k cs)"

fun ctx_search :: "(nat \<Rightarrow> app_ctx option) \<Rightarrow> u32 \<Rightarrow> nat list \<Rightarrow> app_ctx option res" where
  "ctx_search h db [] = Inr None"
| "ctx_search h db (c # cs) = bind_res (deref h c) (\<lambda>x. if ac_doorbell x = db then Inr (Some x) else ctx_search h db cs)"

definition kin_conn_move :: "nat \<Rightarrow> nat \<Rightarrow> u8 list \<Rightarrow> nat \<Rightarrow> kst \<Rightarrow> (kst \<times> nat) res" where
  "kin_conn_move i ctx k a s =
    (let op = le64_of (slice k 0 8);
         answer = (\<lambda>st s. kin_answer ctx a (put_status a 8 op st) KERNEL_APPIN_STATUS_CONN_MOVE s) in
     bind_res (move_search (conns s) k (app_conns (applications s ! i))) (\<lambda>co.
       case co of None \<Rightarrow> answer (-1) s
       | Some x \<Rightarrow>
           bind_res (ctx_search (actxs s) (ucast (le16_of (slice k 20 2))) (app_contexts (applications s ! i))) (\<lambda>nc.
             case nc of None \<Rightarrow> answer (-1) s
             | Some nx \<Rightarrow>
                 if c_status x \<noteq> CONN_OPEN then answer (-1) s
                 else answer 0 (s\<lparr>kn := nicif_connection_move (kn s) (ac_doorbell nx) (c_flow_id x)\<rparr>))))"

definition kin_listen_open :: "nat \<Rightarrow> nat \<Rightarrow> u8 list \<Rightarrow> nat \<Rightarrow> kst \<Rightarrow> (kst \<times> nat) res" where
  "kin_listen_open i ctx k a s =
    (let op = le64_of (slice k 0 8); fl = k ! 14 in
     bind_res (tcp_listen ctx op (le16_of (slice k 12 2)) (le32_of (slice k 8 4)) (fl AND 1 \<noteq> 0) (fl AND 2 \<noteq> 0) (fl AND 4 \<noteq> 0) s) (\<lambda>(s, r).
       case r of
         None \<Rightarrow> kin_answer ctx a (put_status a 8 op (-1)) KERNEL_APPIN_STATUS_LISTEN_OPEN s
       | Some l \<Rightarrow>
           kin_answer ctx a (put_status a 8 op 0) KERNEL_APPIN_STATUS_LISTEN_OPEN
             (s\<lparr>applications := (applications s)[i := (applications s ! i)\<lparr>app_listeners := l # app_listeners (applications s ! i)\<rparr>]\<rparr>)))"

fun listen_search :: "(nat \<Rightarrow> listener option) \<Rightarrow> u16 \<Rightarrow> u64 \<Rightarrow> nat list \<Rightarrow> nat option res" where
  "listen_search h port op [] = Inr None"
| "listen_search h port op (l # ls) =
    bind_res (deref h l) (\<lambda>x. if ls_port x = port \<and> ls_opaque x = op then Inr (Some l) else listen_search h port op ls)"

text \<open>A request for an unknown listener passes the null pointer on.\<close>

definition kin_accept_conn :: "kenv \<Rightarrow> nat \<Rightarrow> nat \<Rightarrow> u8 list \<Rightarrow> nat \<Rightarrow> kst \<Rightarrow> (kst \<times> nat) res" where
  "kin_accept_conn e i ctx k a s =
    (let op = le64_of (slice k 8 8) in
     bind_res (deref (actxs s) ctx) (\<lambda>x.
     bind_res (listen_search (listeners s) (le16_of (slice k 16 2)) (le64_of (slice k 0 8)) (app_listeners (applications s ! i))) (\<lambda>l.
     bind_res (tcp_accept e ctx op l (ac_doorbell x) s) (\<lambda>(s, r).
       if r \<noteq> 0 then kin_answer ctx a (put_status a 32 op (-1)) KERNEL_APPIN_ACCEPTED_CONN s else Inr (s, 0)))))"

definition kin_req_scale :: "u8 list \<Rightarrow> kst \<Rightarrow> (kst \<times> nat) res" where
  "kin_req_scale k s =
    Inr (case flexnic_scale_to (fp_scale_to s) (unat (le32_of (slice k 0 4))) of None \<Rightarrow> s | Some n \<Rightarrow> s\<lparr>fp_scale_to := n\<rparr>, 0)"

definition kin_addr :: "app_ctx \<Rightarrow> nat" where
  "kin_addr x = unat (ac_kin_base x) + unat (ac_kin_pos x) * APPQ_SZ"

definition kin_next :: "app_ctx \<Rightarrow> app_ctx" where
  "kin_next x = x\<lparr>ac_kin_pos := (if ac_kin_pos x + 1 \<ge> ac_kin_len x then 0 else ac_kin_pos x + 1)\<rparr>"

definition kin_dispatch :: "kenv \<Rightarrow> nat \<Rightarrow> nat \<Rightarrow> u8 list \<Rightarrow> nat \<Rightarrow> kst \<Rightarrow> (kst \<times> nat) res" where
  "kin_dispatch e i ctx k a s =
    (let ty = k ! 63 in
     if ty = KERNEL_APPOUT_CONN_OPEN then kin_conn_open e i ctx k a s
     else if ty = KERNEL_APPOUT_CONN_MOVE then kin_conn_move i ctx k a s
     else if ty = KERNEL_APPOUT_LISTEN_OPEN then kin_listen_open i ctx k a s
     else if ty = KERNEL_APPOUT_ACCEPT_CONN then kin_accept_conn e i ctx k a s
     else if ty = KERNEL_APPOUT_REQ_SCALE then kin_req_scale k s
     else Inr (s, 0))"

text \<open>One request of context \<open>ctx\<close> of application \<open>i\<close>, and whether there was one.  The type of the request is not cleared.\<close>

definition appif_ctx_poll :: "kenv \<Rightarrow> nat \<Rightarrow> nat \<Rightarrow> kst \<Rightarrow> (kst \<times> nat) res" where
  "appif_ctx_poll e i ctx s =
    bind_res (deref (actxs s) ctx) (\<lambda>x.
      let a = kout_addr x; b = kin_addr x in
      if a + APPQ_SZ > length (kmem s) \<or> b + APPQ_SZ > length (kmem s) then Inl Oob
      else if kmem s ! (a + 63) \<noteq> 0 then Inr (s, 0)
      else if kmem s ! (b + 63) = 0 then Inr (s, 0)
      else
        bind_res (kin_dispatch e i ctx (slice (kmem s) b APPQ_SZ) a s) (\<lambda>(s, inc).
          let s = upd_actx ctx (\<lambda>y. y\<lparr>ac_kin_pos := ac_kin_pos (kin_next x)\<rparr>) s in
          Inr (if inc > 0 then upd_actx ctx (\<lambda>y. y\<lparr>ac_kout_pos := ac_kout_pos (kout_next x)\<rparr>) s else s, 1)))"

text \<open>The contexts of the applications in turn; registering new contexts with the NIC is \<open>nicif_appctx_add\<close>.\<close>

fun appif_poll_loop :: "kenv \<Rightarrow> (nat \<times> nat) list \<Rightarrow> kst \<Rightarrow> (kst \<times> nat) res" where
  "appif_poll_loop e [] s = Inr (s, 0)"
| "appif_poll_loop e ((i, ctx) # cs) s =
    bind_res (deref (actxs s) ctx) (\<lambda>x.
    bind_res (if ac_ready x then appif_ctx_poll e i ctx s else Inr (s, 0)) (\<lambda>(s, n).
    bind_res (appif_poll_loop e cs s) (\<lambda>(s, m). Inr (s, n + m))))"

definition appif_poll :: "kenv \<Rightarrow> kst \<Rightarrow> (kst \<times> nat) res" where
  "appif_poll e s =
    appif_poll_loop e (concat (map (\<lambda>i. map (Pair i) (app_contexts (applications s ! i))) [0..<length (applications s)])) s"

section \<open>The main loop\<close>

definition timeout_trigger :: "kenv \<Rightarrow> nat \<Rightarrow> u8 \<Rightarrow> kst \<Rightarrow> kst res" where
  "timeout_trigger e to' ty s =
    (if ty = TO_ARP_REQ then arp_timeout e (to' div 2) s
     else if ty = TO_TCP_HANDSHAKE \<or> ty = TO_TCP_RETRANSMIT then tcp_timeout e (to' div 2) ty s
     else Inl Abort)"

text \<open>The congestion control runs over the list of connections.\<close>

fun conns_back :: "nat list \<Rightarrow> connection list \<Rightarrow> kst \<Rightarrow> kst" where
  "conns_back (c # cs) (x # xs) s = conns_back cs xs (upd_conn c (\<lambda>_. x) s)"
| "conns_back _ _ s = s"

definition k_cc_poll :: "kst \<Rightarrow> (kst \<times> nat) res" where
  "k_cc_poll s =
    (if \<exists>c \<in> set (tcp_conns s). conns s c = None then Inl Oob
     else
       bind_res (cc_poll (cfg s) (cur_ts s) (cc_prev_ts s) (kn s, kstat s) (map (\<lambda>c. the (conns s c)) (tcp_conns s))) (\<lambda>(p, n, ks, xs, k).
         Inr (conns_back (tcp_conns s) xs (s\<lparr>cc_prev_ts := p, kn := n, kstat := ks\<rparr>), k)))"

text \<open>One iteration of the main loop up to the load monitor, and the work it did.\<close>

definition kernel_iter :: "kenv \<Rightarrow> kst \<Rightarrow> (kst \<times> nat) res" where
  "kernel_iter e s =
    (let s = s\<lparr>cur_ts := time_us s\<rparr> in
     bind_res (nicif_poll e s) (\<lambda>(s, n1).
     bind_res (k_cc_poll s) (\<lambda>(s, n2).
     bind_res (appif_poll e s) (\<lambda>(s, n3).
     bind_res (tcp_poll e s) (\<lambda>s.
     bind_res (util_timeout_poll_ts (timeout_trigger e) s (cur_ts s)) (\<lambda>s. Inr (s, n1 + n2 + n3)))))))"

text \<open>How long an idle kernel waits, in milliseconds.\<close>

definition kernel_idle_ms :: "u32 \<Rightarrow> u32 \<Rightarrow> int" where
  "kernel_idle_ms cc_timeout util_timeout =
    (let timeout_us =
       (if cc_timeout \<noteq> UINT32_MAX \<and> util_timeout \<noteq> UINT32_MAX then min cc_timeout util_timeout
        else if cc_timeout \<noteq> UINT32_MAX then util_timeout
        else cc_timeout);
       timeout_ms = (if timeout_us \<noteq> UINT32_MAX then sint (timeout_us div 1000) else -1) in
     if timeout_ms = -1 \<or> timeout_ms > 1000 then 10 else timeout_ms)"

end
