(* ===== verification/KernelFacts.thy ===== *)
theory KernelFacts
  imports KernelMain
begin

unbundle bit_operations_syntax

text \<open>Properties of the kernel's helpers: TCP options, routes, ports, and the idle wait.\<close>

section \<open>TCP options of control segments\<close>

lemma length_control_opts:
  "length (control_opts ts mss) = (if mss = 0 then 0 else 4) + (if ts = None then 0 else 12)"
  by (auto simp: control_opts_def Let_def split: option.splits)

text \<open>One iteration with fuel left, and none.\<close>

lemma parse_opt_step:
  "parse_opt_loop (numeral n) opt L off os =
    (if off < L then
       let k = opt ! off in
       if k = 0 then Some (Some os)
       else if k = 1 then parse_opt_loop (pred_numeral n) opt L (off + 1) os
       else if L - off < 2 then Some None
       else
         let l = unat (opt ! (off + 1)) in
         if k = 2 then if l \<noteq> MSS_OPT_SZ then Some None else parse_opt_loop (pred_numeral n) opt L (off + l) (os\<lparr>opt_mss := Some off\<rparr>)
         else if k = 8 then if l \<noteq> TS_OPT_SZ then Some None else parse_opt_loop (pred_numeral n) opt L (off + l) (os\<lparr>opt_ts := Some off\<rparr>)
         else parse_opt_loop (pred_numeral n) opt L (off + l) os
     else Some (Some os))"
  unfolding numeral_eq_Suc by (simp add: Let_def)

lemma hdrlen_flags:
  assumes "flags < 0x200" "n < 16"
  shows "drop_bit 12 (TCPH_HDRLEN_FLAGS n flags) = of_nat n" "TCPH_HDRLEN_FLAGS n flags AND 0x1ff = flags"
proof -
  have m: "(0x1ff :: u16) = mask 9" by (simp add: mask_eq_exp_minus_1)
  have "unat flags < 2 ^ 9" using assms(1) by (simp add: word_less_nat_alt)
  then have "take_bit 9 flags = flags" unfolding word_unat_eq_iff by (simp only: unsigned_take_bit_eq take_bit_nat_eq_self)
  then have f: "bit flags k \<Longrightarrow> k < 9" for k by (metis bit_take_bit_iff)
  have "unat (of_nat n :: u16) < 2 ^ 4" using assms(2) by (simp add: unat_of_nat)
  then have "take_bit 4 (of_nat n :: u16) = of_nat n" unfolding word_unat_eq_iff by (simp only: unsigned_take_bit_eq take_bit_nat_eq_self)
  then have b: "bit (of_nat n :: u16) k \<Longrightarrow> k < 4" for k by (metis bit_take_bit_iff)
  show "drop_bit 12 (TCPH_HDRLEN_FLAGS n flags) = of_nat n"
    unfolding TCPH_HDRLEN_FLAGS_def by (rule bit_word_eqI) (auto simp: bit_drop_bit_eq bit_or_iff bit_push_bit_iff dest: f b)
  show "TCPH_HDRLEN_FLAGS n flags AND 0x1ff = flags"
    unfolding TCPH_HDRLEN_FLAGS_def m
    by (rule bit_word_eqI) (auto simp: bit_and_iff bit_mask_iff bit_or_iff bit_push_bit_iff dest: f b)
qed

lemma be32_slice: "length xs = n \<Longrightarrow> read_be32 (xs @ be32_bytes v @ ys) n = Inr v"
  by (simp add: read_be32_def slice_def)


definition ex_kenv :: kenv where
  "ex_kenv = \<lparr>fenv = \<lparr>xsum = (\<lambda>p. ucast (tcp_seqno p)), hash_crc = (\<lambda>bs. of_nat (length bs)), ring_ok = (\<lambda>c q. length q < 8192),
     own_mac = 7\<rparr>, ip_cksum = ip_len, tcp_cksum = (\<lambda>p. ucast (tcp_seqno p)), info_mac = 0x0605040302, tap_mac = [2, 0, 0, 0, 0, 9]\<rparr>"


section \<open>Routes\<close>

abbreviation hop_step :: "route list \<Rightarrow> u32 \<Rightarrow> u32" where
  "hop_step rs ip \<equiv> (case resolve rs ip of None \<Rightarrow> ip | Some r \<Rightarrow> rt_hop r)"

abbreviation hop_goes :: "route list \<Rightarrow> u32 \<Rightarrow> bool" where
  "hop_goes rs ip \<equiv> (case resolve rs ip of None \<Rightarrow> False | Some r \<Rightarrow> rt_hop r \<noteq> 0)"

lemma resolve_set: "resolve rs ip = Some r \<Longrightarrow> r \<in> set rs"
  by (induction rs) (auto split: if_splits)

lemma hop_chain_hops:
  "(\<forall>i < n. hop_goes rs ((hop_step rs ^^ i) ip)) \<Longrightarrow> 0 < k \<Longrightarrow> k \<le> n \<Longrightarrow> (hop_step rs ^^ k) ip \<in> rt_hop ` set rs"
proof -
  assume a: "\<forall>i < n. hop_goes rs ((hop_step rs ^^ i) ip)" "0 < k" "k \<le> n"
  then obtain k' where k: "k = Suc k'" "k' < n" by (cases k) auto
  then obtain r where "resolve rs ((hop_step rs ^^ k') ip) = Some r" using a(1) by (fastforce split: option.splits)
  then show ?thesis using resolve_set by (simp add: k)
qed

lemma hop_chain_short:
  assumes "\<not> hop_goes rs ((hop_step rs ^^ n) ip)" "\<forall>i < n. hop_goes rs ((hop_step rs ^^ i) ip)"
  shows "n \<le> length rs"
proof (rule ccontr)
  let ?f = "\<lambda>k. (hop_step rs ^^ k) ip"
  assume "\<not> n \<le> length rs"
  then have n: "length rs < n" by simp
  have "card (?f ` {1..n}) \<le> card (rt_hop ` set rs)"
    by (rule card_mono) (use hop_chain_hops [OF assms(2)] in auto)
  also have "\<dots> \<le> length rs" by (meson card_image_le card_length finite_set le_trans)
  also have "\<dots> < card {1..n}" using n by simp
  finally have "\<not> inj_on ?f {1..n}" by (rule pigeonhole)
  then obtain i' j' where "i' \<le> n" "j' \<le> n" "?f i' = ?f j'" "i' \<noteq> j'" unfolding inj_on_def by auto
  then obtain i j where ij: "i < j" "j \<le> n" "?f i = ?f j" by (cases "i' < j'") (auto simp: not_less le_less)
  have "?f (n - j + i) = (hop_step rs ^^ (n - j)) (?f i)" by (simp add: funpow_add)
  also have "\<dots> = (hop_step rs ^^ (n - j)) (?f j)" by (simp only: ij(3))
  also have "\<dots> = ?f (n - j + j)" by (simp add: funpow_add)
  also have "\<dots> = ?f n" using ij(2) by simp
  finally have "\<not> hop_goes rs (?f (n - j + i))" using assms(1) by simp
  moreover have "n - j + i < n" using ij by simp
  ultimately show False using assms(2) by blast
qed

text \<open>
  The search for the next hop follows at most as many gateways as the table has routes: within that many steps
  it reaches an address that is on the link, or without a route, and returns it, and otherwise it never returns.
\<close>

lemma next_hop_bounded:
  "next_hop rs ip =
    (if \<exists>n \<le> length rs. \<not> hop_goes rs ((hop_step rs ^^ n) ip)
     then Inr ((hop_step rs ^^ (LEAST n. \<not> hop_goes rs ((hop_step rs ^^ n) ip))) ip) else Inl Diverge)"
proof -
  have "(\<exists>n. \<not> hop_goes rs ((hop_step rs ^^ n) ip)) \<longleftrightarrow> (\<exists>n \<le> length rs. \<not> hop_goes rs ((hop_step rs ^^ n) ip))"
  proof
    assume ex: "\<exists>n. \<not> hop_goes rs ((hop_step rs ^^ n) ip)"
    define n where "n = (LEAST n. \<not> hop_goes rs ((hop_step rs ^^ n) ip))"
    have "\<not> hop_goes rs ((hop_step rs ^^ n) ip)" unfolding n_def using ex by (rule LeastI_ex)
    moreover have "\<forall>i < n. hop_goes rs ((hop_step rs ^^ i) ip)" unfolding n_def using not_less_Least by blast
    ultimately show "\<exists>n \<le> length rs. \<not> hop_goes rs ((hop_step rs ^^ n) ip)" using hop_chain_short by blast
  qed blast
  then show ?thesis by (simp add: next_hop_def while_res_def while_option_def)
qed

section \<open>Ports\<close>

text \<open>Behind port 65535 the search looks at port 0, whose allocation counts as a failure.\<close>

lemma port_alloc_wraps:
  assumes "port_eph_hint s = 65535" "ports s 65535 = Port_unused" "ports s 0 = Port_unused"
  shows "\<exists>s'. port_alloc s = Inr (65535, s') \<and> (\<exists>s''. port_alloc s' = Inr (0, s''))"
proof -
  have np: "(65536 :: u16) = 0" by simp
  show ?thesis using assms by (simp add: port_alloc_def while_res_unfold [of _ _ 65535] while_res_unfold [of _ _ 0] next_port_def np)
qed

text \<open>With only one of the two kinds of timeouts pending the wait uses the other one, which is not set.\<close>

lemma kernel_idle_ignores_deadline:
  "util_timeout \<noteq> UINT32_MAX \<Longrightarrow> kernel_idle_ms UINT32_MAX util_timeout = 10"
  "cc_timeout \<noteq> UINT32_MAX \<Longrightarrow> kernel_idle_ms cc_timeout UINT32_MAX = 10"
  by (simp_all add: kernel_idle_ms_def)

end
