(* ===== verification/KernelInv.thy ===== *)
theory KernelInv
  imports KernelMain TimeoutsInv
begin

unbundle bit_operations_syntax

text \<open>
  The invariant between the timeout manager and its clients, connections and ARP entries: a timeout is in the manager's lists
  exactly when its owner says that it is armed, and an armed owner is in a state its handler accepts.
\<close>

section \<open>The manager without assumptions on time\<close>

text \<open>Whatever the time stamps are, arming that returns adds the object to the lists.\<close>

definition to_type :: "'a tmgr_scheme \<Rightarrow> nat \<Rightarrow> u8" where
  "to_type m i = ucast (drop_bit TIMEOUT_BITS (timeout_type (timeout_objs m i)))"

definition to_lists :: "'a tmgr_scheme \<Rightarrow> nat set \<Rightarrow> bool" where
  "to_lists m S \<longleftrightarrow> (\<exists>Ps Ds. dlists m Ps Ds \<and> set (Ps @ Ds) = S)"

lemma while_res_rule:
  assumes "while_res b c s = Inr t" "P s" "\<And>s. P s \<Longrightarrow> b s \<Longrightarrow> P (c s)"
  shows "P t"
proof -
  have "while_option b c s = Some t" using assms(1) by (auto simp: while_res_def split: option.splits)
  then show ?thesis using while_option_rule [of P b c s t] assms(2,3) by blast
qed

lemma same_stamps_trans: "same_stamps a b \<Longrightarrow> same_stamps b c \<Longrightarrow> same_stamps a c"
  by (simp add: same_stamps_def)

lemma move_due_to_lists:
  assumes "to_lists m S" "move_due_timeouts m t = Inr m'"
  shows "to_lists m' S \<and> same_stamps m m'"
proof (rule while_res_rule [OF assms(2) [unfolded move_due_timeouts_def], of "\<lambda>m'. to_lists m' S \<and> same_stamps m m'"])
  show "to_lists m S \<and> same_stamps m m" using assms(1) by (simp add: same_stamps_def)
next
  fix x assume x: "to_lists x S \<and> same_stamps m x" and b: "case timeouts_first x of None \<Rightarrow> False | Some i \<Rightarrow> timeout_due x i t"
  then obtain Ps Ds where l: "dlists x Ps Ds" "set (Ps @ Ds) = S" by (auto simp: to_lists_def)
  then obtain i P where "Ps = i # P" using b by (cases Ps) (auto simp: dlists_def)
  then have "dlists (move_first x) P (Ds @ [i])" "same_stamps x (move_first x)" using move_first_lists l(1) by blast+
  moreover have "set (P @ Ds @ [i]) = S" using l(2) \<open>Ps = i # P\<close> by auto
  ultimately show "to_lists (move_first x) S \<and> same_stamps m (move_first x)"
    using x same_stamps_trans unfolding to_lists_def by blast
qed

lemma arm_type:
  assumes "(ty :: u8) < 16"
  shows "ucast (drop_bit TIMEOUT_BITS (push_bit TIMEOUT_BITS (ucast ty) OR (x AND TIMEOUT_MASK) :: u32)) = ty"
proof -
  have "unat ty < 16" using assms by (simp add: word_less_nat_alt)
  then have "take_bit 4 ty = ty" unfolding word_unat_eq_iff by (simp add: unsigned_take_bit_eq take_bit_nat_eq_self)
  then have t: "bit ty n \<Longrightarrow> n < 4" for n by (metis bit_take_bit_iff)
  have m: "TIMEOUT_MASK = mask 28" by (simp add: mask_eq_exp_minus_1)
  show ?thesis unfolding m by (rule bit_word_eqI) (auto simp: bit_simps dest: t)
qed

lemma arm_to_lists:
  assumes "to_lists m S" "i \<notin> S" "ty < 16" "util_timeout_arm_ts m i us ty t = Inr m'"
  shows "to_lists m' (insert i S) \<and> tmgr.more m' = tmgr.more m \<and> to_type m' i = ty \<and> (\<forall>j. j \<noteq> i \<longrightarrow> to_type m' j = to_type m j)"
proof -
  obtain m1 tp where m1: "move_due_timeouts m t = Inr m1" and
    tp: "while_res (\<lambda>tp. case tp of None \<Rightarrow> False | Some p \<Rightarrow> to_rel_time t (to_ts_of m1 p) > us)
           (\<lambda>tp. case tp of None \<Rightarrow> None | Some p \<Rightarrow> t_prev (timeout_objs m1 p)) (timeouts_last m1) = Inr tp" and
    m': "m' = link_at i (push_bit TIMEOUT_BITS (ucast ty) OR ((t + us) AND TIMEOUT_MASK)) tp m1"
    using assms(4) by (auto simp: util_timeout_arm_ts_def link_at_def Let_def bind_res_Inr_iff split: if_splits)
  from move_due_to_lists [OF assms(1) m1] obtain Ps Ds where l: "dlists m1 Ps Ds" "set (Ps @ Ds) = S" and ss: "same_stamps m m1"
    by (auto simp: to_lists_def)
  have "\<exists>A B. Ps = A @ B \<and> tp = lst_of None A"
  proof (rule while_res_rule [OF tp, of "\<lambda>tp. \<exists>A B. Ps = A @ B \<and> tp = lst_of None A"])
    show "\<exists>A B. Ps = A @ B \<and> timeouts_last m1 = lst_of None A" using l(1) by (intro exI [of _ Ps] exI [of _ "[]"]) (simp add: dlists_def)
  next
    fix s assume "\<exists>A B. Ps = A @ B \<and> s = lst_of None A" "case s of None \<Rightarrow> False | Some p \<Rightarrow> to_rel_time t (to_ts_of m1 p) > us"
    then obtain A p B where s: "Ps = (A @ [p]) @ B" "s = Some p"
      by (cases s) (auto simp: lst_of_def split: if_splits, metis append_butlast_last_id append.assoc append_Cons append_Nil)
    then have "t_prev (timeout_objs m1 p) = lst_of None A" using l(1) by (simp add: dlists_def)
    then show "\<exists>A B. Ps = A @ B \<and> (case s of None \<Rightarrow> None | Some p \<Rightarrow> t_prev (timeout_objs m1 p)) = lst_of None A"
      using s by (intro exI [of _ A] exI [of _ "p # B"]) simp
  qed
  then obtain A B where ab: "Ps = A @ B" "tp = lst_of None A" by blast
  have "i \<notin> set (A @ B @ Ds)" using assms(2) l(2) ab(1) by auto
  from link_at_lists [OF l(1) [unfolded ab(1)] this, of "push_bit TIMEOUT_BITS (ucast ty) OR ((t + us) AND TIMEOUT_MASK)"]
  have k: "dlists m' (A @ i # B) Ds" "tmgr.more m' = tmgr.more m1"
    "timeout_type (timeout_objs m' x) = (if x = i then push_bit TIMEOUT_BITS (ucast ty) OR ((t + us) AND TIMEOUT_MASK)
       else timeout_type (timeout_objs m1 x))" for x
    unfolding m' ab(2) by simp_all
  have "set ((A @ i # B) @ Ds) = insert i S" using l(2) ab(1) by auto
  then have "to_lists m' (insert i S)" using k(1) unfolding to_lists_def by blast
  moreover have "to_type m' i = ty" unfolding to_type_def k(3) if_P [OF refl] by (rule arm_type [OF assms(3)])
  ultimately show ?thesis using k(2,3) ss by (simp add: to_type_def same_stamps_def)
qed

lemma disarm_to_lists:
  assumes "to_lists m S" "i \<in> S" "util_timeout_disarm m i = Inr m'"
  shows "to_lists m' (S - {i}) \<and> same_stamps m m'"
proof -
  obtain Ps Ds where l: "dlists m Ps Ds" "set (Ps @ Ds) = S" using assms(1) by (auto simp: to_lists_def)
  then have d: "distinct (Ps @ Ds)" by (simp add: dlists_def)
  consider A B where "Ps = A @ i # B" | A B where "Ds = A @ i # B" using assms(2) l(2) by (auto dest!: split_list)
  then show ?thesis
  proof cases
    case 1
    then have "dlists m' (A @ B) Ds" "same_stamps m m'" using disarm_pending [of m A i B Ds] l(1) assms(3) by auto
    moreover have "set ((A @ B) @ Ds) = S - {i}" using 1 l(2) d by auto
    ultimately show ?thesis unfolding to_lists_def by blast
  next
    case 2
    then have "dlists m' Ps (A @ B)" "same_stamps m m'" using disarm_due [of m Ps A i B] l(1) assms(3) by auto
    moreover have "set (Ps @ A @ B) = S - {i}" using 2 l(2) d by auto
    ultimately show ?thesis unfolding to_lists_def by blast
  qed
qed

section \<open>Owners\<close>

definition k_armed :: "kst \<Rightarrow> nat set" where
  "k_armed s = {conn_to c | c x. conns s c = Some x \<and> c_to_armed x} \<union> {arp_to_obj a | a ae. (a, ae) \<in> set (arp_table s) \<and> \<not> ae_ready ae}"

definition owner_type :: "nat \<Rightarrow> u8" where
  "owner_type i = (if even i then TO_TCP_HANDSHAKE else TO_ARP_REQ)"

text \<open>
  \<open>T\<close>: timeouts on their way to their handler, no longer in the lists.  \<open>X\<close>: connections being set up, whose status does not
  count yet.
\<close>

definition k_timers :: "nat set \<Rightarrow> kst \<Rightarrow> bool" where
  "k_timers T s \<longleftrightarrow> to_lists s (k_armed s - T) \<and> (\<forall>i \<in> k_armed s. to_type s i = owner_type i)"

abbreviation handshake :: "connection \<Rightarrow> bool" where
  "handshake x \<equiv> c_status x = CONN_ARP_PENDING \<or> c_status x = CONN_SYN_SENT"

definition k_conn_ok :: "nat list \<Rightarrow> nat \<Rightarrow> connection \<Rightarrow> bool" where
  "k_conn_ok cs c x \<longleftrightarrow> (c_to_armed x \<longrightarrow> c_status x = CONN_SYN_SENT) \<and> (handshake x \<longrightarrow> c \<in> set cs)"

definition k_conns :: "nat set \<Rightarrow> kst \<Rightarrow> bool" where
  "k_conns X s \<longleftrightarrow> (\<forall>c x. conns s c = Some x \<longrightarrow> c \<le> allocs s \<and> (c \<in> X \<or> k_conn_ok (tcp_conns s) c x))"

definition k_arps :: "kst \<Rightarrow> bool" where
  "k_arps s \<longleftrightarrow> distinct (map fst (arp_table s)) \<and> (\<forall>a \<in> fst ` set (arp_table s). a \<le> allocs s)"

text \<open>Connections that wait at a listener are not in a handshake.\<close>

definition waiting :: "kst \<Rightarrow> nat \<Rightarrow> bool" where
  "waiting s c \<longleftrightarrow> (\<exists>l x. listeners s l = Some x \<and> c \<in> set (ls_wait x))"

definition k_waits :: "kst \<Rightarrow> bool" where
  "k_waits s \<longleftrightarrow> (\<forall>c. waiting s c \<longrightarrow> c \<le> allocs s \<and> (\<forall>y. conns s c = Some y \<longrightarrow> \<not> handshake y \<and> \<not> c_to_armed y))"

definition k_inv :: "nat set \<Rightarrow> nat set \<Rightarrow> kst \<Rightarrow> bool" where
  "k_inv X T s \<longleftrightarrow> k_timers T s \<and> k_conns X s \<and> k_arps s \<and> k_waits s"

text \<open>What the invariant looks at; a step that keeps it, and may allocate.\<close>

definition k_view :: "kst \<Rightarrow> _" where
  "k_view s = (tmgr.truncate s, \<lambda>c. map_option (\<lambda>x. (c_to_armed x, c_status x)) (conns s c), tcp_conns s,
     map (\<lambda>(a, ae). (a, ae_ready ae)) (arp_table s), listeners s)"

definition k_same :: "kst \<Rightarrow> kst \<Rightarrow> bool" where
  "k_same s s' \<longleftrightarrow> k_view s' = k_view s \<and> allocs s \<le> allocs s'"

lemma k_same_refl [simp]: "k_same s s" by (simp add: k_same_def)

lemma k_same_trans: "k_same a b \<Longrightarrow> k_same b c \<Longrightarrow> k_same a c" by (simp add: k_same_def)


lemma k_view_eq:
  assumes "k_view s' = k_view s"
  shows "tmgr.truncate s' = tmgr.truncate s" "tcp_conns s' = tcp_conns s"
    "map (\<lambda>(a, ae). (a, ae_ready ae)) (arp_table s') = map (\<lambda>(a, ae). (a, ae_ready ae)) (arp_table s)"
    "map_option (\<lambda>x. (c_to_armed x, c_status x)) (conns s' c) = map_option (\<lambda>x. (c_to_armed x, c_status x)) (conns s c)"
    "listeners s' = listeners s"
  using assms by (auto simp: k_view_def dest: fun_cong)

lemma truncate_lists: "tmgr.truncate (s' :: 'a tmgr_scheme) = tmgr.truncate (s :: 'a tmgr_scheme) \<Longrightarrow> to_lists s' S = to_lists s S \<and> to_type s' i = to_type s i"
  by (cases s; cases s') (simp add: tmgr.defs to_lists_def dlists_def to_type_def)

lemma ready_set:
  assumes "map (\<lambda>(a, ae). (a, ae_ready ae)) t' = map (\<lambda>(a, ae). (a, ae_ready ae)) t"
  shows "(\<exists>ae. (a, ae) \<in> set t' \<and> \<not> ae_ready ae) = (\<exists>ae. (a, ae) \<in> set t \<and> \<not> ae_ready ae)" "map fst t' = map fst t"
proof -
  have e: "(\<exists>ae. (a, ae) \<in> set t \<and> \<not> ae_ready ae) \<longleftrightarrow> (a, False) \<in> set (map (\<lambda>(a, ae). (a, ae_ready ae)) t)" for t by force
  show "(\<exists>ae. (a, ae) \<in> set t' \<and> \<not> ae_ready ae) = (\<exists>ae. (a, ae) \<in> set t \<and> \<not> ae_ready ae)" unfolding e assms ..
  have "map fst t = map fst (map (\<lambda>(a, ae). (a, ae_ready ae)) t)" for t by (simp add: comp_def case_prod_unfold)
  then show "map fst t' = map fst t" using assms by metis
qed

lemma k_inv_same:
  assumes "k_inv X T s" "k_same s s'"
  shows "k_inv X T s'"
proof -
  have v: "k_view s' = k_view s" and al: "allocs s \<le> allocs s'" using assms(2) by (simp_all add: k_same_def)
  note e = k_view_eq [OF v]
  note tl = truncate_lists [OF e(1)]
  have c: "\<exists>y. conns s c = Some y \<and> c_to_armed y = c_to_armed x \<and> c_status y = c_status x" if "conns s' c = Some x" for c x
    using e(4) [of c] that by (cases "conns s c") auto
  have c': "\<exists>y. conns s' c = Some y \<and> c_to_armed y = c_to_armed x \<and> c_status y = c_status x" if "conns s c = Some x" for c x
    using e(4) [of c] that by (cases "conns s' c") auto
  have l: "\<exists>y. listeners s l = Some y \<and> ls_wait y = ls_wait x" if "listeners s' l = Some x" for l x
    using e(5) that by simp
  note r = ready_set [OF e(3)]
  have "k_armed s' = k_armed s" unfolding k_armed_def using c c' r(1) by blast
  then have "k_timers T s'" using assms(1) tl by (simp add: k_inv_def k_timers_def)
  moreover have "k_conns X s'"
    unfolding k_conns_def
  proof (intro allI impI)
    fix d x assume "conns s' d = Some x"
    then obtain y where "conns s d = Some y" "c_to_armed y = c_to_armed x" "c_status y = c_status x" using c by blast
    then show "d \<le> allocs s' \<and> (d \<in> X \<or> k_conn_ok (tcp_conns s') d x)"
      using assms(1) al unfolding k_inv_def k_conns_def k_conn_ok_def e(2) by fastforce
  qed
  moreover have "k_waits s'"
    unfolding k_waits_def
  proof (intro allI impI)
    fix d assume "waiting s' d"
    then have "waiting s d" using l unfolding waiting_def by metis
    then have b: "d \<le> allocs s" "\<And>y. conns s d = Some y \<Longrightarrow> \<not> handshake y \<and> \<not> c_to_armed y"
      using assms(1) unfolding k_inv_def k_waits_def by blast+
    have "\<not> handshake z \<and> \<not> c_to_armed z" if "conns s' d = Some z" for z
      using c [OF that] b(2) by auto
    then show "d \<le> allocs s' \<and> (\<forall>y. conns s' d = Some y \<longrightarrow> \<not> handshake y \<and> \<not> c_to_armed y)" using b(1) al by auto
  qed
  moreover have "k_arps s'"
  proof -
    have "fst ` set (arp_table s') = fst ` set (arp_table s)" using r(2) by (metis set_map)
    then show ?thesis using assms(1) al r(2) unfolding k_inv_def k_arps_def by (metis le_trans)
  qed
  ultimately show ?thesis unfolding k_inv_def by blast
qed


section \<open>Steps that keep the view\<close>

lemma k_view_upds [simp]:
  "k_view (s\<lparr>kn := a1\<rparr>) = k_view s" "k_view (s\<lparr>actxs := a2\<rparr>) = k_view s" "k_view (s\<lparr>tapq := a3\<rparr>) = k_view s"
  "k_view (s\<lparr>applications := a4\<rparr>) = k_view s" "k_view (s\<lparr>async_q := a5\<rparr>) = k_view s" "k_view (s\<lparr>ports := a6\<rparr>) = k_view s"
  "k_view (s\<lparr>port_eph_hint := a7\<rparr>) = k_view s" "k_view (s\<lparr>krng := a8\<rparr>) = k_view s" "k_view (s\<lparr>kstat := a9\<rparr>) = k_view s"
  "k_view (s\<lparr>cc_prev_ts := b1\<rparr>) = k_view s" "k_view (s\<lparr>multis := b2\<rparr>) = k_view s" "k_view (s\<lparr>cur_ts := b3\<rparr>) = k_view s"
  "k_view (s\<lparr>fp_scale_to := b4\<rparr>) = k_view s" "k_view (s\<lparr>allocs := b5\<rparr>) = k_view s"
  by (simp_all add: k_view_def tmgr.defs)

lemma k_view_upd_conn:
  "(\<And>x. c_to_armed (f x) = c_to_armed x \<and> c_status (f x) = c_status x) \<Longrightarrow> k_view (upd_conn c f s) = k_view s"
  by (auto simp: k_view_def upd_conn_def tmgr.defs fun_eq_iff option.map_comp comp_def)

lemma k_view_simps [simp]:
  "k_view (upd_dmem f s) = k_view s" "allocs (upd_dmem f s) = allocs s"
  "k_view (upd_actx a g s) = k_view s" "allocs (upd_actx a g s) = allocs s"
  "k_view (k_packetmem_free h s) = k_view s" "allocs (k_packetmem_free h s) = allocs s"
  "allocs (upd_conn c h' s) = allocs s" "allocs (upd_listener l f' s) = allocs s"
  "k_view (tap_write e bs s) = k_view s" "allocs (tap_write e bs s) = allocs s"
  by (simp_all add: upd_dmem_def upd_actx_def k_packetmem_free_def upd_conn_def upd_listener_def tap_write_def)

text \<open>Every result of \<open>m\<close> keeps the view of \<open>s\<close>.\<close>

abbreviation k_keeps :: "kst \<Rightarrow> kst res \<Rightarrow> bool" where
  "k_keeps s m \<equiv> post m (k_same s)"

abbreviation k_keeps2 :: "kst \<Rightarrow> (kst \<times> 'a) res \<Rightarrow> bool" where
  "k_keeps2 s m \<equiv> post m (\<lambda>(s', _). k_same s s')"

lemma k_sameI: "k_view s' = k_view s \<Longrightarrow> allocs s \<le> allocs s' \<Longrightarrow> k_same s s'"
  by (simp add: k_same_def)

lemma k_same_upd_conn: "(\<And>x. c_to_armed (f x) = c_to_armed x \<and> c_status (f x) = c_status x) \<Longrightarrow> k_same s (upd_conn c f s)"
  by (simp add: k_same_def k_view_upd_conn)

lemma post_deref: "(\<And>x. h a = Some x \<Longrightarrow> Q x) \<Longrightarrow> post (deref h a) Q"
  by (auto simp: deref_def split: option.splits)

lemma deref_Inr [simp]: "deref h a = Inr x \<longleftrightarrow> h a = Some x"
  by (simp add: deref_def split: option.splits)

lemma keeps_send_frame: "k_keeps2 s (send_frame bs len s)"
  unfolding send_frame_def Let_def
  by (auto intro!: post_any [where m = "nicif_tx_alloc _ _"] post_split k_sameI)

lemma keeps_send_control: "k_keeps2 s (send_control e x fl ts mss s)"
  unfolding send_control_def send_control_raw_def Let_def by (rule keeps_send_frame)

lemma keeps_conn_send: "k_keeps s (conn_send e c fl ts mss s)"
  unfolding conn_send_def by (auto intro!: post_deref post_mono [OF keeps_send_control])

lemma keeps_send_reset: "k_keeps2 s (send_reset e p os s)"
  unfolding send_reset_def send_control_raw_def Let_def
  by (auto intro!: post_any [where m = "case_option _ _ _"] keeps_send_frame)

lemma keeps_request_tx: "k_keeps2 s (request_tx e ip s)" "k_keeps2 s (response_tx e m ip s)"
  unfolding request_tx_def response_tx_def by (rule keeps_send_frame)+

lemma keeps_kick: "k_keeps s (appif_ctx_kick a s)"
  unfolding appif_ctx_kick_def by (auto intro!: post_deref k_sameI)

lemma keeps_newconn: "k_keeps s (appif_listen_newconn l ip port s)"
  unfolding appif_listen_newconn_def Let_def
  by (auto intro!: post_deref post_if post_mono [OF keeps_kick] simp: k_same_def)

lemma keeps_conn_msg: "k_keeps s (appif_conn_msg ok ty c 0 s)"
  unfolding appif_conn_msg_def Let_def
  by (auto intro!: post_deref post_if post_mono [OF keeps_kick] simp: k_same_def)

lemma k_same_app_add_conn: "k_same s (app_add_conn a c s)"
  by (auto simp: app_add_conn_def k_same_def split: option.splits)

lemma keeps_accept_conn: "k_keeps s (appif_accept_conn c 0 s)"
  unfolding appif_accept_conn_def Let_def
  by (auto intro!: post_deref post_mono [OF keeps_conn_msg] intro: k_same_trans k_same_app_add_conn)

lemma keeps_add_flow: "k_keeps2 s (conn_add_flow e c off s)"
  unfolding conn_add_flow_def
  by (auto intro!: post_deref post_any [where m = "nicif_connection_add _ _ _"] post_split k_sameI trans [OF k_view_upd_conn])

lemma cc_conn_init_frame: "cc_conn_init cf now x = Inr y \<Longrightarrow> c_to_armed y = c_to_armed x \<and> c_status y = c_status x"
  by (auto simp: cc_conn_init_def dctcp_win_init_def dctcp_rate_init_def timely_init_def const_rate_init_def Let_def
      bind_res_Inr_iff split: config_cc_algorithm.splits)

lemma keeps_cc_init: "k_keeps s (conn_cc_init c s)"
proof -
  have "k_same s (upd_conn c (\<lambda>_. y) s)" if "conns s c = Some x" "cc_conn_init (cfg s) (cur_ts s) x = Inr y" for x y
    using that cc_conn_init_frame [OF that(2)] by (auto simp: k_same_def k_view_def upd_conn_def tmgr.defs)
  then show ?thesis unfolding conn_cc_init_def by (auto intro!: post_deref postI)
qed


section \<open>Steps that change one owner\<close>

lemma timer_ids [simp]: "conn_to c = conn_to d \<longleftrightarrow> c = d" "arp_to_obj a = arp_to_obj b \<longleftrightarrow> a = b"
  "conn_to c \<noteq> arp_to_obj a" "arp_to_obj a \<noteq> conn_to c" "conn_to c div 2 = c" "arp_to_obj a div 2 = a"
  "owner_type (conn_to c) = TO_TCP_HANDSHAKE" "owner_type (arp_to_obj a) = TO_ARP_REQ"
  by (simp_all add: conn_to_def arp_to_obj_def owner_type_def) presburger+

lemma k_more:
  assumes "tmgr.more (s' :: kst) = tmgr.more s"
  shows "conns s' = conns s" "tcp_conns s' = tcp_conns s" "arp_table s' = arp_table s" "listeners s' = listeners s"
    "allocs s' = allocs s" "async_q s' = async_q s" "cfg s' = cfg s"
  using assms by (cases s; cases s'; simp)+

lemma k_armed_conn [simp]: "conn_to c \<in> k_armed s \<longleftrightarrow> (\<exists>x. conns s c = Some x \<and> c_to_armed x)"
  by (auto simp: k_armed_def)

lemma k_armed_arp [simp]: "arp_to_obj a \<in> k_armed s \<longleftrightarrow> (\<exists>ae. (a, ae) \<in> set (arp_table s) \<and> \<not> ae_ready ae)"
  by (auto simp: k_armed_def)

lemma upd_conn_simps [simp]:
  "conns (upd_conn c f s) d = (if d = c then map_option f (conns s c) else conns s d)"
  "tcp_conns (upd_conn c f s) = tcp_conns s" "arp_table (upd_conn c f s) = arp_table s"
  "listeners (upd_conn c f s) = listeners s" "async_q (upd_conn c f s) = async_q s"
  "to_lists (upd_conn c f s) S = to_lists s S" "to_type (upd_conn c f s) i = to_type s i" "cfg (upd_conn c f s) = cfg s"
  by (simp_all add: upd_conn_def to_lists_def dlists_def to_type_def)

lemma k_armed_upd:
  assumes "conns s' = (conns s)(c \<mapsto> y)" "arp_table s' = arp_table s"
  shows "k_armed s' = (if c_to_armed y then insert (conn_to c) (k_armed s) else k_armed s - {conn_to c})"
  using assms by (auto simp: k_armed_def)

text \<open>Everything but the timers, when only connection \<open>c\<close> changes.\<close>

lemma handshake_not_waiting: "k_inv X T s \<Longrightarrow> conns s c = Some x \<Longrightarrow> handshake x \<or> c_to_armed x \<Longrightarrow> \<not> waiting s c"
  by (auto simp: k_inv_def k_waits_def)

lemma k_rest_conn:
  assumes "k_inv X T s" "conns s c = Some x" "conns s' = (conns s)(c \<mapsto> y)" "tcp_conns s' = tcp_conns s"
    "arp_table s' = arp_table s" "listeners s' = listeners s" "allocs s' = allocs s"
    "c \<in> X \<or> k_conn_ok (tcp_conns s) c y" "\<not> waiting s c \<or> \<not> handshake y \<and> \<not> c_to_armed y"
  shows "k_conns X s' \<and> k_arps s' \<and> k_waits s'"
proof -
  have i: "k_conns X s" "k_arps s" "k_waits s" using assms(1) by (simp_all add: k_inv_def)
  have "k_conns X s'" using i(1) assms(2,8) unfolding k_conns_def assms(3,4,7) by auto
  moreover have "k_arps s'" using i(2) unfolding k_arps_def assms(5,7) .
  moreover have "k_waits s'" using i(3) assms(9) unfolding k_waits_def waiting_def assms(3,6,7) by (auto split: if_splits)
  ultimately show ?thesis by blast
qed

lemma k_inv_upd_conn:
  assumes "k_inv X T s" "conns s c = Some x" "c_to_armed (f x) = c_to_armed x" "c \<in> X \<or> k_conn_ok (tcp_conns s) c (f x)"
    "handshake (f x) \<longrightarrow> handshake x \<or> \<not> waiting s c"
  shows "k_inv X T (upd_conn c f s)"
proof -
  have n: "conns (upd_conn c f s) = (conns s)(c \<mapsto> f x)" using assms(2) by (auto simp: fun_eq_iff)
  have "k_armed (upd_conn c f s) = k_armed s"
    using k_armed_upd [OF n] assms(2,3) by (auto simp: insert_absorb)
  then have "k_timers T (upd_conn c f s)" using assms(1) by (simp add: k_inv_def k_timers_def)
  moreover have "\<not> waiting s c \<or> \<not> handshake (f x) \<and> \<not> c_to_armed (f x)"
    using handshake_not_waiting [OF assms(1,2)] assms(3,5) by blast
  ultimately show ?thesis using k_rest_conn [OF assms(1,2) n] assms(4) by (simp add: k_inv_def)
qed

text \<open>A connection whose timeout has fired is marked so.\<close>

lemma k_inv_fired:
  assumes "k_inv X {conn_to c} s" "conns s c = Some x" "c_status (f x) = c_status x" "\<not> c_to_armed (f x)" "c_to_armed x"
  shows "k_inv X {} (upd_conn c f s)"
proof -
  have n: "conns (upd_conn c f s) = (conns s)(c \<mapsto> f x)" using assms(2) by (auto simp: fun_eq_iff)
  have ok: "c \<in> X \<or> k_conn_ok (tcp_conns s) c x" using assms(1,2) by (auto simp: k_inv_def k_conns_def)
  have w: "\<not> waiting s c" using handshake_not_waiting [OF assms(1,2)] assms(5) by blast
  have "k_armed (upd_conn c f s) = k_armed s - {conn_to c}" using k_armed_upd [OF n] assms(4) by simp
  then have "k_timers {} (upd_conn c f s)" using assms(1) by (simp add: k_inv_def k_timers_def)
  moreover have "c \<in> X \<or> k_conn_ok (tcp_conns s) c (f x)" using ok assms(3,4) by (auto simp: k_conn_ok_def)
  ultimately show ?thesis using k_rest_conn [OF assms(1,2) n] w by (simp add: k_inv_def)
qed

lemma k_inv_disarm:
  assumes "k_inv X {} s"
  shows "post (conn_timeout_disarm c s) (\<lambda>s'. k_inv X {} s' \<and> tcp_conns s' = tcp_conns s \<and> cfg s' = cfg s \<and>
    (\<exists>x. conns s c = Some x \<and> c_to_armed x \<and> conns s' = (conns s)(c \<mapsto> x\<lparr>c_to_armed := False\<rparr>)))"
proof (rule postI)
  fix s' assume "conn_timeout_disarm c s = Inr s'"
  then obtain x where x: "conns s c = Some x" "c_to_armed x" and
    d: "util_timeout_disarm (upd_conn c (\<lambda>x. x\<lparr>c_to_armed := False\<rparr>) s) (conn_to c) = Inr s'"
    by (auto simp: conn_timeout_disarm_def bind_res_Inr_iff split: if_splits)
  define s1 where "s1 = upd_conn c (\<lambda>x. x\<lparr>c_to_armed := False\<rparr>) s"
  have "to_lists s1 (k_armed s)" using assms by (simp add: k_inv_def k_timers_def s1_def)
  moreover have "conn_to c \<in> k_armed s" using x by simp
  ultimately have l: "to_lists s' (k_armed s - {conn_to c})" and ss: "same_stamps s1 s'"
    using disarm_to_lists [of s1 "k_armed s" "conn_to c" s'] d [folded s1_def] by blast+
  have m: "tmgr.more s' = tmgr.more s1" using ss by (simp add: same_stamps_def)
  note e = k_more [OF m]
  have n: "conns s' = (conns s)(c \<mapsto> x\<lparr>c_to_armed := False\<rparr>)" using x(1) unfolding e(1) by (auto simp: s1_def fun_eq_iff)
  have o: "tcp_conns s' = tcp_conns s" "arp_table s' = arp_table s" "listeners s' = listeners s" "allocs s' = allocs s" "cfg s' = cfg s"
    unfolding e by (simp_all add: s1_def)
  have ty: "to_type s' i = to_type s i" for i using ss by (simp add: same_stamps_def to_type_def s1_def upd_conn_def)
  have ok: "c \<in> X \<or> k_conn_ok (tcp_conns s) c x" using assms x(1) by (auto simp: k_inv_def k_conns_def)
  have "k_armed s' = k_armed s - {conn_to c}" using k_armed_upd [OF n o(2)] by simp
  then have "k_timers {} s'" using assms l ty by (simp add: k_inv_def k_timers_def)
  moreover have "k_conns X s' \<and> k_arps s' \<and> k_waits s'"
    using k_rest_conn [OF assms x(1) n o(1-4)] ok x(2) handshake_not_waiting [OF assms x(1)] by (auto simp: k_conn_ok_def)
  ultimately show "k_inv X {} s' \<and> tcp_conns s' = tcp_conns s \<and> cfg s' = cfg s \<and>
    (\<exists>x. conns s c = Some x \<and> c_to_armed x \<and> conns s' = (conns s)(c \<mapsto> x\<lparr>c_to_armed := False\<rparr>))"
    using x n o by (auto simp: k_inv_def)
qed

lemma k_inv_arm:
  assumes "k_inv X {} s" "\<And>x. conns s c = Some x \<Longrightarrow> c_status x = CONN_SYN_SENT"
  shows "post (conn_timeout_arm c s) (k_inv X {})"
proof (rule postI)
  fix s' assume "conn_timeout_arm c s = Inr s'"
  then obtain x r seed where x: "conns s c = Some x" "\<not> c_to_armed x" and
    d: "util_timeout_arm_ts (upd_conn c (\<lambda>x. x\<lparr>c_to_armed := True\<rparr>) (s\<lparr>krng := seed\<rparr>)) (conn_to c)
        (c_timeout x div 2 + r mod c_timeout x) TO_TCP_HANDSHAKE (time_us s) = Inr s'"
    by (auto simp: conn_timeout_arm_def k_timeout_arm_def upd_conn_def bind_res_Inr_iff split: if_splits prod.splits)
  define s1 where "s1 = upd_conn c (\<lambda>x. x\<lparr>c_to_armed := True\<rparr>) (s\<lparr>krng := seed\<rparr>)"
  have same: "to_lists s1 S = to_lists s S" "to_type s1 i = to_type s i" for S i
    by (simp_all add: s1_def upd_conn_def to_lists_def dlists_def to_type_def)
  have "to_lists s1 (k_armed s)" using assms(1) by (simp add: k_inv_def k_timers_def same)
  moreover have "conn_to c \<notin> k_armed s" using x by simp
  ultimately have l: "to_lists s' (insert (conn_to c) (k_armed s))" and m: "tmgr.more s' = tmgr.more s1" and
    ty: "to_type s' (conn_to c) = TO_TCP_HANDSHAKE" "\<forall>j. j \<noteq> conn_to c \<longrightarrow> to_type s' j = to_type s1 j"
    using arm_to_lists [of s1 "k_armed s" "conn_to c" TO_TCP_HANDSHAKE, OF _ _ _ d [folded s1_def]] by (simp_all)
  note e = k_more [OF m]
  have n: "conns s' = (conns s)(c \<mapsto> x\<lparr>c_to_armed := True\<rparr>)" using x(1) unfolding e(1) by (auto simp: s1_def upd_conn_def fun_eq_iff)
  have o: "tcp_conns s' = tcp_conns s" "arp_table s' = arp_table s" "listeners s' = listeners s" "allocs s' = allocs s"
    unfolding e by (simp_all add: s1_def upd_conn_def)
  have st: "c_status x = CONN_SYN_SENT" using assms(2) x(1) .
  have ok: "c \<in> X \<or> k_conn_ok (tcp_conns s) c x" using assms(1) x(1) by (auto simp: k_inv_def k_conns_def)
  have a: "k_armed s' = insert (conn_to c) (k_armed s)" using k_armed_upd [OF n o(2)] by simp
  have "to_type s' i = owner_type i" if "i \<in> k_armed s'" for i
    using that assms(1) ty a by (cases "i = conn_to c") (auto simp: same k_inv_def k_timers_def)
  then have "k_timers {} s'" using l a by (simp add: k_timers_def)
  moreover have "k_conns X s' \<and> k_arps s' \<and> k_waits s'"
    using k_rest_conn [OF assms(1) x(1) n o] ok st handshake_not_waiting [OF assms(1) x(1)] by (auto simp: k_conn_ok_def)
  ultimately show "k_inv X {} s'" by (simp add: k_inv_def)
qed

end
