(* ===== verification/KernelSteps.thy ===== *)
theory KernelSteps
  imports KernelInv
begin

unbundle bit_operations_syntax

text \<open>Failures of connections and address resolution keep the invariant between timers and their owners (theory KernelInv).\<close>

section \<open>Frames\<close>

lemma post_get: "(\<And>x. h a = Some x \<Longrightarrow> post (f x) Q) \<Longrightarrow> post (bind_res (deref h a) f) Q"
  by (cases "h a") (simp_all add: deref_def)

lemma k_inv_postI: "k_inv X T s \<Longrightarrow> post m (k_same s) \<Longrightarrow> post m (k_inv X T)"
  using post_mono [of m "k_same s" "k_inv X T"] k_inv_same [of X T s] by blast

lemma k_inv_postI2: "k_inv X T s \<Longrightarrow> post m (\<lambda>(s', _). k_same s s') \<Longrightarrow> post m (\<lambda>(s', _). k_inv X T s')"
  using post_mono [of m "\<lambda>(s', _). k_same s s'" "\<lambda>(s', _). k_inv X T s'"] k_inv_same [of X T s] by blast

lemma k_inv_upds [simp]:
  "k_inv X T (s\<lparr>kn := a1\<rparr>) = k_inv X T s" "k_inv X T (s\<lparr>actxs := a2\<rparr>) = k_inv X T s" "k_inv X T (s\<lparr>tapq := a3\<rparr>) = k_inv X T s"
  "k_inv X T (s\<lparr>applications := a4\<rparr>) = k_inv X T s" "k_inv X T (s\<lparr>async_q := a5\<rparr>) = k_inv X T s" "k_inv X T (s\<lparr>ports := a6\<rparr>) = k_inv X T s"
  "k_inv X T (s\<lparr>port_eph_hint := a7\<rparr>) = k_inv X T s" "k_inv X T (s\<lparr>krng := a8\<rparr>) = k_inv X T s" "k_inv X T (s\<lparr>cur_ts := b3\<rparr>) = k_inv X T s"
  "k_inv X T (s\<lparr>fp_scale_to := b4\<rparr>) = k_inv X T s"
  by (simp_all add: k_inv_def k_timers_def k_conns_def k_arps_def k_waits_def waiting_def k_armed_def to_lists_def dlists_def to_type_def)

lemma k_inv_view [simp]:
  "k_inv X T (upd_dmem f s) = k_inv X T s" "k_inv X T (upd_actx a g s) = k_inv X T s" "k_inv X T (k_packetmem_free h s) = k_inv X T s"
  "k_inv X T (tap_write e bs s) = k_inv X T s"
  by (simp_all add: upd_dmem_def upd_actx_def k_packetmem_free_def tap_write_def)

lemma k_same_conn: "k_same s s' \<Longrightarrow> conns s' c = Some x \<Longrightarrow>
    \<exists>y. conns s c = Some y \<and> c_to_armed y = c_to_armed x \<and> c_status y = c_status x"
proof -
  assume "k_same s s'" "conns s' c = Some x"
  then have "map_option (\<lambda>x. (c_to_armed x, c_status x)) (conns s c) = Some (c_to_armed x, c_status x)"
    using k_view_eq(4) [of s' s c] by (simp add: k_same_def)
  then show ?thesis by blast
qed

lemma k_same_listeners: "k_same s s' \<Longrightarrow> listeners s' = listeners s"
  using k_view_eq(5) [of s' s] by (simp add: k_same_def)

lemma k_same_waiting: "k_same s s' \<Longrightarrow> waiting s' c = waiting s c"
  by (simp add: waiting_def k_same_listeners)

lemma k_same_tcp_conns: "k_same s s' \<Longrightarrow> tcp_conns s' = tcp_conns s"
  using k_view_eq(2) [of s' s] by (simp add: k_same_def)

text \<open>The connections and the listeners that the invariant does not look at while they are set up or torn down.\<close>

lemma k_inv_drop: "k_inv (insert c X) T s \<Longrightarrow> (\<And>x. conns s c = Some x \<Longrightarrow> k_conn_ok (tcp_conns s) c x) \<Longrightarrow> k_inv X T s"
  unfolding k_inv_def k_conns_def by blast

lemma k_inv_open: "k_inv X T s \<Longrightarrow> k_inv (insert c X) T s"
  unfolding k_inv_def k_conns_def by blast

lemma k_inv_no_conn:
  assumes "k_inv X T s" "\<And>x. conns s c = Some x \<Longrightarrow> \<not> c_to_armed x"
  shows "k_inv X T (s\<lparr>conns := (conns s)(c := None)\<rparr>)"
proof -
  have "((conns s)(c := None)) d = Some x \<and> c_to_armed x \<longleftrightarrow> conns s d = Some x \<and> c_to_armed x" for d x
    using assms(2) by auto
  then have "k_armed (s\<lparr>conns := (conns s)(c := None)\<rparr>) = k_armed s" by (simp add: k_armed_def del: fun_upd_apply)
  then show ?thesis using assms(1)
    by (auto simp: k_inv_def k_timers_def k_conns_def k_arps_def k_waits_def waiting_def to_lists_def dlists_def to_type_def)
qed

lemma k_inv_register: "k_inv X T s \<Longrightarrow> k_inv X T (s\<lparr>tcp_conns := c # tcp_conns s\<rparr>)"
  by (auto simp: k_inv_def k_timers_def k_conns_def k_arps_def k_waits_def waiting_def k_armed_def to_lists_def dlists_def to_type_def k_conn_ok_def)

lemma k_inv_unregister: "k_inv X T s \<Longrightarrow> tcp_conns s = c # cs \<Longrightarrow> k_inv (insert c X) T (s\<lparr>tcp_conns := cs\<rparr>)"
  by (auto simp: k_inv_def k_timers_def k_conns_def k_arps_def k_waits_def waiting_def k_armed_def to_lists_def dlists_def to_type_def k_conn_ok_def)

lemma k_inv_frees:
  assumes "k_inv X T s" "\<And>x. conns s c = Some x \<Longrightarrow> \<not> c_to_armed x"
  shows "post (conn_free c s) (k_inv X T)" "post (tcp_destroy c s) (k_inv X T)"
proof -
  have k: "conns (k_packetmem_free h s) = conns s" for h s by (simp add: k_packetmem_free_def)
  show f: "post (conn_free c s) (k_inv X T)"
    unfolding conn_free_def Let_def using k_inv_no_conn [of X T "k_packetmem_free a (k_packetmem_free b s)" c for a b] assms
    by (auto intro!: post_deref simp: k)
  show "post (tcp_destroy c s) (k_inv X T)"
    unfolding tcp_destroy_def using f by (auto intro!: post_deref post_if)
qed

section \<open>Failures\<close>

lemma inv_kick: "k_inv X T s \<Longrightarrow> post (appif_ctx_kick a s) (k_inv X T)"
  by (rule k_inv_postI [OF _ keeps_kick])

lemma inv_conn_msg:
  assumes "k_inv {} {} s" "\<And>x. conns s c = Some x \<Longrightarrow> \<not> c_to_armed x"
  shows "post (appif_conn_msg ok ty c status s) (k_inv {} {})"
proof -
  have d: "post (tcp_destroy c (upd_dmem f s)) (k_inv {} {})" for f
    by (rule k_inv_frees) (use assms in \<open>auto simp: upd_dmem_def\<close>)
  show ?thesis unfolding appif_conn_msg_def Let_def
    by (intro post_get post_if post_seq [where P = "k_inv {} {}"] inv_kick d) (simp_all add: assms(1))
qed

lemma inv_conn_failed:
  assumes "k_inv {} {} s"
  shows "post (conn_failed c st s) (k_inv {} {})"
proof (cases "tcp_conns s = [] \<or> hd (tcp_conns s) \<noteq> c")
  case True
  then show ?thesis using assms by (cases "tcp_conns s") (auto simp: conn_failed_def)
next
  case False
  then obtain cs where cs: "tcp_conns s = c # cs" by (cases "tcp_conns s") auto
  define s1 where "s1 = s\<lparr>tcp_conns := cs\<rparr>"
  have i: "k_inv {c} {} s1" using k_inv_unregister [OF assms cs] by (simp add: s1_def)
  let ?P = "\<lambda>s2. k_inv {c} {} s2 \<and> (\<exists>x. conns s2 c = Some x \<and> \<not> c_to_armed x)"
  have fin: "post (appif_conn_opened c st (upd_conn c (\<lambda>x. x\<lparr>c_status := CONN_FAILED\<rparr>) s2)) (k_inv {} {})" if "?P s2" for s2
  proof -
    from that obtain x where i2: "k_inv {c} {} s2" "conns s2 c = Some x" "\<not> c_to_armed x" by blast
    have "k_inv {c} {} (upd_conn c (\<lambda>x. x\<lparr>c_status := CONN_FAILED\<rparr>) s2)"
      by (rule k_inv_upd_conn [OF i2(1,2)]) auto
    then have "k_inv {} {} (upd_conn c (\<lambda>x. x\<lparr>c_status := CONN_FAILED\<rparr>) s2)"
      by (rule k_inv_drop) (use i2(2,3) in \<open>auto simp: k_conn_ok_def\<close>)
    then show ?thesis unfolding appif_conn_opened_def by (rule inv_conn_msg) (use i2(2,3) in auto)
  qed
  have dis: "post (conn_timeout_disarm c s1) ?P"
    using k_inv_disarm [OF i, of c] by (rule post_mono) auto
  have cr: "conns s1 = conns s" by (simp add: s1_def)
  show ?thesis unfolding conn_failed_def cs using i cr dis unfolding s1_def
    by (auto intro!: post_get post_seq [where P = ?P] fin simp del: post_simps(3))
qed

section \<open>Address resolution\<close>

definition same_conns :: "kst \<Rightarrow> kst \<Rightarrow> bool" where
  "same_conns s s' \<longleftrightarrow> tcp_conns s' = tcp_conns s \<and> (\<forall>d. waiting s' d = waiting s d) \<and>
     (\<forall>d. map_option (\<lambda>x. (c_to_armed x, c_status x)) (conns s' d) = map_option (\<lambda>x. (c_to_armed x, c_status x)) (conns s d))"

lemma same_conns_refl [simp]: "same_conns s s" by (simp add: same_conns_def)

lemma same_conns_trans: "same_conns a b \<Longrightarrow> same_conns b c \<Longrightarrow> same_conns a c" by (simp add: same_conns_def)

lemma k_same_conns: "k_same s s' \<Longrightarrow> same_conns s s'"
  using k_same_tcp_conns [of s s'] k_same_waiting [of s s'] k_view_eq(4) [of s' s] by (simp add: same_conns_def k_same_def)

lemma same_connsD: "same_conns s s' \<Longrightarrow> conns s c = Some x \<Longrightarrow> \<exists>y. conns s' c = Some y \<and> c_to_armed y = c_to_armed x \<and> c_status y = c_status x"
proof -
  assume "same_conns s s'" "conns s c = Some x"
  then have "map_option (\<lambda>x. (c_to_armed x, c_status x)) (conns s' c) = Some (c_to_armed x, c_status x)" by (simp add: same_conns_def)
  then show ?thesis by auto
qed

lemma ae_lookup_set: "ae_lookup t ip = Some (a, ae) \<Longrightarrow> (a, ae) \<in> set t \<and> ae_ip ae = ip"
  by (induction t) (auto split: if_splits)

lemma ae_upd_map [simp]: "map fst (ae_upd a f t) = map fst t"
  by (induction t) auto

lemma ae_upd_fst [simp]: "fst ` set (ae_upd a f t) = fst ` set t"
  using ae_upd_map [of a f t] by (metis list.set_map)

lemma ae_upd_set:
  "distinct (map fst t) \<Longrightarrow> (b, ae) \<in> set (ae_upd a f t) \<longleftrightarrow> (if b = a then \<exists>x. (a, x) \<in> set t \<and> ae = f x else (b, ae) \<in> set t)"
proof (induction t)
  case (Cons p t)
  obtain c y where p: "p = (c, y)" by (cases p)
  have "c = a \<Longrightarrow> (a, x) \<notin> set t" for x using Cons.prems p by force
  then show ?case using Cons p by (cases "c = a") auto
qed simp

lemma ae_upd_ready: "(\<And>ae. ae_ready (f ae) = ae_ready ae) \<Longrightarrow> map (\<lambda>(a, ae). (a, ae_ready ae)) (ae_upd a f t) = map (\<lambda>(a, ae). (a, ae_ready ae)) t"
  by (induction t) auto

lemma k_same_ae_upd: "(\<And>ae. ae_ready (f ae) = ae_ready ae) \<Longrightarrow> k_same s (s\<lparr>arp_table := ae_upd a f (arp_table s)\<rparr>)"
  by (simp add: k_same_def k_view_def tmgr.defs ae_upd_ready)

lemma keeps_notify: "post (arp_notify m st cs s) (k_same s)"
proof (induction cs arbitrary: s)
  case (Cons c cs)
  show ?case unfolding arp_notify.simps Let_def
  proof (rule post_get)
    fix x
    define s1 where "s1 = upd_conn c (\<lambda>x. x\<lparr>c_remote_mac := (case m of None \<Rightarrow> c_remote_mac x
                 | Some mac \<Rightarrow> le64_of (be48_bytes mac @ drop 6 (le64_bytes (c_remote_mac x)))), comp_status := st\<rparr>) s"
    have k: "k_same s s1" unfolding s1_def by (rule k_same_upd_conn) simp
    have "k_same s (s1\<lparr>async_q := nbqueue_enq (async_q s1) c\<rparr>)" by (rule k_same_trans [OF k]) (simp add: k_same_def)
    then have "post (arp_notify m st cs (s1\<lparr>async_q := nbqueue_enq (async_q s1) c\<rparr>)) (k_same s)"
      using Cons.IH k_same_trans by (blast intro: post_mono)
    then show "post (arp_notify m st cs ((upd_conn c (\<lambda>x. x\<lparr>c_remote_mac := (case m of None \<Rightarrow> c_remote_mac x
                 | Some mac \<Rightarrow> le64_of (be48_bytes mac @ drop 6 (le64_bytes (c_remote_mac x)))), comp_status := st\<rparr>) s)
         \<lparr>async_q := nbqueue_enq (async_q (upd_conn c (\<lambda>x. x\<lparr>c_remote_mac := (case m of None \<Rightarrow> c_remote_mac x
                 | Some mac \<Rightarrow> le64_of (be48_bytes mac @ drop 6 (le64_bytes (c_remote_mac x)))), comp_status := st\<rparr>) s)) c\<rparr>)) (k_same s)"
      unfolding s1_def .
  qed
qed simp

text \<open>The table and the timers change, the connections do not.\<close>

lemma k_inv_arpI:
  assumes "k_inv X T s" "tmgr.more s1 = tmgr.more s" "s' = s1\<lparr>arp_table := t\<rparr>" "distinct (map fst t)" "\<forall>a \<in> fst ` set t. a \<le> allocs s"
    "to_lists s1 S" "k_armed s' - T' = S" "\<forall>i \<in> k_armed s'. to_type s1 i = owner_type i"
  shows "k_inv X T' s' \<and> same_conns s s'"
proof -
  note e = k_more [OF assms(2)]
  have "k_timers T' s'" using assms(6-8) by (simp add: k_timers_def assms(3) to_lists_def dlists_def to_type_def)
  moreover have "k_conns X s'" "k_waits s'" "k_arps s'"
    using assms(1,4,5) by (simp_all add: k_inv_def k_conns_def k_waits_def waiting_def k_arps_def assms(3) e)
  ultimately show ?thesis by (simp add: k_inv_def same_conns_def waiting_def assms(3) e)
qed

lemma k_armed_arp_cong: "conns s' = conns s \<Longrightarrow>
   (\<And>a. (\<exists>ae. (a, ae) \<in> set (arp_table s') \<and> \<not> ae_ready ae) = (Q a \<and> (\<exists>ae. (a, ae) \<in> set (arp_table s) \<and> \<not> ae_ready ae))) \<Longrightarrow>
   k_armed s' = k_armed s - {arp_to_obj a | a. \<not> Q a}"
  unfolding k_armed_def by auto

lemma inv_arp_new:
  assumes "k_inv X {} s" "a \<notin> fst ` set (arp_table s)" "a \<le> allocs s" "\<not> ae_ready ae"
  shows "post (k_timeout_arm (arp_to_obj a) us TO_ARP_REQ s)
    (\<lambda>s1. k_inv X {} (s1\<lparr>arp_table := (a, ae) # arp_table s1\<rparr>) \<and> same_conns s (s1\<lparr>arp_table := (a, ae) # arp_table s1\<rparr>))"
proof (rule postI)
  fix s1 assume "k_timeout_arm (arp_to_obj a) us TO_ARP_REQ s = Inr s1"
  then have d: "util_timeout_arm_ts s (arp_to_obj a) us TO_ARP_REQ (time_us s) = Inr s1" by (simp add: k_timeout_arm_def)
  have i: "arp_to_obj a \<notin> k_armed s" using assms(2) by force
  have t: "to_lists s (k_armed s)" "\<forall>i \<in> k_armed s. to_type s i = owner_type i" "k_arps s"
    using assms(1) by (simp_all add: k_inv_def k_timers_def)
  from arm_to_lists [OF t(1) i _ d] have l: "to_lists s1 (insert (arp_to_obj a) (k_armed s))" "tmgr.more s1 = tmgr.more s"
    "to_type s1 (arp_to_obj a) = TO_ARP_REQ" "\<forall>j. j \<noteq> arp_to_obj a \<longrightarrow> to_type s1 j = to_type s j" by simp_all
  note e = k_more [OF l(2)]
  have k: "k_armed (s1\<lparr>arp_table := (a, ae) # arp_table s\<rparr>) = insert (arp_to_obj a) (k_armed s)"
    using assms(4) by (auto simp: k_armed_def e)
  have ty: "to_type s1 j = owner_type j" if "j \<in> k_armed s" for j
    using t(2) l(4) i that by metis
  show "k_inv X {} (s1\<lparr>arp_table := (a, ae) # arp_table s1\<rparr>) \<and> same_conns s (s1\<lparr>arp_table := (a, ae) # arp_table s1\<rparr>)"
    by (rule k_inv_arpI [OF assms(1) l(2) refl _ _ l(1)])
      (use t(3) l(3) ty assms(2,3) in \<open>auto simp: k e(3) k_arps_def\<close>)
qed

lemma inv_arp_rearm:
  assumes "k_inv X {arp_to_obj a} s" "(a, ae) \<in> set (arp_table s)" "\<not> ae_ready ae"
  shows "post (k_timeout_arm (arp_to_obj a) us TO_ARP_REQ s) (k_inv X {})"
proof (rule postI)
  fix s1 assume "k_timeout_arm (arp_to_obj a) us TO_ARP_REQ s = Inr s1"
  then have d: "util_timeout_arm_ts s (arp_to_obj a) us TO_ARP_REQ (time_us s) = Inr s1" by (simp add: k_timeout_arm_def)
  have t: "to_lists s (k_armed s - {arp_to_obj a})" "\<forall>i \<in> k_armed s. to_type s i = owner_type i" "k_arps s"
    using assms(1) by (simp_all add: k_inv_def k_timers_def)
  have "arp_to_obj a \<in> k_armed s" using assms(2,3) by auto
  with arm_to_lists [OF t(1) _ _ d] have l: "to_lists s1 (k_armed s)" "tmgr.more s1 = tmgr.more s"
    "to_type s1 (arp_to_obj a) = TO_ARP_REQ" "\<forall>j. j \<noteq> arp_to_obj a \<longrightarrow> to_type s1 j = to_type s j" by (simp_all add: insert_absorb)
  note e = k_more [OF l(2)]
  have k: "k_armed (s1\<lparr>arp_table := arp_table s\<rparr>) = k_armed s" by (simp add: k_armed_def e)
  have ty: "to_type s1 i = owner_type i" if "i \<in> k_armed s" for i
    using t(2) l(3,4) that by (cases "i = arp_to_obj a") auto
  have "k_inv X {} (s1\<lparr>arp_table := arp_table s\<rparr>) \<and> same_conns s (s1\<lparr>arp_table := arp_table s\<rparr>)"
    by (rule k_inv_arpI [OF assms(1) l(2) refl _ _ l(1)]) (use t(3) ty in \<open>auto simp: k k_arps_def\<close>)
  moreover have "s1\<lparr>arp_table := arp_table s\<rparr> = s1" by (rule kst.equality) (simp_all add: e)
  ultimately show "k_inv X {} s1" by simp
qed

lemma inv_arp_gone:
  assumes "k_inv X {arp_to_obj a} s"
  shows "k_inv X {} (s\<lparr>arp_table := filter (\<lambda>(b, _). b \<noteq> a) (arp_table s)\<rparr>)"
proof -
  let ?s' = "s\<lparr>arp_table := filter (\<lambda>(b, _). b \<noteq> a) (arp_table s)\<rparr>"
  have t: "to_lists s (k_armed s - {arp_to_obj a})" "\<forall>i \<in> k_armed s. to_type s i = owner_type i" "k_arps s"
    using assms(1) by (simp_all add: k_inv_def k_timers_def)
  have k: "k_armed ?s' = k_armed s - {arp_to_obj a}" by (subst k_armed_arp_cong [where Q = "\<lambda>b. b \<noteq> a" and s = s]) auto
  have "distinct (map fst (filter (\<lambda>(b, _). b \<noteq> a) (arp_table s)))" using t(3) by (simp add: k_arps_def distinct_map_filter)
  then have "k_inv X {} ?s' \<and> same_conns s ?s'"
    by (intro k_inv_arpI [OF assms(1) refl refl _ _ t(1)]) (use t(2,3) in \<open>auto simp: k k_arps_def\<close>)
  then show ?thesis by blast
qed

lemma inv_arp_ready:
  assumes "k_inv X {} s" "(a, ae) \<in> set (arp_table s)" "\<not> ae_ready ae" "\<And>ae. ae_ready (f ae)"
  shows "post (util_timeout_disarm s (arp_to_obj a)) (\<lambda>s1. k_inv X {} (s1\<lparr>arp_table := ae_upd a f (arp_table s1)\<rparr>))"
proof (rule postI)
  fix s1 assume d: "util_timeout_disarm s (arp_to_obj a) = Inr s1"
  have t: "to_lists s (k_armed s)" "\<forall>i \<in> k_armed s. to_type s i = owner_type i" "k_arps s"
    using assms(1) by (simp_all add: k_inv_def k_timers_def)
  have "arp_to_obj a \<in> k_armed s" using assms(2,3) by auto
  from disarm_to_lists [OF t(1) this d] have l: "to_lists s1 (k_armed s - {arp_to_obj a})" "same_stamps s s1" by simp_all
  have m: "tmgr.more s1 = tmgr.more s" using l(2) by (simp add: same_stamps_def)
  note e = k_more [OF m]
  let ?s' = "s1\<lparr>arp_table := ae_upd a f (arp_table s1)\<rparr>"
  have dt: "distinct (map fst (arp_table s))" using t(3) by (simp add: k_arps_def)
  have k: "k_armed (s1\<lparr>arp_table := ae_upd a f (arp_table s)\<rparr>) = k_armed s - {arp_to_obj a}"
    by (subst k_armed_arp_cong [where Q = "\<lambda>b. b \<noteq> a" and s = s]) (use assms(4) in \<open>auto simp: e ae_upd_set [OF dt]\<close>)
  have ty: "to_type s1 i = to_type s i" for i using l(2) by (simp add: same_stamps_def to_type_def)
  have "k_inv X {} ?s' \<and> same_conns s ?s'"
    by (rule k_inv_arpI [OF assms(1) m refl _ _ l(1)]) (use t(2,3) in \<open>auto simp: k k_arps_def e(3) ty\<close>)
  then show "k_inv X {} ?s'" by blast
qed

lemma k_same_arp:
  assumes "k_same s s'"
  shows "map fst (arp_table s') = map fst (arp_table s)" "fst ` set (arp_table s') = fst ` set (arp_table s)"
    "(\<exists>ae. (a, ae) \<in> set (arp_table s') \<and> \<not> ae_ready ae) = (\<exists>ae. (a, ae) \<in> set (arp_table s) \<and> \<not> ae_ready ae)"
proof -
  have e: "map (\<lambda>(a, ae). (a, ae_ready ae)) (arp_table s') = map (\<lambda>(a, ae). (a, ae_ready ae)) (arp_table s)"
    using k_view_eq(3) [of s' s] assms by (simp add: k_same_def)
  show m: "map fst (arp_table s') = map fst (arp_table s)" by (rule ready_set(2) [OF e])
  then show "fst ` set (arp_table s') = fst ` set (arp_table s)" by (metis list.set_map)
  show "(\<exists>ae. (a, ae) \<in> set (arp_table s') \<and> \<not> ae_ready ae) = (\<exists>ae. (a, ae) \<in> set (arp_table s) \<and> \<not> ae_ready ae)"
    by (rule ready_set(1) [OF e])
qed

lemma k_same_malloc: "malloc s = (r, s') \<Longrightarrow> k_same s s' \<and> (\<forall>a. r = Some a \<longrightarrow> a = Suc (allocs s) \<and> a = allocs s')"
  by (auto simp: malloc_def k_same_def split: if_splits)

lemma inv_arp_request:
  assumes "k_inv X {} s"
  shows "post (arp_request e c ip s) (\<lambda>(s', r). k_inv X {} s' \<and> same_conns s s')"
proof -
  define s0 where "s0 = upd_conn c (\<lambda>c. c\<lparr>c_remote_mac := 0\<rparr>) s"
  have k0: "k_same s s0" unfolding s0_def by (rule k_same_upd_conn) simp
  have fin: "k_inv X {} s' \<and> same_conns s s'" if "k_same s0 s'" for s'
    using k_inv_same [OF assms] k_same_conns k_same_trans [OF k0 that] by blast
  show ?thesis unfolding arp_request_def Let_def s0_def [symmetric]
  proof (intro post_option post_pair post_if)
    fix y :: "nat \<times> arp_entry" and a ae assume "y = (a, ae)"
    show "post (Inr (upd_conn c (\<lambda>c. c\<lparr>c_remote_mac := mac64 (ae_mac ae)\<rparr>) s0, 0)) (\<lambda>(s', r). k_inv X {} s' \<and> same_conns s s')"
      using fin [OF k_same_upd_conn] by simp
    show "post (Inr (s0\<lparr>arp_table := ae_upd a (\<lambda>ae. ae\<lparr>ae_compl := c # ae_compl ae\<rparr>) (arp_table s0)\<rparr>, 1)) (\<lambda>(s', r). k_inv X {} s' \<and> same_conns s s')"
      using fin [OF k_same_ae_upd] by simp
  next
    fix r s1 assume m: "malloc s0 = (r, s1)"
    then have k1: "k_same s0 s1" using k_same_malloc by blast
    show "post (Inr (s1, -1)) (\<lambda>(s', r). k_inv X {} s' \<and> same_conns s s')" using fin [OF k1] by simp
    fix a assume "r = Some a"
    then have a: "a = Suc (allocs s0)" "a = allocs s1" using k_same_malloc m by blast+
    show "post (bind_res (request_tx e ip s1) (\<lambda>(s, _). bind_res (k_timeout_arm (arp_to_obj a) (arp_to (cfg s)) TO_ARP_REQ s) (\<lambda>s.
       Inr (s\<lparr>arp_table := (a, \<lparr>ae_ready = False, ae_ip = ip, ae_mac = 0, ae_compl = [c], ae_timeout = arp_to (cfg s)\<rparr>) # arp_table s\<rparr>, 1))))
      (\<lambda>(s', r). k_inv X {} s' \<and> same_conns s s')"
    proof (rule post_seq2 [OF keeps_request_tx(1)], unfold prod.case)
      fix s2 and b :: int assume k2: "k_same s1 s2"
      have k: "k_same s0 s2" by (rule k_same_trans [OF k1 k2])
      have i: "k_inv X {} s2" and sc: "same_conns s s2" using fin [OF k] by blast+
      have "\<forall>b \<in> fst ` set (arp_table s0). b \<le> allocs s0"
        using k_inv_same [OF assms k0] by (simp add: k_inv_def k_arps_def)
      then have f: "a \<notin> fst ` set (arp_table s2)" using a(1) unfolding k_same_arp(2) [OF k] by fastforce
      have le: "a \<le> allocs s2" using k2 a(2) by (simp add: k_same_def)
      have nw: "post (k_timeout_arm (arp_to_obj a) (arp_to (cfg s2)) TO_ARP_REQ s2) (\<lambda>s3. \<forall>ae. \<not> ae_ready ae \<longrightarrow>
          k_inv X {} (s3\<lparr>arp_table := (a, ae) # arp_table s3\<rparr>) \<and> same_conns s2 (s3\<lparr>arp_table := (a, ae) # arp_table s3\<rparr>))"
        by (rule postI) (use postD [OF inv_arp_new [OF i f le]] in blast)
      show "post (bind_res (k_timeout_arm (arp_to_obj a) (arp_to (cfg s2)) TO_ARP_REQ s2) (\<lambda>s.
         Inr (s\<lparr>arp_table := (a, \<lparr>ae_ready = False, ae_ip = ip, ae_mac = 0, ae_compl = [c], ae_timeout = arp_to (cfg s)\<rparr>) # arp_table s\<rparr>, 1)))
        (\<lambda>(s', r). k_inv X {} s' \<and> same_conns s s')"
        by (rule post_seq [OF nw]) (use same_conns_trans [OF sc] in simp)
    qed
  qed
qed

lemma inv_routing_resolve:
  assumes "k_inv X {} s"
  shows "post (routing_resolve e c ip s) (\<lambda>(s', r). k_inv X {} s' \<and> same_conns s s')"
  unfolding routing_resolve_def by (intro post_skip post_if inv_arp_request) (simp_all add: assms)

lemma inv_arp_reply:
  assumes "k_inv {} {} s"
  shows "post (arp_reply p s) (k_inv {} {})"
proof (cases "ae_lookup (arp_table s) (ar_spa p)")
  case None
  then show ?thesis using assms by (simp add: arp_reply_def)
next
  case (Some y)
  obtain a ae where y: "y = (a, ae)" by (cases y)
  let ?f = "\<lambda>ae. ae\<lparr>ae_mac := ar_sha p, ae_ready := True\<rparr>"
  have m: "(a, ae) \<in> set (arp_table s)" using ae_lookup_set Some y by blast
  have d: "distinct (map fst (arp_table s))" using assms by (simp add: k_inv_def k_arps_def)
  have "post (if ae_ready ae then Inr s else util_timeout_disarm s (arp_to_obj a)) (\<lambda>s1. k_inv {} {} (s1\<lparr>arp_table := ae_upd a ?f (arp_table s1)\<rparr>))"
  proof (rule post_if)
    assume r: "ae_ready ae"
    have "map (\<lambda>(a, ae). (a, ae_ready ae)) (ae_upd a ?f t) = map (\<lambda>(a, ae). (a, ae_ready ae)) t"
      if "(a, ae) \<in> set t" "distinct (map fst t)" for t using that r by (induction t) force+
    then have "k_same s (s\<lparr>arp_table := ae_upd a ?f (arp_table s)\<rparr>)" using m d by (simp add: k_same_def k_view_def tmgr.defs)
    then show "post (Inr s) (\<lambda>s1. k_inv {} {} (s1\<lparr>arp_table := ae_upd a ?f (arp_table s1)\<rparr>))"
      using k_inv_same [OF assms] by simp
  qed (use inv_arp_ready [OF assms m, of ?f] in simp)
  moreover have "post (bind_res (arp_notify (Some (ar_sha p)) 0 (ae_compl ae) s2) (\<lambda>s. Inr (s\<lparr>arp_table := ae_upd a (\<lambda>ae. ae\<lparr>ae_compl := []\<rparr>) (arp_table s)\<rparr>))) (k_inv {} {})"
    if "k_inv {} {} s2" for s2
  proof (rule post_seq [OF k_inv_postI [OF that keeps_notify]])
    fix s3 assume "k_inv {} {} s3"
    then show "post (Inr (s3\<lparr>arp_table := ae_upd a (\<lambda>ae. ae\<lparr>ae_compl := []\<rparr>) (arp_table s3)\<rparr>)) (k_inv {} {})"
      using k_inv_same k_same_ae_upd [of "\<lambda>ae. ae\<lparr>ae_compl := []\<rparr>"] by fastforce
  qed
  ultimately show ?thesis unfolding arp_reply_def Some y option.case prod.case by (rule post_seq)
qed

lemma inv_arp_packet:
  assumes "k_inv {} {} s"
  shows "post (arp_packet e p s) (k_inv {} {})"
  unfolding arp_packet_def
  by (intro post_if inv_arp_reply assms post_seq2 [OF k_inv_postI2 [OF assms keeps_request_tx(2)]]) (simp_all add: assms)

lemma inv_arp_timeout:
  assumes "k_inv {} {arp_to_obj a} s"
  shows "post (arp_timeout e a s) (k_inv {} {})"
proof (cases "map_of (arp_table s) a")
  case None
  then show ?thesis by (simp add: arp_timeout_def)
next
  case (Some ae)
  then have m: "(a, ae) \<in> set (arp_table s)" by (rule map_of_SomeD)
  have gone: "post (bind_res (arp_notify None (-1) (ae_compl ae) s) (\<lambda>s. Inr (s\<lparr>arp_table := filter (\<lambda>(b, _). b \<noteq> a) (arp_table s)\<rparr>))) (k_inv {} {})"
    by (rule post_seq [OF k_inv_postI [OF assms keeps_notify]]) (simp add: inv_arp_gone)
  have again: "post (bind_res (request_tx e (ae_ip ae) s) (\<lambda>(s, _). k_timeout_arm (arp_to_obj a) (ae_timeout ae * 2) TO_ARP_REQ
      (s\<lparr>arp_table := ae_upd a (\<lambda>ae. ae\<lparr>ae_timeout := ae_timeout ae * 2\<rparr>) (arp_table s)\<rparr>))) (k_inv {} {})" if r: "\<not> ae_ready ae"
  proof (rule post_seq2 [OF keeps_request_tx(1)], unfold prod.case)
    fix s1 and b :: int assume k: "k_same s s1"
    define s2 where "s2 = s1\<lparr>arp_table := ae_upd a (\<lambda>ae. ae\<lparr>ae_timeout := ae_timeout ae * 2\<rparr>) (arp_table s1)\<rparr>"
    have k2: "k_same s s2" unfolding s2_def by (rule k_same_trans [OF k k_same_ae_upd]) simp
    obtain ae' where "(a, ae') \<in> set (arp_table s2)" "\<not> ae_ready ae'" using k_same_arp(3) [OF k2, of a] m r by blast
    from inv_arp_rearm [OF k_inv_same [OF assms k2] this]
    show "post (k_timeout_arm (arp_to_obj a) (ae_timeout ae * 2) TO_ARP_REQ
      (s1\<lparr>arp_table := ae_upd a (\<lambda>ae. ae\<lparr>ae_timeout := ae_timeout ae * 2\<rparr>) (arp_table s1)\<rparr>)) (k_inv {} {})" unfolding s2_def .
  qed
  show ?thesis unfolding arp_timeout_def Some option.case by (intro post_if gone again) simp_all
qed

end
