(* ===== verification/KernelOpen.thy ===== *)
theory KernelOpen
  imports KernelSteps
begin

unbundle bit_operations_syntax

text \<open>Active opens, handshake timeouts and the processing of SYN-ACKs keep the invariant between timers and their owners.\<close>

section \<open>Allocation\<close>

lemma k_same_packetmem_alloc: "k_packetmem_alloc len s = (r, s') \<Longrightarrow> k_same s s'"
  by (auto simp: k_packetmem_alloc_def malloc_def k_same_def split: option.splits prod.splits if_splits)

lemma k_same_packetmem_free [simp]: "k_same s (k_packetmem_free h s') = k_same s s'"
  by (simp add: k_same_def)

definition k_fresh :: "nat \<Rightarrow> kst \<Rightarrow> bool" where
  "k_fresh c s \<longleftrightarrow> k_inv {c} {} s \<and> \<not> waiting s c \<and> (\<exists>x. conns s c = Some x \<and> \<not> c_to_armed x)"

lemma k_fresh_same: "k_fresh c s \<Longrightarrow> k_same s s' \<Longrightarrow> k_fresh c s'"
  using k_inv_same [of "{c}" "{}" s s'] k_same_waiting [of s s' c] same_connsD [OF k_same_conns, of s s' c] unfolding k_fresh_def by metis

lemma inv_conn_alloc:
  assumes "k_inv {} {} s" "conn_alloc s = (r, s')"
  shows "case r of None \<Rightarrow> k_inv {} {} s' | Some c \<Rightarrow> k_fresh c s'"
proof -
  obtain m s1 where m: "malloc s = (m, s1)" by (cases "malloc s")
  have k1: "k_same s s1" using k_same_malloc m by blast
  obtain rx s2 where rx: "k_packetmem_alloc (tcp_rxbuf_len (cfg s1)) s1 = (rx, s2)" by fastforce
  have k2: "k_same s s2" using k_same_trans [OF k1 k_same_packetmem_alloc [OF rx]] .
  obtain tx s3 where tx: "k_packetmem_alloc (tcp_txbuf_len (cfg s2)) s2 = (tx, s3)" by fastforce
  have k3: "k_same s s3" using k_same_trans [OF k2 k_same_packetmem_alloc [OF tx]] .
  note keep = k_inv_same [OF assms(1)]
  show ?thesis
  proof (cases "m = None \<or> rx = None \<or> tx = None")
    case True
    have "r = None \<and> k_same s s'"
      using True assms(2) k1 k2 k3 by (auto simp: conn_alloc_def m rx tx split: option.splits)
    then show ?thesis using keep by simp
  next
    case False
    then obtain c hr ht where j: "m = Some c" "rx = Some hr" "tx = Some ht" by auto
    obtain x where r: "r = Some c" and s': "s' = s3\<lparr>conns := (conns s3)(c \<mapsto> x)\<rparr>" and x: "\<not> c_to_armed x"
      using assms(2) by (auto simp: conn_alloc_def m rx tx j)
    have c: "c = Suc (allocs s)" "c = allocs s1" using k_same_malloc m j(1) by blast+
    have "conns s d = Some y \<Longrightarrow> d \<le> allocs s" for d y using assms(1) by (simp add: k_inv_def k_conns_def)
    from this [of c] have "conns s c = None" using c(1) by (cases "conns s c") auto
    then have n: "conns s3 c = None" using k_view_eq(4) [of s3 s c] k3 by (simp add: k_same_def)
    have "\<not> waiting s c" using assms(1) c(1) by (auto simp: k_inv_def k_waits_def)
    then have w: "\<not> waiting s3 c" using k_same_waiting [OF k3] by simp
    have le: "c \<le> allocs s3" using k_same_packetmem_alloc [OF rx] k_same_packetmem_alloc [OF tx] c(2) by (simp add: k_same_def)
    have i: "k_inv {} {} s3" by (rule keep [OF k3])
    have "((conns s3)(c \<mapsto> x)) d = Some y \<and> c_to_armed y \<longleftrightarrow> conns s3 d = Some y \<and> c_to_armed y" for d y
      using n x by auto
    then have a: "k_armed s' = k_armed s3" by (simp add: k_armed_def s' del: fun_upd_apply)
    have "k_timers {} s'" using i a by (simp add: k_inv_def k_timers_def s' to_lists_def dlists_def to_type_def)
    moreover have "k_conns {c} s'" using i le by (auto simp: k_inv_def k_conns_def s')
    moreover have "k_arps s'" "k_waits s'" using i w by (auto simp: k_inv_def k_arps_def k_waits_def waiting_def s')
    ultimately have "k_inv {c} {} s'" by (simp add: k_inv_def)
    moreover have "\<not> waiting s' c" using w by (simp add: waiting_def s')
    ultimately show ?thesis using x by (simp add: r k_fresh_def s')
  qed
qed

lemma keeps_port_alloc: "post (port_alloc s) (\<lambda>(p, s'). k_same s s')"
  unfolding port_alloc_def by (rule post_skip) (simp add: k_same_def)

section \<open>Active open\<close>

lemma inv_conn_send: "k_inv X T s \<Longrightarrow> post (conn_send e c fl ts mss s) (k_inv X T)"
  by (rule k_inv_postI [OF _ keeps_conn_send])

lemma inv_send_reset: "k_inv X T s \<Longrightarrow> post (send_reset e p os s) (\<lambda>(s', _). k_inv X T s')"
  by (rule k_inv_postI2 [OF _ keeps_send_reset])

lemma inv_arp_done:
  assumes "k_inv {} {} s" "\<And>x. conns s c = Some x \<Longrightarrow> c_status x = CONN_ARP_PENDING"
  shows "post (conn_arp_done e c s) (k_inv {} {})"
proof (cases "conns s c")
  case None
  then show ?thesis by (simp add: conn_arp_done_def conn_timeout_arm_def deref_def)
next
  case (Some x)
  define s1 where "s1 = upd_conn c (\<lambda>x. x\<lparr>c_status := CONN_SYN_SENT, c_to_attempts := 0, c_timeout := tcp_handshake_to (cfg s)\<rparr>) s"
  have st: "c_status x = CONN_ARP_PENDING" using assms(2) Some .
  then have "c \<in> set (tcp_conns s)" using assms(1) Some by (auto simp: k_inv_def k_conns_def k_conn_ok_def)
  then have "k_inv {} {} s1" unfolding s1_def by (intro k_inv_upd_conn [OF assms(1) Some]) (auto simp: k_conn_ok_def st)
  moreover have "c_status y = CONN_SYN_SENT" if "conns s1 c = Some y" for y using that Some by (auto simp: s1_def)
  ultimately have "post (conn_timeout_arm c s1) (k_inv {} {})" by (rule k_inv_arm)
  then show ?thesis unfolding conn_arp_done_def s1_def [symmetric] by (rule post_seq) (rule inv_conn_send)
qed

text \<open>Losing a connection that was only set up.\<close>

lemma inv_fresh_free: "k_fresh c s \<Longrightarrow> post (bind_res (conn_free c s) (\<lambda>s. Inr (s, r))) (\<lambda>(s', _). k_inv {} {} s')"
proof -
  assume "k_fresh c s"
  then obtain x where i: "k_inv {c} {} s" "conns s c = Some x" "\<not> c_to_armed x" by (auto simp: k_fresh_def)
  have "k_inv {c} {} ((k_packetmem_free (c_rx_handle x) (k_packetmem_free (c_tx_handle x) s))
     \<lparr>conns := (conns (k_packetmem_free (c_rx_handle x) (k_packetmem_free (c_tx_handle x) s)))(c := None)\<rparr>)"
    by (rule k_inv_no_conn) (use i in \<open>auto simp: k_packetmem_free_def\<close>)
  then show ?thesis unfolding conn_free_def Let_def by (auto simp: i(2) deref_def intro: k_inv_drop)
qed

lemma inv_tcp_open:
  assumes "k_inv {} {} s"
  shows "post (tcp_open e ctx op rip rport db b1 b2 s) (\<lambda>(s', _). k_inv {} {} s')"
proof -
  obtain r s1 where a: "conn_alloc s = (r, s1)" by (cases "conn_alloc s")
  note al = inv_conn_alloc [OF assms a]
  show ?thesis
  proof (cases r)
    case None
    then show ?thesis using al by (simp add: tcp_open_def a)
  next
    case (Some c)
    have f1: "k_fresh c s1" using al Some by simp
    show ?thesis unfolding tcp_open_def a Some prod.case option.case
    proof (rule post_seq2 [OF keeps_port_alloc], unfold prod.case, rule post_if)
      fix p s2 assume k2: "k_same s1 s2"
      have f2: "k_fresh c s2" by (rule k_fresh_same [OF f1 k2])
      show "post (bind_res (conn_free c s2) (\<lambda>s. Inr (s, None))) (\<lambda>(s', _). k_inv {} {} s')" by (rule inv_fresh_free [OF f2])
      let ?g = "\<lambda>x. x\<lparr>c_ctx := ctx, c_opaque := op, c_status := CONN_ARP_PENDING, c_remote_ip := rip,
         c_local_ip := cf_ip (cfg s2), c_remote_port := rport, c_local_port := p, c_local_seq := 0, c_remote_seq := 0,
         cnt_tx_pending := 0, c_db_id := db, c_flags := (if b1 then NICIF_CONN_OBJCONN else 0) OR
           (if b2 then NICIF_CONN_OBJNOHASH else 0), comp_status := 0\<rparr>"
      define s3 where "s3 = upd_conn c ?g s2"
      obtain x where x: "k_inv {c} {} s2" "conns s2 c = Some x" "\<not> c_to_armed x" "\<not> waiting s2 c" using f2 by (auto simp: k_fresh_def)
      have i3: "k_inv {c} {} s3" unfolding s3_def by (rule k_inv_upd_conn [OF x(1,2)]) (use x in auto)
      have c3: "conns s3 c = Some (?g x)" "\<not> waiting s3 c" using x by (simp_all add: s3_def waiting_def)
      show "post (let s = upd_conn c ?g s2 in bind_res (routing_resolve e c rip s) (\<lambda>(s, ret).
               if ret < 0 then bind_res (conn_free c s) (\<lambda>s. Inr (s, None))
               else
                 bind_res (if ret = 0 then conn_arp_done e c (conn_register c s) else Inr (conn_register c s)) (\<lambda>s.
                 Inr (s\<lparr>ports := (ports s)(p := Port_conn c)\<rparr>, Some c)))) (\<lambda>(s', _). k_inv {} {} s')"
        unfolding Let_def s3_def [symmetric]
      proof (rule post_seq2 [OF inv_routing_resolve [OF i3]], unfold prod.case, rule post_if)
        fix s4 and ret :: int assume h: "k_inv {c} {} s4 \<and> same_conns s3 s4"
        have "waiting s4 c = waiting s3 c" using h unfolding same_conns_def by blast
        then have w4: "\<not> waiting s4 c" using c3(2) by simp
        obtain y where y: "conns s4 c = Some y" "c_to_armed y = c_to_armed (?g x)" "c_status y = c_status (?g x)"
          using same_connsD [of s3 s4 c] c3(1) h by blast
        have "k_fresh c s4" unfolding k_fresh_def using h y(1,2) x(3) w4 by auto
        then show "post (bind_res (conn_free c s4) (\<lambda>s. Inr (s, None))) (\<lambda>(s', _). k_inv {} {} s')" by (rule inv_fresh_free)
        have "k_inv {c} {} (conn_register c s4)" unfolding conn_register_def using h k_inv_register by blast
        then have i5: "k_inv {} {} (conn_register c s4)"
          by (rule k_inv_drop) (use y x(3) in \<open>auto simp: conn_register_def k_conn_ok_def\<close>)
        have "post (conn_arp_done e c (conn_register c s4)) (k_inv {} {})"
          by (rule inv_arp_done [OF i5]) (use y in \<open>auto simp: conn_register_def\<close>)
        then show "post (bind_res (if ret = 0 then conn_arp_done e c (conn_register c s4) else Inr (conn_register c s4)) (\<lambda>s.
                 Inr (s\<lparr>ports := (ports s)(p := Port_conn c)\<rparr>, Some c))) (\<lambda>(s', _). k_inv {} {} s')"
          by (intro post_seq [where P = "k_inv {} {}"] post_if) (simp_all add: i5)
      qed
    qed
  qed
qed

lemma inv_tcp_completion: "k_inv {} {} s \<Longrightarrow> post (tcp_completion e c s) (k_inv {} {})"
  unfolding tcp_completion_def by (intro post_get post_if inv_conn_failed inv_arp_done) auto

lemma inv_tcp_poll_loop: "k_inv {} {} s \<Longrightarrow> post (tcp_poll_loop n e s) (k_inv {} {})"
proof (induction n arbitrary: s)
  case 0
  then show ?case by (subst tcp_poll_loop.simps) (auto split: option.split)
next
  case (Suc n)
  show ?case
    by (subst tcp_poll_loop.simps)
      (use Suc in \<open>auto split: option.split simp del: post_simps(3) intro!: post_seq [OF inv_tcp_completion]\<close>)
qed

lemma inv_tcp_poll: "k_inv {} {} s \<Longrightarrow> post (tcp_poll e s) (k_inv {} {})"
  unfolding tcp_poll_def by (rule inv_tcp_poll_loop)

lemma inv_tcp_timeout:
  assumes "k_inv {} {conn_to c} s"
  shows "post (tcp_timeout e c ty s) (k_inv {} {})"
proof (cases "\<exists>x. conns s c = Some x \<and> c_to_armed x \<and> ty = TO_TCP_HANDSHAKE \<and> c_status x = CONN_SYN_SENT")
  case False
  then show ?thesis by (cases "conns s c") (auto simp: tcp_timeout_def deref_def)
next
  case True
  then obtain x where x: "conns s c = Some x" "c_to_armed x" "ty = TO_TCP_HANDSHAKE" "c_status x = CONN_SYN_SENT" by blast
  define s1 where "s1 = upd_conn c (\<lambda>x. x\<lparr>c_to_armed := False, c_to_attempts := c_to_attempts x + 1\<rparr>) s"
  have i: "k_inv {} {} s1" unfolding s1_def by (rule k_inv_fired [OF assms x(1)]) (use x(2) in auto)
  have x1: "conns s1 c = Some (x\<lparr>c_to_armed := False, c_to_attempts := c_to_attempts x + 1\<rparr>)" using x(1) by (simp add: s1_def)
  define s2 where "s2 = upd_conn c (\<lambda>x. x\<lparr>c_timeout := c_timeout x * 2\<rparr>) s1"
  have i2: "k_inv {} {} s2" unfolding s2_def by (rule k_inv_same [OF i k_same_upd_conn]) simp
  have "post (conn_timeout_arm c s2) (k_inv {} {})"
    by (rule k_inv_arm [OF i2]) (use x1 x(4) in \<open>auto simp: s2_def\<close>)
  then have "post (bind_res (conn_timeout_arm c s2) (\<lambda>s. conn_send e c (TCP_SYN OR TCP_ECE OR TCP_CWR) (Some 0) KTCP_MSS s)) (k_inv {} {})"
    by (rule post_seq) (rule inv_conn_send)
  moreover have "tcp_timeout e c ty s = (if c_to_attempts x + 1 > tcp_handshake_retries (cfg s) then conn_failed c (-1) s1
      else bind_res (conn_timeout_arm c s2) (\<lambda>s. conn_send e c (TCP_SYN OR TCP_ECE OR TCP_CWR) (Some 0) KTCP_MSS s))"
    by (simp add: tcp_timeout_def deref_def x(1-4) Let_def s1_def s2_def)
  ultimately show ?thesis using inv_conn_failed [OF i] by simp
qed

section \<open>SYN-ACKs and open connections\<close>

lemma read_skip: "(\<And>x. post (f x) Q) \<Longrightarrow> post (bind_res (read_be32 bs i) f) Q"
  by (rule post_skip)

text \<open>Connection \<open>c\<close> has no timeout armed.\<close>

definition calm :: "nat \<Rightarrow> kst \<Rightarrow> bool" where
  "calm c s \<longleftrightarrow> k_inv {} {} s \<and> (\<forall>x. conns s c = Some x \<longrightarrow> \<not> c_to_armed x)"

lemma calm_inv: "calm c s \<Longrightarrow> k_inv {} {} s" by (simp add: calm_def)

lemma calm_same: "calm c s \<Longrightarrow> k_same s s' \<Longrightarrow> calm c s'"
  using k_inv_same [of "{}" "{}" s s'] k_same_conn [of s s' c] unfolding calm_def by metis

lemma calm_post: "calm c s \<Longrightarrow> post m (k_same s) \<Longrightarrow> post m (calm c)"
  using post_mono [of m "k_same s" "calm c"] calm_same [of c s] by blast

lemma calm_post2: "calm c s \<Longrightarrow> post m (\<lambda>(s', _). k_same s s') \<Longrightarrow> post m (\<lambda>(s', _). calm c s')"
  using post_mono [of m "\<lambda>(s', _). k_same s s'" "\<lambda>(s', _). calm c s'"] calm_same [of c s] by blast

lemma calm_upd: "calm c s \<Longrightarrow> (\<And>x. c_to_armed (f x) = c_to_armed x \<and> c_status (f x) = c_status x) \<Longrightarrow> calm c (upd_conn c f s)"
  by (erule calm_same) (rule k_same_upd_conn)

lemma calm_status:
  assumes "calm c s" "\<And>x. c_to_armed (f x) = c_to_armed x" "\<And>x. \<not> handshake (f x)"
  shows "calm c (upd_conn c f s)"
proof (cases "conns s c")
  case None
  then have "upd_conn c f s = s" by (simp add: upd_conn_def fun_upd_idem)
  then show ?thesis using assms(1) by simp
next
  case (Some x)
  have "k_inv {} {} (upd_conn c f s)"
    by (rule k_inv_upd_conn [OF calm_inv [OF assms(1)] Some]) (use assms Some in \<open>auto simp: k_conn_ok_def calm_def\<close>)
  then show ?thesis using assms(1,2) Some by (auto simp: calm_def)
qed

lemma inv_calm_msg: "calm c s \<Longrightarrow> post (appif_conn_msg ok ty c st s) (k_inv {} {})"
  by (rule inv_conn_msg) (auto simp: calm_def)

lemma inv_syn_sent_packet:
  assumes "k_inv {} {} s"
  shows "post (conn_syn_sent_packet e c p os s) (\<lambda>(s', _). k_inv {} {} s')"
  unfolding conn_syn_sent_packet_def Let_def
proof (rule post_seq [where P = "calm c"])
  show "post (conn_timeout_disarm c s) (calm c)"
    using k_inv_disarm [OF assms, of c] by (rule post_mono) (auto simp: calm_def)
next
  fix s1 assume c1: "calm c s1"
  have k1: "k_inv {} {} s1" by (rule calm_inv [OF c1])
  show "post (if TCPH_FLAGS p AND (TCP_SYN OR TCP_ACK) \<noteq> TCP_SYN OR TCP_ACK then Inr (s1, -1)
       else case opt_ts os of None \<Rightarrow> Inr (s1, -1)
       | Some o' \<Rightarrow>
           bind_res (read_be32 (pbody p) (o' + 2)) (\<lambda>ts.
           bind_res (conn_cc_init c (upd_conn c (\<lambda>x. x\<lparr>c_remote_seq := tcp_seqno p + 1, c_local_seq := tcp_ackno p, c_syn_ts := ts,
               c_flags := (if TCPH_FLAGS p AND (TCP_ECE OR TCP_CWR) = TCP_ECE then c_flags x OR NICIF_CONN_ECN else c_flags x)\<rparr>) s1)) (\<lambda>s.
           bind_res (conn_add_flow e c 0 (upd_conn c (\<lambda>x. x\<lparr>comp_status := 0\<rparr>) s)) (\<lambda>(s, ok).
             if \<not> ok then Inr (s, -1)
             else
               bind_res (conn_send e c TCP_ACK (Some ts) 0 (upd_conn c (\<lambda>x. x\<lparr>c_status := CONN_OPEN\<rparr>) s)) (\<lambda>s.
               bind_res (appif_conn_opened c 0 s) (\<lambda>s. Inr (s, 0))))))) (\<lambda>(s', _). k_inv {} {} s')"
  proof (intro post_if post_option read_skip)
    fix o' ts
    define s2 where "s2 = upd_conn c (\<lambda>x. x\<lparr>c_remote_seq := tcp_seqno p + 1, c_local_seq := tcp_ackno p, c_syn_ts := ts,
               c_flags := (if TCPH_FLAGS p AND (TCP_ECE OR TCP_CWR) = TCP_ECE then c_flags x OR NICIF_CONN_ECN else c_flags x)\<rparr>) s1"
    have c2: "calm c s2" unfolding s2_def by (rule calm_upd [OF c1]) simp
    show "post (bind_res (conn_cc_init c (upd_conn c (\<lambda>x. x\<lparr>c_remote_seq := tcp_seqno p + 1, c_local_seq := tcp_ackno p, c_syn_ts := ts,
               c_flags := (if TCPH_FLAGS p AND (TCP_ECE OR TCP_CWR) = TCP_ECE then c_flags x OR NICIF_CONN_ECN else c_flags x)\<rparr>) s1)) (\<lambda>s.
           bind_res (conn_add_flow e c 0 (upd_conn c (\<lambda>x. x\<lparr>comp_status := 0\<rparr>) s)) (\<lambda>(s, ok).
             if \<not> ok then Inr (s, -1)
             else
               bind_res (conn_send e c TCP_ACK (Some ts) 0 (upd_conn c (\<lambda>x. x\<lparr>c_status := CONN_OPEN\<rparr>) s)) (\<lambda>s.
               bind_res (appif_conn_opened c 0 s) (\<lambda>s. Inr (s, 0)))))) (\<lambda>(s', _). k_inv {} {} s')"
      unfolding s2_def [symmetric]
    proof (rule post_seq [OF calm_post [OF c2 keeps_cc_init]])
      fix s3 assume c3: "calm c s3"
      then have "calm c (upd_conn c (\<lambda>x. x\<lparr>comp_status := 0\<rparr>) s3)" by (rule calm_upd) simp
      then have f: "post (conn_add_flow e c 0 (upd_conn c (\<lambda>x. x\<lparr>comp_status := 0\<rparr>) s3)) (\<lambda>(s', _). calm c s')"
        by (rule calm_post2 [OF _ keeps_add_flow])
      show "post (bind_res (conn_add_flow e c 0 (upd_conn c (\<lambda>x. x\<lparr>comp_status := 0\<rparr>) s3)) (\<lambda>(s, ok).
             if \<not> ok then Inr (s, -1)
             else
               bind_res (conn_send e c TCP_ACK (Some ts) 0 (upd_conn c (\<lambda>x. x\<lparr>c_status := CONN_OPEN\<rparr>) s)) (\<lambda>s.
               bind_res (appif_conn_opened c 0 s) (\<lambda>s. Inr (s, 0))))) (\<lambda>(s', _). k_inv {} {} s')"
      proof (rule post_seq2 [OF f], unfold prod.case, rule post_if)
        fix s4 ok assume c4: "calm c s4"
        show "post (Inr (s4, -1)) (\<lambda>(s', _). k_inv {} {} s')" using calm_inv [OF c4] by simp
        have "calm c (upd_conn c (\<lambda>x. x\<lparr>c_status := CONN_OPEN\<rparr>) s4)" by (rule calm_status [OF c4]) simp_all
        then have "post (conn_send e c TCP_ACK (Some ts) 0 (upd_conn c (\<lambda>x. x\<lparr>c_status := CONN_OPEN\<rparr>) s4)) (calm c)"
          by (rule calm_post [OF _ keeps_conn_send])
        then show "post (bind_res (conn_send e c TCP_ACK (Some ts) 0 (upd_conn c (\<lambda>x. x\<lparr>c_status := CONN_OPEN\<rparr>) s4)) (\<lambda>s.
               bind_res (appif_conn_opened c 0 s) (\<lambda>s. Inr (s, 0)))) (\<lambda>(s', _). k_inv {} {} s')"
          by (rule post_seq) (unfold appif_conn_opened_def, rule post_seq [OF inv_calm_msg], simp_all)
      qed
    qed
  qed (simp_all add: k1)
qed

lemma inv_conn_packet:
  assumes "k_inv {} {} s"
  shows "post (conn_packet e c p os core fg s) (k_inv {} {})"
  unfolding conn_packet_def
proof (intro post_get post_if post_option read_skip inv_conn_failed inv_conn_send assms)
  have "k_inv {} {} (upd_conn c (\<lambda>x. x\<lparr>c_fn_core := core, c_flow_group := fg\<rparr>) s)"
    by (rule k_inv_same [OF assms k_same_upd_conn]) simp
  from inv_syn_sent_packet [OF this]
  show "post (bind_res (conn_syn_sent_packet e c p os (upd_conn c (\<lambda>x. x\<lparr>c_fn_core := core, c_flow_group := fg\<rparr>) s)) (\<lambda>(s, ret).
          if ret \<noteq> 0 then conn_failed c ret s else Inr s)) (k_inv {} {})"
    by (rule post_seq2) (unfold prod.case, intro post_if inv_conn_failed, simp_all)
qed (simp_all add: assms)

lemma inv_conn_reg_synack:
  assumes "calm c s"
  shows "post (conn_reg_synack e c s) (k_inv {} {})"
  unfolding conn_reg_synack_def
proof (rule post_get)
  fix x
  have "calm c (upd_conn c (\<lambda>x. x\<lparr>c_status := CONN_OPEN\<rparr>) s)" by (rule calm_status [OF assms]) simp_all
  then have p: "post (conn_send e c fl ts mss (upd_conn c (\<lambda>x. x\<lparr>c_status := CONN_OPEN\<rparr>) s)) (calm c)" for fl ts mss
    by (rule calm_post [OF _ keeps_conn_send])
  have q: "calm c (send_control_tap_rev e x fl a b mss s)" if "calm c s" for fl a b mss s
    using that by (rule calm_same) (simp add: send_control_tap_rev_def k_same_def)
  have "calm c (if b then app_add_conn a c s else s)" if "calm c s" for b a s
    using that by (auto intro: calm_same k_same_app_add_conn)
  then have "post (appif_accept_conn c 0 s) (k_inv {} {})" if "calm c s" for s
    unfolding appif_accept_conn_def Let_def by (intro post_get inv_calm_msg) (use that in blast)
  then show "post (bind_res (conn_send e c (TCP_SYN OR TCP_ACK OR (if c_flags x AND NICIF_CONN_ECN = NICIF_CONN_ECN then TCP_ECE else 0))
        (Some (c_syn_ts x)) KTCP_MSS (upd_conn c (\<lambda>x. x\<lparr>c_status := CONN_OPEN\<rparr>) s)) (\<lambda>s.
      appif_accept_conn c 0 (send_control_tap_rev e x TCP_ACK (c_syn_ts x) (c_syn_ecr x) 0 s))) (k_inv {} {})"
    using q by (intro post_seq [OF p]) blast
qed

section \<open>Listeners\<close>

lemma k_inv_listeners:
  assumes "k_inv X T s"
    "\<And>d. waiting (s\<lparr>listeners := L\<rparr>) d \<Longrightarrow> waiting s d \<or> d \<le> allocs s \<and> (\<forall>y. conns s d = Some y \<longrightarrow> \<not> handshake y \<and> \<not> c_to_armed y)"
  shows "k_inv X T (s\<lparr>listeners := L\<rparr>)"
proof -
  have "k_waits (s\<lparr>listeners := L\<rparr>)"
    unfolding k_waits_def
  proof (intro allI impI)
    fix d assume "waiting (s\<lparr>listeners := L\<rparr>) d"
    from assms(2) [OF this] show "d \<le> allocs (s\<lparr>listeners := L\<rparr>) \<and>
        (\<forall>y. conns (s\<lparr>listeners := L\<rparr>) d = Some y \<longrightarrow> \<not> handshake y \<and> \<not> c_to_armed y)"
      using assms(1) by (auto simp: k_inv_def k_waits_def)
  qed
  moreover have "k_armed (s\<lparr>listeners := L\<rparr>) = k_armed s" by (simp add: k_armed_def)
  ultimately show ?thesis using assms(1) by (simp add: k_inv_def k_timers_def k_conns_def k_arps_def to_lists_def dlists_def to_type_def)
qed

end
