(* ===== verification/KernelReach.thy ===== *)
theory KernelReach
  imports KernelOpen KernelFacts CcLoop
begin

unbundle bit_operations_syntax

text \<open>Listeners, packets, requests of applications and the timers themselves keep the invariant between timers and their owners;
  the reachable states of the kernel, and what holds in all of them.\<close>

lemma k_inv_shrink:
  assumes "k_inv X T s" "\<And>x. listeners s li = Some x \<Longrightarrow> set (ls_wait (f x)) \<subseteq> set (ls_wait x)"
  shows "k_inv X T (upd_listener li f s)"
  unfolding upd_listener_def
proof (rule k_inv_listeners [OF assms(1)])
  fix d assume "waiting (s\<lparr>listeners := (listeners s)(li := map_option f (listeners s li))\<rparr>) d"
  then show "waiting s d \<or> d \<le> allocs s \<and> (\<forall>y. conns s d = Some y \<longrightarrow> \<not> handshake y \<and> \<not> c_to_armed y)"
    using assms(2) unfolding waiting_def by (auto split: if_splits)
qed

lemma k_inv_upd_listener: "(\<And>x. ls_wait (f x) = ls_wait x) \<Longrightarrow> k_inv X T s \<Longrightarrow> k_inv X T (upd_listener l f s)"
  by (rule k_inv_shrink) simp_all

lemma inv_listener_accept:
  assumes "k_inv {} {} s"
  shows "post (listener_accept e li s) (k_inv {} {})"
proof (cases "listeners s li")
  case None
  then show ?thesis by (simp add: listener_accept_def deref_def)
next
  case (Some l)
  show ?thesis
  proof (cases "ls_wait l")
    case Nil
    then show ?thesis by (simp add: listener_accept_def deref_def Some)
  next
    case (Cons c wait)
    have "waiting s c" unfolding waiting_def by (intro exI [of _ li] exI [of _ l]) (simp add: Some Cons)
    then have cs: "calm c s" using assms by (auto simp: calm_def k_inv_def k_waits_def)
    let ?Q = "\<lambda>s'. calm c s' \<and> map_option ls_wait (listeners s' li) = Some (c # wait)"
    have q: "?Q s" using cs Some Cons by simp
    have qs: "?Q s2" if "?Q s1" "k_same s1 s2" for s1 s2
      using that calm_same k_same_listeners by metis
    have qp: "post m ?Q" if "?Q s1" "post m (k_same s1)" for s1 m
      using post_mono [OF that(2), of ?Q] qs [OF that(1)] by blast
    have qp2: "post m (\<lambda>(s', _). ?Q s')" if "?Q s1" "post m (\<lambda>(s', _). k_same s1 s')" for s1 and m :: "(kst \<times> bool) res"
      using post_mono [OF that(2), of "\<lambda>(s', _). ?Q s'"] qs [OF that(1)] by blast
    have out: "k_inv {} {} (upd_listener li backlog_pop s')" if "k_inv {} {} s'" for s'
      by (rule k_inv_upd_listener [OF _ that]) (simp add: backlog_pop_def)
    have acc: "k_inv {} {} (upd_listener li (\<lambda>l. l\<lparr>ls_wait := wait\<rparr>) (s'\<lparr>tcp_conns := c # tcp_conns s'\<rparr>))" if "?Q s'" for s'
      by (rule k_inv_shrink, rule k_inv_register) (use that in \<open>auto simp: calm_def\<close>)
    have qf: "?Q (upd_conn c g s1)" if "?Q s1" "\<And>x. c_to_armed (g x) = c_to_armed x \<and> c_status (g x) = c_status x" for g s1
      by (rule qs [OF that(1) k_same_upd_conn]) (use that(2) in blast)
    have qst: "?Q (upd_conn c (\<lambda>x. x\<lparr>c_status := CONN_REG_SYNACK, comp_status := 0\<rparr>) s1)" if "?Q s1" for s1
      using that calm_status [of c s1 "\<lambda>x. x\<lparr>c_status := CONN_REG_SYNACK, comp_status := 0\<rparr>"] by simp
    have af: "?Q (upd_conn c (accept_fields cf port p core fg ts) s)" for cf port p core fg ts
      by (rule qf [OF q]) (simp add: accept_fields_def)
    show ?thesis
      unfolding listener_accept_def Let_def
      by (auto simp: Some Cons deref_def assms out acc intro!: read_skip post_skip [where m = "parse_options _ _"] post_option post_if
          post_seq [OF qp [OF af keeps_cc_init]] post_seq2 [OF qp2 [OF qst keeps_add_flow]] out [OF calm_inv [where c = c]] simp del: post_simps(3))
  qed
qed

lemma inv_listen_newconn: "k_inv X T s \<Longrightarrow> post (appif_listen_newconn l ip port s) (k_inv X T)"
  by (rule k_inv_postI [OF _ keeps_newconn])

lemma inv_listener_packet:
  assumes "k_inv {} {} s"
  shows "post (listener_packet e li p os core fg s) (k_inv {} {})"
proof -
  have "k_inv {} {} (upd_listener li (backlog_push p len core fg) s)" for len
    by (rule k_inv_upd_listener [OF _ assms]) (simp add: backlog_push_def Let_def)
  then show ?thesis unfolding listener_packet_def Let_def
    by (intro post_get post_if post_seq [OF inv_listen_newconn] post_seq2 [OF inv_send_reset [OF assms]] inv_listener_accept)
      (simp_all add: assms)
qed

lemma inv_tcp_accept:
  assumes "k_inv {} {} s"
  shows "post (tcp_accept e ctx op li db s) (\<lambda>(s', _). k_inv {} {} s')"
proof -
  obtain r s1 where a: "conn_alloc s = (r, s1)" by (cases "conn_alloc s")
  note al = inv_conn_alloc [OF assms a]
  show ?thesis
  proof (cases "r = None \<or> li = None")
    case True
    then show ?thesis using al by (auto simp: tcp_accept_def a split: option.split)
  next
    case False
    then obtain c i where rc: "r = Some c" "li = Some i" by auto
    obtain x where x: "k_inv {c} {} s1" "conns s1 c = Some x" "\<not> c_to_armed x" using al rc by (auto simp: k_fresh_def)
    have fin: "k_inv {} {} (upd_listener i (\<lambda>l. l\<lparr>ls_wait := c # ls_wait l\<rparr>) (upd_conn c g s1))"
      if g: "c_status (g x) = CONN_SYN_WAIT" "c_to_armed (g x) = c_to_armed x" for g
    proof -
      have "k_inv {c} {} (upd_conn c g s1)" by (rule k_inv_upd_conn [OF x(1,2)]) (use g in auto)
      then have i2: "k_inv {} {} (upd_conn c g s1)" by (rule k_inv_drop) (use x(2,3) g in \<open>auto simp: k_conn_ok_def\<close>)
      have le: "c \<le> allocs s1" using x(1,2) by (simp add: k_inv_def k_conns_def)
      show ?thesis unfolding upd_listener_def
      proof (rule k_inv_listeners [OF i2])
        fix d assume "waiting ((upd_conn c g s1)\<lparr>listeners := (listeners (upd_conn c g s1))(i := map_option (\<lambda>l. l\<lparr>ls_wait := c # ls_wait l\<rparr>)
          (listeners (upd_conn c g s1) i))\<rparr>) d"
        then have "d = c \<or> waiting (upd_conn c g s1) d" unfolding waiting_def by (auto split: if_splits)
        then show "waiting (upd_conn c g s1) d \<or> d \<le> allocs (upd_conn c g s1) \<and>
            (\<forall>y. conns (upd_conn c g s1) d = Some y \<longrightarrow> \<not> handshake y \<and> \<not> c_to_armed y)"
          using x(2,3) g le by auto
      qed
    qed
    show ?thesis
      unfolding tcp_accept_def a rc prod.case option.case Let_def
      by (intro post_get post_seq [where P = "k_inv {} {}"] post_if inv_listener_accept) (simp_all add: fin)
  qed
qed

lemma k_inv_multis [simp]: "k_inv X T (s\<lparr>multis := m\<rparr>) = k_inv X T s"
  by (simp add: k_inv_def k_timers_def k_conns_def k_arps_def k_waits_def waiting_def k_armed_def to_lists_def dlists_def to_type_def)

lemma k_inv_new_listener: "k_inv X T s \<Longrightarrow> ls_wait x = [] \<Longrightarrow> k_inv X T (s\<lparr>listeners := (listeners s)(l \<mapsto> x)\<rparr>)"
proof (rule k_inv_listeners)
  fix d assume "ls_wait x = []" "waiting (s\<lparr>listeners := (listeners s)(l \<mapsto> x)\<rparr>) d"
  then show "waiting s d \<or> d \<le> allocs s \<and> (\<forall>y. conns s d = Some y \<longrightarrow> \<not> handshake y \<and> \<not> c_to_armed y)"
    unfolding waiting_def by (auto split: if_splits)
qed

lemma inv_tcp_listen:
  assumes "k_inv {} {} s"
  shows "post (tcp_listen ctx op port bl b1 b2 b3 s) (\<lambda>(s', _). k_inv {} {} s')"
proof -
  obtain l s1 where m1: "malloc s = (l, s1)" by (cases "malloc s")
  obtain m s2 where m2: "malloc s1 = (m, s2)" by (cases "malloc s1")
  have k: "k_same s s2" using k_same_trans k_same_malloc m1 m2 by blast
  have i: "k_inv {} {} s2" by (rule k_inv_same [OF assms k])
  have n: "k_inv {} {} (s2\<lparr>listeners := (listeners s2)(l' \<mapsto> x)\<rparr>)" if "ls_wait x = []" for l' x
    by (rule k_inv_new_listener [OF i that])
  show ?thesis unfolding tcp_listen_def m1 m2 Let_def snd_conv prod.case
    by (auto split: port.split option.split simp: assms i n simp del: post_simps(3) intro!: post_skip post_if)
qed

section \<open>Packets\<close>

lemma inv_tcp_packet: "k_inv {} {} s \<Longrightarrow> post (tcp_packet e p len core fg s) (k_inv {} {})"
  unfolding tcp_packet_def
  by (intro post_if post_skip [where m = "parse_options _ _"] post_option post_skip [where m = "conn_lookup _ _"] inv_conn_packet
      post_skip [where m = "listener_lookup _ _"] inv_listener_packet post_seq2 [OF inv_send_reset]) simp_all

lemma inv_send_network_raw: "k_inv X T s \<Longrightarrow> post (send_network_raw bs s) (k_inv X T)"
  unfolding send_network_raw_def
  by (rule post_seq2 [OF k_inv_postI2 [OF _ keeps_send_frame]]) auto

lemma inv_tap_tcp_packet:
  assumes "k_inv {} {} s"
  shows "post (tap_tcp_packet e bs s) (k_inv {} {})"
proof -
  have cm: "calm c s" if "conns s c = Some x" "c_status x = CONN_REG_SYNACK" for c x
  proof -
    have "k_conn_ok (tcp_conns s) c x" using assms that(1) by (auto simp: k_inv_def k_conns_def)
    then show ?thesis using assms that by (auto simp: calm_def k_conn_ok_def)
  qed
  have cu: "calm c (upd_conn c (\<lambda>x. x\<lparr>c_linux_seq := a, c_remote_seq := b, c_syn_ecr := d\<rparr>) s)"
    if "conns s c = Some x" "c_status x = CONN_REG_SYNACK" for c x a b d
    by (rule calm_upd [OF cm [OF that]]) simp
  show ?thesis unfolding tap_tcp_packet_def Let_def
    by (intro post_skip [where m = "conn_lookup_rev _ _"] post_skip [where m = "parse_options _ _"] post_option post_get post_if read_skip
        inv_send_network_raw inv_conn_failed [OF calm_inv [OF cu]] inv_conn_reg_synack [OF cu]) (simp_all add: assms send_control_tap_rev_def)
qed

lemma inv_tap_packet: "k_inv {} {} s \<Longrightarrow> post (tap_packet e bs s) (k_inv {} {})"
  unfolding tap_packet_def Let_def
  by (intro post_if inv_tap_tcp_packet inv_send_network_raw) (simp_all add: arp_packet_tap_def response_tx_tap_def)

lemma inv_process_packet: "k_inv {} {} s \<Longrightarrow> post (process_packet e buf len core fg s) (k_inv {} {})"
  unfolding process_packet_def Let_def by (intro post_if inv_arp_packet inv_tcp_packet) simp_all

lemma inv_rxq_poll: "k_inv {} {} s \<Longrightarrow> post (rxq_poll e s) (\<lambda>(s', _). k_inv {} {} s')"
  unfolding rxq_poll_def Let_def
  by (intro post_pair post_if post_seq [where P = "k_inv {} {}"] inv_process_packet) simp_all

lemma inv_nicif_poll_loop: "k_inv {} {} s \<Longrightarrow> post (nicif_poll_loop n e s) (\<lambda>(s', _). k_inv {} {} s')"
proof (induction n arbitrary: s)
  case (Suc n)
  show ?case unfolding nicif_poll_loop.simps
    by (rule post_seq2 [OF inv_rxq_poll [OF Suc.prems]], unfold prod.case, rule post_seq2 [OF Suc.IH]) simp_all
qed simp

lemma inv_nicif_poll: "k_inv {} {} s \<Longrightarrow> post (nicif_poll e s) (\<lambda>(s', _). k_inv {} {} s')"
  unfolding nicif_poll_def by (rule inv_nicif_poll_loop)

section \<open>Requests of applications\<close>

lemma inv_kin_answer: "k_inv X T s \<Longrightarrow> post (kin_answer ctx a f ty s) (\<lambda>(s', _). k_inv X T s')"
  unfolding kin_answer_def by (rule post_seq [OF inv_kick]) simp_all

lemma inv_kin_conn_open: "k_inv {} {} s \<Longrightarrow> post (kin_conn_open e i ctx k a s) (\<lambda>(s', _). k_inv {} {} s')"
  unfolding kin_conn_open_def Let_def
  by (intro post_get post_seq2 [OF inv_tcp_open], assumption, unfold prod.case, intro post_option inv_kin_answer) simp_all

lemma inv_kin_conn_move: "k_inv {} {} s \<Longrightarrow> post (kin_conn_move i ctx k a s) (\<lambda>(s', _). k_inv {} {} s')"
  unfolding kin_conn_move_def Let_def
  by (intro post_skip [where m = "move_search _ _ _"] post_skip [where m = "ctx_search _ _ _"] post_option post_if inv_kin_answer) simp_all

lemma inv_kin_listen_open: "k_inv {} {} s \<Longrightarrow> post (kin_listen_open i ctx k a s) (\<lambda>(s', _). k_inv {} {} s')"
  unfolding kin_listen_open_def Let_def
  by (rule post_seq2 [OF inv_tcp_listen], assumption, unfold prod.case, intro post_option inv_kin_answer) simp_all

lemma inv_kin_accept_conn: "k_inv {} {} s \<Longrightarrow> post (kin_accept_conn e i ctx k a s) (\<lambda>(s', _). k_inv {} {} s')"
  unfolding kin_accept_conn_def Let_def
  by (intro post_get post_skip [where m = "listen_search _ _ _ _"], rule post_seq2 [OF inv_tcp_accept], assumption, unfold prod.case,
      intro post_if inv_kin_answer) simp_all

lemma inv_kin_dispatch: "k_inv {} {} s \<Longrightarrow> post (kin_dispatch e i ctx k a s) (\<lambda>(s', _). k_inv {} {} s')"
  unfolding kin_dispatch_def Let_def
  by (intro post_if inv_kin_conn_open inv_kin_conn_move inv_kin_listen_open inv_kin_accept_conn)
    (simp_all add: kin_req_scale_def split: option.split)

lemma inv_appif_ctx_poll: "k_inv {} {} s \<Longrightarrow> post (appif_ctx_poll e i ctx s) (\<lambda>(s', _). k_inv {} {} s')"
  unfolding appif_ctx_poll_def Let_def
  by (intro post_get post_if, simp_all only: post_simps(1,2) prod.case, rule post_seq2 [OF inv_kin_dispatch], assumption) simp

lemma inv_appif_poll_loop: "k_inv {} {} s \<Longrightarrow> post (appif_poll_loop e cs s) (\<lambda>(s', _). k_inv {} {} s')"
proof (induction cs arbitrary: s)
  case (Cons p cs)
  obtain i ctx where p: "p = (i, ctx)" by (cases p)
  have x: "post (if b then appif_ctx_poll e i ctx s else Inr (s, 0)) (\<lambda>(s', _). k_inv {} {} s')" for b
    using inv_appif_ctx_poll Cons.prems by simp
  show ?case unfolding p appif_poll_loop.simps
    by (intro post_get, rule post_seq2 [OF x], unfold prod.case, rule post_seq2 [OF Cons.IH], assumption) simp
qed simp

lemma inv_appif_poll: "k_inv {} {} s \<Longrightarrow> post (appif_poll e s) (\<lambda>(s', _). k_inv {} {} s')"
  unfolding appif_poll_def by (rule inv_appif_poll_loop)

section \<open>Congestion control\<close>

definition same_owner :: "connection \<Rightarrow> connection \<Rightarrow> bool" where
  "same_owner c c' \<longleftrightarrow> c_to_armed c' = c_to_armed c \<and> c_status c' = c_status c"

lemma same_owner_refl [simp]: "same_owner c c" by (simp add: same_owner_def)

lemma cc_update_keeps: "post (cc_update cf c st now) (same_owner c)"
proof -
  have t: "post (timely_update cf c st now) (same_owner c)"
    unfolding timely_update_def Let_def
    by (intro post_skip [where m = "actual_rate _ _ _"] post_if post_skip [where m = "if _ then _ else _"] post_pair) (simp_all add: same_owner_def)
  have r: "post (dctcp_rate_update cf c st now) (same_owner c)"
    unfolding dctcp_rate_update_def Let_def by (auto simp: same_owner_def split: prod.split intro!: postI)
  have w: "post (dctcp_win_update cf c st) (same_owner c)"
    unfolding dctcp_win_update_def Let_def by (auto simp: same_owner_def split: prod.split intro!: postI)
  show ?thesis using t r w by (simp add: cc_update_def const_rate_update_def same_owner_def split: config_cc_algorithm.split)
qed

lemma cc_update_owner: "cc_update cf c st now = Inr c' \<Longrightarrow> same_owner c c'"
  by (rule postD [OF cc_update_keeps])

lemma issue_owner: "issue_retransmits cf n ks c st now = Inr (n', ks', c') \<Longrightarrow> same_owner c c'"
  by (auto simp: issue_retransmits_def Let_def bind_res_Inr_iff same_owner_def split: if_splits prod.splits)

lemma cc_poll_conn_owner: "cc_poll_conn cf now nk c = Inr (n, ks, c', b) \<Longrightarrow> same_owner c c'"
proof -
  assume a: "cc_poll_conn cf now nk c = Inr (n, ks, c', b)"
  show ?thesis
  proof (cases "c' = c")
    case False
    with a obtain c1 st n1 ks1 n2 ks2 c2 where "cc_update cf c st now = Inr c1" "issue_retransmits cf n1 ks1 c1 st now = Inr (n2, ks2, c2)"
      "c' = c2\<lparr>cc_last_ts := now\<rparr>"
      by (auto simp: cc_poll_conn_def Let_def bind_res_Inr_iff split: if_splits option.splits prod.splits)
    then show ?thesis using cc_update_owner [of cf c st now c1] issue_owner [of cf n1 ks1 c1 st now n2 ks2 c2] by (simp add: same_owner_def)
  qed simp
qed

lemma cc_poll_loop_owner: "cc_poll_loop cf now nk cs = Inr (n, ks, cs', k) \<Longrightarrow> list_all2 same_owner cs cs'"
proof (induction cs arbitrary: nk n ks cs' k)
  case Nil
  then show ?case by (cases nk) auto
next
  case (Cons c cs)
  obtain n0 ks0 where nk: "nk = (n0, ks0)" by (cases nk)
  from Cons.prems obtain n1 ks1 c1 b ds k' where "cc_poll_conn cf now (n0, ks0) c = Inr (n1, ks1, c1, b)"
    "cc_poll_loop cf now (n1, ks1) cs = Inr (n, ks, ds, k')" "cs' = c1 # ds"
    by (auto simp: nk bind_res_Inr_iff)
  then show ?case using cc_poll_conn_owner Cons.IH by auto
qed

lemma k_same_conns_back:
  "list_all2 (\<lambda>c y. \<exists>x. conns s c = Some x \<and> same_owner x y) cs ys \<Longrightarrow> k_same s (conns_back cs ys s)"
proof (induction cs arbitrary: ys s)
  case (Cons c cs)
  from Cons.prems obtain y zs x where y: "ys = y # zs" "conns s c = Some x" "same_owner x y"
    and r: "list_all2 (\<lambda>c y. \<exists>x. conns s c = Some x \<and> same_owner x y) cs zs" by (auto simp: list_all2_Cons1)
  define s1 where "s1 = upd_conn c (\<lambda>_. y) s"
  have k: "k_same s s1" using y(2,3) by (auto simp: k_same_def k_view_def s1_def upd_conn_def tmgr.defs same_owner_def)
  have "list_all2 (\<lambda>c y. \<exists>x. conns s1 c = Some x \<and> same_owner x y) cs zs"
    using r by (rule list_all2_mono) (use y(2,3) in \<open>auto simp: s1_def same_owner_def\<close>)
  then have "k_same s1 (conns_back cs zs s1)" by (rule Cons.IH)
  then show ?case using k k_same_trans by (simp add: y(1) s1_def)
qed simp

lemma keeps_cc_poll: "post (k_cc_poll s) (\<lambda>(s', _). k_same s s')"
proof (cases "\<exists>c \<in> set (tcp_conns s). conns s c = None")
  case True
  then show ?thesis by (simp add: k_cc_poll_def)
next
  case False
  let ?xs = "map (\<lambda>c. the (conns s c)) (tcp_conns s)"
  have m: "post (cc_poll (cfg s) (cur_ts s) (cc_prev_ts s) (kn s, kstat s) ?xs) (\<lambda>(p, n, ks, ys, k). list_all2 same_owner ?xs ys)"
    by (auto simp: cc_poll_def list_all2_same intro!: postI dest!: cc_poll_loop_owner simp: bind_res_Inr_iff split: if_splits prod.splits)
  have kb: "k_same s (conns_back (tcp_conns s) ys (s\<lparr>cc_prev_ts := p, kn := n, kstat := ks\<rparr>))"
    if "list_all2 same_owner ?xs ys" for p n ks ys
  proof -
    let ?s = "s\<lparr>cc_prev_ts := p, kn := n, kstat := ks\<rparr>"
    have "list_all2 (\<lambda>c y. same_owner (the (conns s c)) y) (tcp_conns s) ys" using that by (simp add: list_all2_map1)
    then have "list_all2 (\<lambda>c y. \<exists>x. conns ?s c = Some x \<and> same_owner x y) (tcp_conns s) ys"
      by (rule list.rel_mono_strong) (use False in auto)
    then have "k_same ?s (conns_back (tcp_conns s) ys ?s)" by (rule k_same_conns_back)
    then show ?thesis by (rule k_same_trans [rotated]) (simp add: k_same_def)
  qed
  have e: "k_cc_poll s = bind_res (cc_poll (cfg s) (cur_ts s) (cc_prev_ts s) (kn s, kstat s) ?xs) (\<lambda>(p, n, ks, xs, k).
         Inr (conns_back (tcp_conns s) xs (s\<lparr>cc_prev_ts := p, kn := n, kstat := ks\<rparr>), k))"
    unfolding k_cc_poll_def by (rule if_not_P [OF False])
  show ?thesis unfolding e by (rule post_seq [OF m]) (use kb in auto)
qed

lemma inv_cc_poll: "k_inv X T s \<Longrightarrow> post (k_cc_poll s) (\<lambda>(s', _). k_inv X T s')"
  by (rule k_inv_postI2 [OF _ keeps_cc_poll])

section \<open>The timers\<close>

text \<open>What the handlers need of a timeout they get.\<close>

definition trigger_ok :: "kst \<Rightarrow> nat \<Rightarrow> u8 \<Rightarrow> bool" where
  "trigger_ok s i ty \<longleftrightarrow>
    (if even i then ty = TO_TCP_HANDSHAKE \<and> (\<exists>x. conns s (i div 2) = Some x \<and> c_to_armed x \<and> c_status x = CONN_SYN_SENT)
     else ty = TO_ARP_REQ \<and> (\<exists>ae. map_of (arp_table s) (i div 2) = Some ae \<and> \<not> ae_ready ae))"

lemma armed_cases: "i \<in> k_armed s \<Longrightarrow> (\<exists>c. i = conn_to c) \<or> (\<exists>a. i = arp_to_obj a)"
  by (auto simp: k_armed_def)

lemma k_inv_trigger_ok:
  assumes "k_inv {} T s" "i \<in> k_armed s" "ty = to_type s i"
  shows "trigger_ok s i ty"
  using armed_cases [OF assms(2)]
proof
  assume "\<exists>c. i = conn_to c"
  then obtain c where i: "i = conn_to c" by blast
  then have "even i" "i div 2 = c" by (simp_all add: conn_to_def)
  moreover obtain x where "conns s c = Some x" "c_to_armed x" using assms(2) i by auto
  moreover from this have "c_status x = CONN_SYN_SENT" using assms(1) by (auto simp: k_inv_def k_conns_def k_conn_ok_def)
  moreover have "ty = TO_TCP_HANDSHAKE" using assms i by (auto simp: k_inv_def k_timers_def)
  ultimately show ?thesis by (simp add: trigger_ok_def)
next
  assume "\<exists>a. i = arp_to_obj a"
  then obtain a where i: "i = arp_to_obj a" by blast
  then have "\<not> even i" "i div 2 = a" by (simp_all add: arp_to_obj_def)
  moreover obtain ae where ae: "(a, ae) \<in> set (arp_table s)" "\<not> ae_ready ae" using assms(2) i by auto
  moreover have "distinct (map fst (arp_table s))" using assms(1) by (simp add: k_inv_def k_arps_def)
  moreover have "ty = TO_ARP_REQ" using assms i by (auto simp: k_inv_def k_timers_def)
  ultimately show ?thesis by (simp add: trigger_ok_def)
qed

lemma inv_trigger:
  assumes "k_inv {} {i} s" "i \<in> k_armed s"
  shows "post (timeout_trigger e i (to_type s i) s) (k_inv {} {})"
  using armed_cases [OF assms(2)]
proof
  assume "\<exists>c. i = conn_to c"
  then obtain c where i: "i = conn_to c" by blast
  have "to_type s i = TO_TCP_HANDSHAKE" using assms i by (auto simp: k_inv_def k_timers_def)
  then show ?thesis using inv_tcp_timeout [of c s e] assms(1) by (simp add: timeout_trigger_def i)
next
  assume "\<exists>a. i = arp_to_obj a"
  then obtain a where i: "i = arp_to_obj a" by blast
  have "to_type s i = TO_ARP_REQ" using assms i by (auto simp: k_inv_def k_timers_def)
  then show ?thesis using inv_arp_timeout [of a s e] assms(1) by (simp add: timeout_trigger_def i)
qed


text \<open>The loop over the due timeouts, with every call guarded by what its handler needs.\<close>

definition guarded :: "kenv \<Rightarrow> nat \<Rightarrow> u8 \<Rightarrow> kst \<Rightarrow> kst res" where
  "guarded e i ty s = (if trigger_ok s i ty then timeout_trigger e i ty s else Inl Diverge)"

lemma inv_fire_due:
  "k_inv {} {} s \<Longrightarrow> post (fire_due (timeout_trigger e) n s) (k_inv {} {}) \<and> fire_due (guarded e) n s = fire_due (timeout_trigger e) n s"
proof (induction n arbitrary: s)
  case (Suc n)
  show ?case
  proof (cases "due_first s")
    case None
    then show ?thesis using Suc.prems by simp
  next
    case (Some i)
    define s1 where "s1 = (let m = s\<lparr>due_first := t_next (timeout_objs s i)\<rparr> in
       case due_first m of Some f \<Rightarrow> upd_to f (\<lambda>t. t\<lparr>t_prev := None\<rparr>) m | None \<Rightarrow> m\<lparr>due_last := None\<rparr>)"
    obtain Ps Ds where d: "dlists s Ps Ds" "set (Ps @ Ds) = k_armed s" using Suc.prems by (auto simp: k_inv_def k_timers_def to_lists_def)
    then obtain Ds' where Ds: "Ds = i # Ds'" using Some by (cases Ds) (auto simp: dlists_def)
    have l: "dlists s1 Ps Ds'" "same_stamps s s1" using pop_due [of s Ps i Ds'] d(1) unfolding Ds s1_def by blast+
    have "distinct (Ps @ i # Ds')" using d(1) Ds by (simp add: dlists_def)
    then have "set (Ps @ Ds') = k_armed s - {i}" using d(2) Ds by auto
    then have tl: "to_lists s1 (k_armed s - {i})" using l(1) unfolding to_lists_def by blast
    have m: "tmgr.more s1 = tmgr.more s" using l(2) by (simp add: same_stamps_def)
    note k = k_more [OF m]
    have a: "k_armed s1 = k_armed s" by (simp add: k_armed_def k)
    have ty: "to_type s1 j = to_type s j" for j using l(2) by (simp add: same_stamps_def to_type_def)
    have i: "k_inv {} {i} s1" using Suc.prems tl
      by (simp add: k_inv_def k_timers_def k_conns_def k_arps_def k_waits_def waiting_def a k ty)
    have ia: "i \<in> k_armed s1" using d(2) Ds a by auto
    have f: "fire_due h (Suc n) s = bind_res (h i (to_type s1 i) s1) (fire_due h n)" for h
      using ty [of i] by (simp add: Some Let_def s1_def to_type_def cong: option.case_cong)
    have g: "guarded e i (to_type s1 i) s1 = timeout_trigger e i (to_type s1 i) s1"
      using k_inv_trigger_ok [OF i ia refl] by (simp add: guarded_def)
    have t: "post (timeout_trigger e i (to_type s1 i) s1) (k_inv {} {})" by (rule inv_trigger [OF i ia])
    show ?thesis
      unfolding f g using t Suc.IH by (cases "timeout_trigger e i (to_type s1 i) s1") auto
  qed
qed simp

lemma inv_move_due: "k_inv X T s \<Longrightarrow> post (move_due_timeouts s ts) (k_inv X T)"
proof (rule postI)
  fix s1 assume a: "k_inv X T s" "move_due_timeouts s ts = Inr s1"
  have "to_lists s (k_armed s - T)" using a(1) by (simp add: k_inv_def k_timers_def)
  from move_due_to_lists [OF this a(2)] have l: "to_lists s1 (k_armed s - T)" "same_stamps s s1" by simp_all
  have m: "tmgr.more s1 = tmgr.more s" using l(2) by (simp add: same_stamps_def)
  note k = k_more [OF m]
  have "k_armed s1 = k_armed s" by (simp add: k_armed_def k)
  moreover have "to_type s1 j = to_type s j" for j using l(2) by (simp add: same_stamps_def to_type_def)
  ultimately show "k_inv X T s1" using a(1) l(1)
    by (simp add: k_inv_def k_timers_def k_conns_def k_arps_def k_waits_def waiting_def k)
qed

lemma inv_poll_ts:
  assumes "k_inv {} {} s"
  shows "post (util_timeout_poll_ts (timeout_trigger e) s ts) (k_inv {} {})"
    "util_timeout_poll_ts (guarded e) s ts = util_timeout_poll_ts (timeout_trigger e) s ts"
proof -
  show "post (util_timeout_poll_ts (timeout_trigger e) s ts) (k_inv {} {})"
    unfolding util_timeout_poll_ts_def by (rule post_seq [OF inv_move_due [OF assms]]) (use inv_fire_due in blast)
  show "util_timeout_poll_ts (guarded e) s ts = util_timeout_poll_ts (timeout_trigger e) s ts"
    unfolding util_timeout_poll_ts_def using postD [OF inv_move_due [OF assms]] inv_fire_due by (cases "move_due_timeouts s ts") auto
qed

section \<open>Reachable states\<close>

definition kernel_init :: "kst \<Rightarrow> bool" where
  "kernel_init s \<longleftrightarrow> timeouts_first s = None \<and> timeouts_last s = None \<and> due_first s = None \<and> due_last s = None \<and>
     conns s = (\<lambda>_. None) \<and> tcp_conns s = [] \<and> listeners s = (\<lambda>_. None)"

text \<open>The phases of the main loop in any order, packets of the tap interface, the clock, and everything that applications and
  the fast path do to the shared memory, the queues and the registered contexts.\<close>

inductive kernel_step :: "kenv \<Rightarrow> kst \<Rightarrow> kst \<Rightarrow> bool" for e where
  step_nicif: "nicif_poll e s = Inr (s', n) \<Longrightarrow> kernel_step e s s'"
| step_cc: "k_cc_poll s = Inr (s', n) \<Longrightarrow> kernel_step e s s'"
| step_appif: "appif_poll e s = Inr (s', n) \<Longrightarrow> kernel_step e s s'"
| step_tcp: "tcp_poll e s = Inr s' \<Longrightarrow> kernel_step e s s'"
| step_timeouts: "util_timeout_poll_ts (timeout_trigger e) s (cur_ts s) = Inr s' \<Longrightarrow> kernel_step e s s'"
| step_tap: "tap_packet e bs s = Inr s' \<Longrightarrow> kernel_step e s s'"
| step_clock: "kernel_step e s (s\<lparr>cur_ts := time_us s\<rparr>)"
| step_outside: "kernel_step e s (s\<lparr>kn := n, actxs := xs, applications := as\<rparr>)"

inductive kernel_reach :: "kenv \<Rightarrow> kst \<Rightarrow> bool" for e where
  reach_init: "kernel_init s \<Longrightarrow> arp_init e s = Inr s' \<Longrightarrow> kernel_reach e s'"
| reach_step: "kernel_reach e s \<Longrightarrow> kernel_step e s s' \<Longrightarrow> kernel_reach e s'"

lemma k_inv_step: "kernel_step e s s' \<Longrightarrow> k_inv {} {} s \<Longrightarrow> k_inv {} {} s'"
  by (induction rule: kernel_step.induct)
    (auto dest: postD [OF inv_nicif_poll] postD [OF inv_cc_poll] postD [OF inv_appif_poll] postD [OF inv_tcp_poll]
      postD [OF inv_poll_ts(1)] postD [OF inv_tap_packet])

lemma k_inv_reach: "kernel_reach e s \<Longrightarrow> k_inv {} {} s"
proof (induction rule: kernel_reach.induct)
  case (reach_init s s')
  then obtain a ae where "s' = s\<lparr>allocs := Suc (allocs s), arp_table := [(a, ae)]\<rparr>" "ae_ready ae" "a = Suc (allocs s)"
    by (auto simp: arp_init_def malloc_def split: if_splits)
  moreover have "dlists s' [] []" using reach_init(1) calculation(1) by (simp add: kernel_init_def dlists_def)
  ultimately show ?case using reach_init(1)
    by (auto simp: k_inv_def k_timers_def k_conns_def k_arps_def k_waits_def waiting_def k_armed_def to_lists_def kernel_init_def)
qed (rule k_inv_step)

text \<open>
  C32: in every reachable state of the kernel the lists of the timeout manager hold exactly the timeouts of the connections
  that are marked as armed and of the ARP entries that wait for a reply; each has the type its handler expects and an
  owner in the state its handler expects.  So polling the timers is the same as polling them with every handler call
  guarded: no timeout fires for a connection or an entry that is gone, and no handler aborts because of its timeout's
  type or its owner's state.  Other aborts of a handler are not excluded: when the doubled delay of a handshake exceeds
  the range of the timeout manager, re-arming aborts.
\<close>

theorem kernel_timers_owned:
  assumes "kernel_reach e s"
  shows "(\<exists>Ps Ds. dlists s Ps Ds \<and> set (Ps @ Ds) = k_armed s) \<and> (\<forall>i. i \<in> k_armed s \<longrightarrow> trigger_ok s i (to_type s i)) \<and>
    util_timeout_poll_ts (guarded e) s ts = util_timeout_poll_ts (timeout_trigger e) s ts"
proof -
  have i: "k_inv {} {} s" by (rule k_inv_reach [OF assms])
  have "\<exists>Ps Ds. dlists s Ps Ds \<and> set (Ps @ Ds) = k_armed s" using i by (simp add: k_inv_def k_timers_def to_lists_def)
  moreover have "trigger_ok s j (to_type s j)" if "j \<in> k_armed s" for j by (rule k_inv_trigger_ok [OF i that refl])
  moreover note inv_poll_ts(2) [OF i, of e ts]
  ultimately show ?thesis by blast
qed

section \<open>Example\<close>

text \<open>A kernel with one application, whose context has a request in its queue at 64 and answers at 128; the transmit queue of
  the kernel is at 0 and full.\<close>

definition ex_request :: "u32 \<Rightarrow> u8 list" where
  "ex_request ip = le64_bytes 77 @ le32_bytes ip @ le32_bytes 0 @ le16_bytes 80 @ replicate 45 0 @ [KERNEL_APPOUT_CONN_OPEN]"

definition ex_kmem :: "u32 \<Rightarrow> u8 list" where
  "ex_kmem ip = replicate 63 0 @ [KTX_PACKET] @ ex_request ip @ replicate 64 0"

definition ex_kctx :: appctx where
  "ex_kctx = \<lparr>ax_rx_base = 0, ax_tx_base = 0, ax_rx_len = 0, ax_tx_len = 64, ax_qman_qid = 0, ax_appst_id = 0, ax_rx_head = 0,
     ax_tx_head = 0, ax_last_ts = 0\<rparr>"

definition ex_app_ctx :: app_ctx where
  "ex_app_ctx = \<lparr>ac_kin_base = 64, ac_kin_len = 1, ac_kin_pos = 0, ac_kout_base = 128, ac_kout_len = 1, ac_kout_pos = 0,
     ac_doorbell = 1, ac_ready = True, ac_evfd = 5, ac_last_ts = 0, ac_kicks = 0\<rparr>"

definition ex_kst :: "u32 \<Rightarrow> kst" where
  "ex_kst ip = \<lparr>timeouts_first = None, timeouts_last = None,
     due_first = None, due_last = None,
     timeout_objs = (\<lambda>_. \<lparr>timeout_type = 0, t_next = None, t_prev = None\<rparr>), cfg = ex_cfg,
     kn = ex_nicif\<lparr>nic := (nic ex_nicif)\<lparr>dmem := ex_kmem ip, kctxs := [ex_kctx], now_us := 1000\<rparr>, txq_len := 1, rxq_len := 1,
       txq_bufs := [[0]], freelist := [\<lparr>h_base = 4096, h_len = 65536\<rparr>]\<rparr>,
     conns = (\<lambda>_. None), tcp_conns = [], async_q = [], ports = (\<lambda>_. Port_unused), port_eph_hint = 50000, listeners = (\<lambda>_. None),
     multis = (\<lambda>_. None), krng = 42, arp_table = [], routing_table = [\<lparr>rt_dest = 0, rt_mask = 0xffffff00, rt_hop = 0\<rparr>],
     actxs = [9 \<mapsto> ex_app_ctx], applications = [\<lparr>app_contexts = [9], app_conns = [], app_listeners = []\<rparr>], cur_ts = 1000,
     kstat = ex_kstats, cc_prev_ts = 0, tapq = [], fp_scale_to = 0, allocs = 0, answers = (\<lambda>_. True), junk = ex_conn\<rparr>"


definition ex_arp_self :: arp_entry where
  "ex_arp_self = \<lparr>ae_ready = True, ae_ip = 1, ae_mac = mac48 (info_mac ex_kenv), ae_compl = [], ae_timeout = 0\<rparr>"

definition ex_arp :: kst where
  "ex_arp = (ex_kst 1)\<lparr>allocs := 1, arp_table := [(1, ex_arp_self)]\<rparr>"

lemma ex_reach: "kernel_reach ex_kenv ex_arp"
proof (rule reach_init)
  show "kernel_init (ex_kst 1)" by (simp add: kernel_init_def ex_kst_def)
  show "arp_init ex_kenv (ex_kst 1) = Inr ex_arp" by (simp add: ex_arp_def ex_arp_self_def arp_init_def malloc_def ex_kst_def ex_cfg_def)
qed

lemma ex_arp_simps [simp]:
  "allocs ex_arp = 1" "arp_table ex_arp = [(1, ex_arp_self)]" "conns ex_arp = (\<lambda>_. None)" "tcp_conns ex_arp = []"
  "answers ex_arp = (\<lambda>_. True)" "cfg ex_arp = ex_cfg" "ports ex_arp = (\<lambda>_. Port_unused)" "port_eph_hint ex_arp = 50000"
  "routing_table ex_arp = [\<lparr>rt_dest = 0, rt_mask = 0xffffff00, rt_hop = 0\<rparr>]" "actxs ex_arp = [9 \<mapsto> ex_app_ctx]"
  "applications ex_arp = [\<lparr>app_contexts = [9], app_conns = [], app_listeners = []\<rparr>]" "kmem ex_arp = ex_kmem 1"
  "timeouts_first ex_arp = None" "timeouts_last ex_arp = None" "krng ex_arp = 42"
  "freelist (kn ex_arp) = [\<lparr>h_base = 4096, h_len = 65536\<rparr>]"
  "junk ex_arp = ex_conn" "nic (kn ex_arp) = (nic ex_nicif)\<lparr>dmem := ex_kmem 1, kctxs := [ex_kctx], now_us := 1000\<rparr>"
  "txq_base (kn ex_arp) = [0]" "txq_tail (kn ex_arp) = [0]"
  by (simp_all add: ex_arp_def ex_kst_def ex_nicif_def)


abbreviation ex_new :: connection where
  "ex_new \<equiv> ex_conn\<lparr>c_rx_handle := \<lparr>h_base = 4096, h_len = 8192\<rparr>, c_tx_handle := \<lparr>h_base = 12288, h_len = 8192\<rparr>,
     c_rx_len := 8192, c_tx_len := 8192, c_to_armed := False\<rparr>"

definition ex_s2 :: kst where
  "ex_s2 = ex_arp\<lparr>allocs := 4, kn := (kn ex_arp)\<lparr>freelist := [\<lparr>h_base = 20480, h_len = 49152\<rparr>]\<rparr>, conns := [2 \<mapsto> ex_new], port_eph_hint := 50001\<rparr>"

lemma numsuc: "Suc (Suc 0) = 2" "Suc (Suc (Suc (Suc 0))) = 4" by simp_all

lemma ex_alloc: "\<exists>s. conn_alloc ex_arp = (Some 2, s) \<and> port_alloc s = Inr (50000, ex_s2)"
proof -
  have "conn_alloc ex_arp = (Some 2, ex_arp\<lparr>allocs := 4, kn := (kn ex_arp)\<lparr>freelist := [\<lparr>h_base = 20480, h_len = 49152\<rparr>]\<rparr>, conns := [2 \<mapsto> ex_new]\<rparr>)"
    by (simp add: conn_alloc_def k_packetmem_alloc_def malloc_def ex_cfg_def packetmem_alloc_def numsuc)
  moreover have "port_alloc (ex_arp\<lparr>allocs := 4, kn := (kn ex_arp)\<lparr>freelist := [\<lparr>h_base = 20480, h_len = 49152\<rparr>]\<rparr>, conns := [2 \<mapsto> ex_new]\<rparr>)
      = Inr (50000, ex_s2)"
    by (simp add: port_alloc_def while_res_unfold [of _ _ 50000] next_port_def ex_s2_def)
  ultimately show ?thesis by blast
qed

lemma ex_s2_simps [simp]:
  "conns ex_s2 = [2 \<mapsto> ex_new]" "arp_table ex_s2 = [(1, ex_arp_self)]" "cfg ex_s2 = ex_cfg" "tcp_conns ex_s2 = []" "ports ex_s2 = (\<lambda>_. Port_unused)"
  "routing_table ex_s2 = [\<lparr>rt_dest = 0, rt_mask = 0xffffff00, rt_hop = 0\<rparr>]" "kmem ex_s2 = ex_kmem 1" "krng ex_s2 = 42"
  "timeouts_first ex_s2 = None" "timeouts_last ex_s2 = None" "txq_base (kn ex_s2) = [0]" "txq_tail (kn ex_s2) = [0]" "txq_len (kn ex_s2) = 1"
  "time_us ex_s2 = 1000" "ex_kmem 1 ! 63 = KTX_PACKET"
  by (simp_all add: ex_s2_def ex_nicif_def ex_arp_def ex_kst_def ex_kmem_def nth_append)


lemma ex_open: "\<exists>s x. tcp_open ex_kenv 9 77 1 80 1 False False ex_arp = Inr (s, Some 2) \<and> conns s 2 = Some x \<and> c_to_armed x"
proof -
  obtain s1 where s1: "conn_alloc ex_arp = (Some 2, s1)" "port_alloc s1 = Inr (50000, ex_s2)" using ex_alloc by blast
  obtain sd where rng: "utils_rng_gen32 42 = (16159453, sd)" by (simp add: utils_rng_gen32_def Let_def)
  show ?thesis
    by (simp add: tcp_open_def s1 Let_def routing_resolve_def next_hop_def while_res_unfold [of _ _ 1] arp_request_def ex_arp_self_def
        conn_arp_done_def conn_timeout_arm_def deref_def conn_register_def rng ex_cfg_def k_timeout_arm_def util_timeout_arm_ts_def
        move_due_timeouts_def upd_conn_def upd_to_def while_res_stop conn_send_def send_control_def
        send_control_raw_def send_frame_def nicif_tx_alloc_def ktx_try_alloc_def ex_conn_def)
qed


lemma ex_request_fields:
  "length (ex_kmem 1) = 192" "ex_kmem 1 ! 191 = 0" "slice (ex_kmem 1) 64 64 = ex_request 1" "ex_kmem 1 ! 127 = KERNEL_APPOUT_CONN_OPEN"
  "ex_request 1 ! 63 = KERNEL_APPOUT_CONN_OPEN" "le64_of (slice (ex_request 1) 0 8) = 77" "le32_of (slice (ex_request 1) 8 4) = 1"
  "le32_of (slice (ex_request 1) 12 4) = 0" "le16_of (slice (ex_request 1) 16 2) = 80"
  by code_simp+

lemma ex_polled: "\<exists>s x. appif_poll ex_kenv ex_arp = Inr (s, 1) \<and> conns s 2 = Some x \<and> c_to_armed x"
proof -
  obtain s x where o: "tcp_open ex_kenv 9 77 1 80 1 False False ex_arp = Inr (s, Some 2)" "conns s 2 = Some x" "c_to_armed x"
    using ex_open by blast
  show ?thesis
    using o by (simp add: appif_poll_def deref_def ex_app_ctx_def appif_ctx_poll_def kout_addr_def kin_addr_def Let_def ex_request_fields
        kin_dispatch_def kin_conn_open_def upd_actx_def)
qed

text \<open>After an application has asked for a connection to the kernel's own address the handshake timeout is armed.\<close>

theorem kernel_timers_owned_witness:
  "\<exists>s. conn_to 2 \<in> k_armed s \<and> trigger_ok s (conn_to 2) (to_type s (conn_to 2)) \<and>
     util_timeout_poll_ts (guarded ex_kenv) s 50000 = util_timeout_poll_ts (timeout_trigger ex_kenv) s 50000"
proof -
  obtain s x where s: "appif_poll ex_kenv ex_arp = Inr (s, 1)" "conns s 2 = Some x" "c_to_armed x" using ex_polled by blast
  have "kernel_reach ex_kenv s" by (rule reach_step [OF ex_reach]) (rule step_appif [OF s(1)])
  from kernel_timers_owned [OF this, of 50000] show ?thesis using s(2,3) by (intro exI [of _ s]) simp
qed

end
