(* ===== verification/KernelProps.thy ===== *)
theory KernelProps
  imports KernelReach
begin

unbundle bit_operations_syntax

text \<open>What the kernel's TCP does in the situations that matter: failures in a handshake, address resolution, the backlog.\<close>

section \<open>A bad answer to a SYN\<close>

lemma disarm_returns:
  assumes "to_lists s1 S" "i \<in> S"
  shows "\<exists>s'. util_timeout_disarm s1 i = Inr s' \<and> same_stamps s1 s'"
proof -
  obtain Ps Ds where l: "dlists s1 Ps Ds" "set (Ps @ Ds) = S" using assms(1) by (auto simp: to_lists_def)
  consider A B where "Ps = A @ i # B" | A B where "Ds = A @ i # B" using assms(2) l(2) by (auto dest!: split_list)
  then show ?thesis
  proof cases
    case 1
    then show ?thesis using disarm_pending [of s1 A i B Ds] l(1) by blast
  next
    case 2
    then show ?thesis using disarm_due [of s1 Ps A i B] l(1) by blast
  qed
qed

lemma conn_disarm_returns:
  assumes "to_lists s (k_armed s)" "conns s c = Some x" "c_to_armed x"
  shows "\<exists>s'. conn_timeout_disarm c s = Inr s' \<and> conns s' = (conns s)(c \<mapsto> x\<lparr>c_to_armed := False\<rparr>) \<and> tcp_conns s' = tcp_conns s"
proof -
  define s1 where "s1 = upd_conn c (\<lambda>x. x\<lparr>c_to_armed := False\<rparr>) s"
  have "to_lists s1 (k_armed s)" using assms(1) by (simp add: s1_def)
  moreover have "conn_to c \<in> k_armed s" using assms(2,3) by simp
  ultimately obtain s' where s': "util_timeout_disarm s1 (conn_to c) = Inr s'" "same_stamps s1 s'" using disarm_returns by blast
  have m: "tmgr.more s' = tmgr.more s1" using s'(2) by (simp add: same_stamps_def)
  note k = k_more [OF m]
  show ?thesis using s'(1) assms(2,3) by (auto simp: conn_timeout_disarm_def deref_def s1_def [symmetric] k) (auto simp: s1_def fun_eq_iff)
qed

text \<open>
  C33: a segment without SYN and ACK that arrives for a connection in its handshake is fatal unless that connection is the
  newest one: \<open>conn_failed\<close> looks only at the head of the list, so nothing fails and the connection stays in
  \<open>CONN_SYN_SENT\<close> with its timeout disarmed; whatever the next segment for it is, the assertion that the timeout is armed
  ends the kernel.
\<close>

theorem second_segment_asserts:
  assumes "k_inv {} {} s" "tcp_conns s = d # cs" "c \<noteq> d" "conns s c = Some x" "c_status x = CONN_SYN_SENT" "c_to_armed x"
    "TCPH_FLAGS p AND (TCP_SYN OR TCP_ACK) \<noteq> TCP_SYN OR TCP_ACK"
  shows "\<exists>s'. conn_packet e c p os core fg s = Inr s' \<and> (\<forall>p' os' core' fg'. conn_packet e c p' os' core' fg' s' = Inl Assert_fail)"
proof -
  define s1 where "s1 = upd_conn c (\<lambda>x. x\<lparr>c_fn_core := core, c_flow_group := fg\<rparr>) s"
  define x1 where "x1 = x\<lparr>c_fn_core := core, c_flow_group := fg\<rparr>"
  have k: "k_inv {} {} s1" unfolding s1_def by (rule k_inv_same [OF assms(1) k_same_upd_conn]) simp
  have x1: "conns s1 c = Some x1" "c_to_armed x1" "c_status x1 = CONN_SYN_SENT" "tcp_conns s1 = d # cs"
    using assms(2,4,5,6) by (simp_all add: s1_def x1_def)
  have "to_lists s1 (k_armed s1)" using k by (simp add: k_inv_def k_timers_def)
  then obtain s2 where s2: "conn_timeout_disarm c s1 = Inr s2" "conns s2 = (conns s1)(c \<mapsto> x1\<lparr>c_to_armed := False\<rparr>)" "tcp_conns s2 = d # cs"
    using conn_disarm_returns [OF _ x1(1,2)] x1(4) by auto
  have one: "conn_packet e c p os core fg s = Inr s2"
    using assms(3,4,5,7) s2(1,3) by (simp add: conn_packet_def deref_def s1_def [symmetric] conn_syn_sent_packet_def conn_failed_def)
  have "conn_packet e c p' os' core' fg' s2 = Inl Assert_fail" for p' os' core' fg'
    using s2(2) x1(3) by (simp add: conn_packet_def deref_def conn_syn_sent_packet_def conn_timeout_disarm_def Let_def)
  then show ?thesis using one by blast
qed

section \<open>Replies to ARP requests\<close>

lemma ae_lookup_upd:
  "ae_lookup t ip = Some (a, ae) \<Longrightarrow> distinct (map fst t) \<Longrightarrow> (\<And>ae. ae_ip (f ae) = ae_ip ae) \<Longrightarrow> ae_lookup (ae_upd a f t) ip = Some (a, f ae)"
proof (induction t)
  case (Cons p t)
  obtain b y where p: "p = (b, y)" by (cases p)
  have "(a, ae) \<in> set t \<Longrightarrow> b \<noteq> a" using Cons.prems(2) p by force
  then show ?case using Cons p ae_lookup_set [of t ip a ae] by (auto split: if_splits)
qed simp

definition woken :: "48 word option \<Rightarrow> int \<Rightarrow> connection \<Rightarrow> connection" where
  "woken m st x = x\<lparr>c_remote_mac := (case m of None \<Rightarrow> c_remote_mac x
     | Some mac \<Rightarrow> le64_of (be48_bytes mac @ drop 6 (le64_bytes (c_remote_mac x)))), comp_status := st\<rparr>"

lemma bit_beyond: "8 \<le> n \<Longrightarrow> bit (x :: u8) n \<longleftrightarrow> False" "32 \<le> n \<Longrightarrow> bit (y :: u32) n \<longleftrightarrow> False"
  using bit_imp_le_length [of x n] bit_imp_le_length [of y n] by auto

lemma le32_bytes_of: "le32_bytes (le32_of [a, b, c, d]) = [a, b, c, d]"
  by (auto simp: le32_bytes_def le32_of_def be32_bytes_def be32_of_def bit_simps bit_beyond intro!: bit_word_eqI)

lemma le64_bytes_of:
  assumes "length bs = 8"
  shows "le64_bytes (le64_of bs) = bs"
proof -
  obtain a b c d e f g h where bs: "bs = [a, b, c, d, e, f, g, h]"
    using assms by (auto simp: numeral_eq_Suc length_Suc_conv)
  have "ucast (le64_of bs) = le32_of [a, b, c, d]" "ucast (drop_bit 32 (le64_of bs)) = le32_of [e, f, g, h]"
    by (auto simp: bs le64_of_def bit_simps bit_beyond intro!: bit_word_eqI)
  then show ?thesis unfolding le64_bytes_def by (simp add: le32_bytes_of bs)
qed

lemma woken_again [simp]: "woken m st (woken m st x) = woken m st x"
  by (cases m) (simp_all add: woken_def le64_bytes_of)

lemma woken_mac: "mac48 (c_remote_mac (woken (Some mac) st x)) = mac"
  by (simp add: woken_def mac48_def le64_bytes_of)

lemma arp_notify_wakes:
  "\<forall>c \<in> set cs. conns s c \<noteq> None \<Longrightarrow>
    arp_notify m st cs s = Inr (s\<lparr>conns := (\<lambda>c. if c \<in> set cs then map_option (woken m st) (conns s c) else conns s c),
      async_q := rev cs @ async_q s\<rparr>)"
proof (induction cs arbitrary: s)
  case (Cons c cs)
  define s1 where "s1 = (upd_conn c (woken m st) s)\<lparr>async_q := c # async_q s\<rparr>"
  obtain x where x: "conns s c = Some x" using Cons.prems by auto
  have "\<forall>d \<in> set cs. conns s1 d \<noteq> None" using Cons.prems by (simp add: s1_def)
  then have ih: "arp_notify m st cs s1 = Inr (s1\<lparr>conns := (\<lambda>c. if c \<in> set cs then map_option (woken m st) (conns s1 c) else conns s1 c),
      async_q := rev cs @ async_q s1\<rparr>)" by (rule Cons.IH)
  have "(\<lambda>d. if d \<in> set cs then map_option (woken m st) (conns s1 d) else conns s1 d)
      = (\<lambda>d. if d \<in> set (c # cs) then map_option (woken m st) (conns s d) else conns s d)"
    by (auto simp: s1_def fun_eq_iff option.map_comp comp_def)
  moreover have "arp_notify m st (c # cs) s = arp_notify m st cs s1"
    using x by (simp add: deref_def s1_def woken_def [abs_def] nbqueue_enq_def upd_conn_def)
  ultimately show ?case using ih by (simp add: s1_def upd_conn_def)
qed simp

text \<open>
  C34: a reply answers a pending request completely: the lists of the timeout manager lose the request's timeout and no
  other, every connection that waits for the address gets it and is put on the completion queue with status 0, in the
  reverse of the order in which they asked (\<open>ae_compl\<close> holds the newest first and the queue is emptied from its end);
  the entry is ready with the address for the next request and no connection is left waiting; nothing else changes in
  the connections.
\<close>

theorem arp_reply_completes:
  assumes "k_inv {} {} s" "ae_lookup (arp_table s) (ar_spa p) = Some (a, ae)" "\<not> ae_ready ae"
    "\<forall>c \<in> set (ae_compl ae). conns s c \<noteq> None"
  shows "\<exists>s'. arp_reply p s = Inr s' \<and> arp_to_obj a \<in> k_armed s \<and> arp_to_obj a \<notin> k_armed s' \<and>
    (\<exists>Ps Ds. dlists s' Ps Ds \<and> set (Ps @ Ds) = k_armed s - {arp_to_obj a}) \<and> async_q s' = rev (ae_compl ae) @ async_q s \<and>
    ae_lookup (arp_table s') (ar_spa p) = Some (a, ae\<lparr>ae_mac := ar_sha p, ae_ready := True, ae_compl := []\<rparr>) \<and>
    (\<forall>c. if c \<in> set (ae_compl ae) then \<exists>x. conns s' c = Some x \<and> comp_status x = 0 \<and> mac48 (c_remote_mac x) = ar_sha p
         else conns s' c = conns s c)"
proof -
  have l: "to_lists s (k_armed s)" and d: "distinct (map fst (arp_table s))"
    using assms(1) by (simp_all add: k_inv_def k_timers_def k_arps_def)
  have m: "(a, ae) \<in> set (arp_table s)" using ae_lookup_set assms(2) by blast
  then have ka: "arp_to_obj a \<in> k_armed s" using assms(3) by auto
  then obtain s1 where s1: "util_timeout_disarm s (arp_to_obj a) = Inr s1" "same_stamps s s1" using disarm_returns [OF l] by blast
  have mo: "tmgr.more s1 = tmgr.more s" using s1(2) by (simp add: same_stamps_def)
  note k = k_more [OF mo]
  have l1: "to_lists s1 (k_armed s - {arp_to_obj a})" using disarm_to_lists [OF l ka s1(1)] by blast
  let ?f = "\<lambda>ae. ae\<lparr>ae_mac := ar_sha p, ae_ready := True\<rparr>" and ?g = "\<lambda>ae. ae\<lparr>ae_compl := []\<rparr>"
  define s2 where "s2 = s1\<lparr>arp_table := ae_upd a ?f (arp_table s1)\<rparr>"
  have c2: "conns s2 = conns s" "async_q s2 = async_q s" "arp_table s2 = ae_upd a ?f (arp_table s)" by (simp_all add: s2_def k)
  define s3 where "s3 = s2\<lparr>conns := (\<lambda>c. if c \<in> set (ae_compl ae) then map_option (woken (Some (ar_sha p)) 0) (conns s2 c) else conns s2 c),
      async_q := rev (ae_compl ae) @ async_q s2\<rparr>"
  have n: "arp_notify (Some (ar_sha p)) 0 (ae_compl ae) s2 = Inr s3"
    unfolding s3_def by (rule arp_notify_wakes) (use assms(4) in \<open>simp add: c2\<close>)
  define s' where "s' = s3\<lparr>arp_table := ae_upd a ?g (arp_table s3)\<rparr>"
  have r: "arp_reply p s = Inr s'"
    using s1(1) n assms(3) by (simp add: arp_reply_def assms(2) s2_def s'_def)
  have t: "arp_table s' = ae_upd a ?g (ae_upd a ?f (arp_table s))" by (simp add: s'_def s3_def c2)
  have lu: "ae_lookup (arp_table s') (ar_spa p) = Some (a, ?g (?f ae))"
    unfolding t by (intro ae_lookup_upd assms(2)) (simp_all add: d)
  have "(a, x) \<in> set (arp_table s') \<Longrightarrow> ae_ready x" for x
    unfolding t using d by (auto simp: ae_upd_set)
  then have "arp_to_obj a \<notin> k_armed s'" by auto
  moreover have "to_lists s' (k_armed s - {arp_to_obj a})"
    using l1 by (simp add: s'_def s3_def s2_def to_lists_def dlists_def)
  then have "\<exists>Ps Ds. dlists s' Ps Ds \<and> set (Ps @ Ds) = k_armed s - {arp_to_obj a}" by (simp add: to_lists_def)
  moreover have "async_q s' = rev (ae_compl ae) @ async_q s" by (simp add: s'_def s3_def c2)
  moreover have "if c \<in> set (ae_compl ae) then \<exists>x. conns s' c = Some x \<and> comp_status x = 0 \<and> mac48 (c_remote_mac x) = ar_sha p
      else conns s' c = conns s c" for c
    using assms(4) woken_mac by (auto simp: s'_def s3_def c2 woken_def)
  ultimately show ?thesis using r lu ka by blast
qed

section \<open>Examples\<close>

text \<open>Connection 2 waits for the address of 10.0.0.2 at entry 5.\<close>

definition ex_pending :: arp_entry where
  "ex_pending = \<lparr>ae_ready = False, ae_ip = 0x0a000002, ae_mac = 0, ae_compl = [2], ae_timeout = 500\<rparr>"

definition ex_waits :: kst where
  "ex_waits = ex_arp\<lparr>allocs := 5, arp_table := [(5, ex_pending), (1, ex_arp_self)], tcp_conns := [2],
     conns := [2 \<mapsto> ex_conn\<lparr>c_status := CONN_ARP_PENDING\<rparr>], timeouts_first := Some 11, timeouts_last := Some 11\<rparr>"

definition ex_reply :: pkt_arp where
  "ex_reply = arp_frame 0x0200000000ab 7 0x0a000002 1 ARP_OPER_REPLY"

lemma ex_waits_inv: "k_inv {} {} ex_waits"
proof -
  have "k_armed ex_waits = {11}" by (auto simp: k_armed_def ex_waits_def ex_conn_def ex_pending_def ex_arp_self_def arp_to_obj_def)
  moreover have "dlists ex_waits [11] []" by (simp add: dlists_def ex_waits_def ex_arp_def ex_kst_def)
  then have "to_lists ex_waits {11}" unfolding to_lists_def by force
  ultimately show ?thesis
    by (auto simp: k_inv_def k_timers_def k_conns_def k_conn_ok_def k_arps_def k_waits_def waiting_def ex_waits_def ex_conn_def ex_arp_def
        ex_kst_def to_type_def owner_type_def)
qed

theorem arp_reply_completes_witness:
  "\<exists>s'. arp_reply ex_reply ex_waits = Inr s' \<and> async_q s' = [2] \<and> arp_to_obj 5 \<notin> k_armed s'"
proof -
  have "ar_spa ex_reply = 0x0a000002" by (simp add: ex_reply_def arp_frame_def)
  then have "ae_lookup (arp_table ex_waits) (ar_spa ex_reply) = Some (5, ex_pending)" by (simp add: ex_waits_def ex_pending_def)
  from arp_reply_completes [OF ex_waits_inv this] show ?thesis by (auto simp: ex_pending_def ex_waits_def ex_arp_def ex_kst_def)
qed

definition ex_rst :: pkt_tcp where
  "ex_rst = control_frame ex_kenv 7 9 2 1 9000 80 1000 0 TCP_RST None 0"

text \<open>Connection 2 in its handshake, behind the newer connection 4.\<close>

definition ex_two :: kst where
  "ex_two = ex_arp\<lparr>allocs := 5, tcp_conns := [4, 2], conns := [2 \<mapsto> ex_conn\<lparr>c_status := CONN_SYN_SENT, c_to_armed := True\<rparr>, 4 \<mapsto> ex_conn],
     timeouts_first := Some 4, timeouts_last := Some 4, timeout_objs := (\<lambda>_. \<lparr>timeout_type = 0x10000000, t_next = None, t_prev = None\<rparr>)\<rparr>"

lemma ex_two_inv: "k_inv {} {} ex_two"
proof -
  have "k_armed ex_two = {4}" by (auto simp: k_armed_def ex_two_def ex_conn_def ex_arp_self_def conn_to_def)
  moreover have "dlists ex_two [4] []" by (simp add: dlists_def ex_two_def ex_arp_def ex_kst_def)
  then have "to_lists ex_two {4}" unfolding to_lists_def by force
  ultimately show ?thesis
    by (auto simp: k_inv_def k_timers_def k_conns_def k_conn_ok_def k_arps_def k_waits_def waiting_def ex_two_def ex_conn_def ex_arp_def
        ex_kst_def to_type_def owner_type_def split: if_splits)
qed

theorem second_segment_asserts_witness:
  "\<exists>s'. conn_packet ex_kenv 2 ex_rst \<lparr>opt_mss = None, opt_ts = None\<rparr> 0 0 ex_two = Inr s' \<and>
     conn_packet ex_kenv 2 ex_rst \<lparr>opt_mss = None, opt_ts = None\<rparr> 0 0 s' = Inl Assert_fail"
proof -
  have "TCPH_FLAGS ex_rst AND (TCP_SYN OR TCP_ACK) \<noteq> TCP_SYN OR TCP_ACK" by (simp add: ex_rst_def control_frame_def Let_def control_opts_def TCPH_FLAGS_def TCPH_HDRLEN_FLAGS_def)
  from second_segment_asserts [OF ex_two_inv, of 4 "[2]" 2, OF _ _ _ _ _ this] show ?thesis
    by (fastforce simp: ex_two_def ex_conn_def)
qed

end
