(* ===== verification/Backlog.thy ===== *)
theory Backlog
  imports KernelReach
begin

unbundle bit_operations_syntax

text \<open>
  The backlog of a listener: a ring of received SYNs between \<open>backlog_pos\<close> and \<open>backlog_pos + backlog_used\<close>.  It is a queue, and
  holds at most one SYN of each peer.
\<close>

section \<open>The ring as a queue\<close>

definition bl_ok :: "listener \<Rightarrow> bool" where
  "bl_ok l \<longleftrightarrow> length (ls_slots l) = unat (ls_backlog_len l) \<and> length (ls_cores l) = unat (ls_backlog_len l) \<and>
     length (ls_fgs l) = unat (ls_backlog_len l) \<and> unat (ls_backlog_used l) \<le> unat (ls_backlog_len l) \<and>
     (0 < unat (ls_backlog_len l) \<longrightarrow> unat (ls_backlog_pos l) < unat (ls_backlog_len l)) \<and> unat (ls_backlog_len l) \<le> 2147483648 \<and>
     (\<forall>b \<in> set (ls_slots l). length (bl_buf b) = BACKLOG_BUF)"

text \<open>The bytes of a SYN with its core and flow group, oldest first.\<close>

definition bl_entry :: "listener \<Rightarrow> nat \<Rightarrow> u8 list \<times> u32 \<times> u16" where
  "bl_entry l j = (take (unat (bl_len (ls_slots l ! j))) (bl_buf (ls_slots l ! j)), ls_cores l ! j, ls_fgs l ! j)"

definition bl_entries :: "listener \<Rightarrow> (u8 list \<times> u32 \<times> u16) list" where
  "bl_entries l = map (\<lambda>i. bl_entry l (backlog_index l i)) [0..<unat (ls_backlog_used l)]"

definition peer :: "pkt_tcp \<Rightarrow> u32 \<times> u32 \<times> u16 \<times> u16" where
  "peer p = (ip_src p, ip_dest p, tcp_src p, tcp_dest p)"

definition bl_peers :: "listener \<Rightarrow> (u32 \<times> u32 \<times> u16 \<times> u16) list" where
  "bl_peers l = map (\<lambda>i. peer (pkt_of_bytes (bl_buf (ls_slots l ! backlog_index l i)))) [0..<unat (ls_backlog_used l)]"

lemma backlog_has_peer: "backlog_has l p \<longleftrightarrow> peer p \<in> set (bl_peers l)"
  by (auto simp: backlog_has_def bl_peers_def list_ex_iff same_tuple_def peer_def image_iff)

lemma ring_inj: "(q + i) mod n = (q + u) mod n \<Longrightarrow> i \<le> u \<Longrightarrow> u < n \<Longrightarrow> i = (u :: nat)"
proof (rule ccontr)
  assume a: "(q + i) mod n = (q + u) mod n" "i \<le> u" "u < n" "i \<noteq> u"
  then have "n dvd (q + u) - (q + i)" by (metis add_le_cancel_left mod_eq_dvd_iff_nat)
  then have "n \<le> u - i" using a by (auto dest!: dvd_imp_le)
  then show False using a by simp
qed

lemma push_position:
  assumes "bl_ok l" "ls_backlog_len l \<noteq> ls_backlog_used l"
  shows "unat (if ls_backlog_pos l + ls_backlog_used l \<ge> ls_backlog_len l then ls_backlog_pos l + ls_backlog_used l - ls_backlog_len l
      else ls_backlog_pos l + ls_backlog_used l) = backlog_index l (unat (ls_backlog_used l))"
    "unat (ls_backlog_used l) < unat (ls_backlog_len l)" "unat (ls_backlog_used l + 1) = Suc (unat (ls_backlog_used l))"
proof -
  define n q u where "n = unat (ls_backlog_len l)" and "q = unat (ls_backlog_pos l)" and "u = unat (ls_backlog_used l)"
  have "u \<le> n" "n \<le> 2147483648" "0 < n \<Longrightarrow> q < n" using assms(1) by (simp_all add: bl_ok_def n_def q_def u_def)
  moreover have "u \<noteq> n" using assms(2) by (metis n_def u_def word_unat_eq_iff)
  ultimately have b: "u < n" "q < n" "q + u < 4294967296" "n \<le> 2147483648" by auto
  have s: "unat (ls_backlog_pos l + ls_backlog_used l) = q + u" using b(3) by (simp add: unat_word_ariths q_def u_def)
  have "unat (ls_backlog_pos l + ls_backlog_used l - ls_backlog_len l) = q + u - n" if "n \<le> q + u"
    using s that by (subst unat_sub) (simp_all add: word_le_nat_alt n_def)
  moreover have "(q + u) mod n = (if n \<le> q + u then q + u - n else q + u)" using b by (simp add: mod_if)
  ultimately show "unat (if ls_backlog_pos l + ls_backlog_used l \<ge> ls_backlog_len l then ls_backlog_pos l + ls_backlog_used l - ls_backlog_len l
      else ls_backlog_pos l + ls_backlog_used l) = backlog_index l (unat (ls_backlog_used l))"
    using s by (simp add: backlog_index_def word_le_nat_alt n_def q_def u_def)
  show "unat (ls_backlog_used l) < unat (ls_backlog_len l)" using b(1) by (simp add: n_def u_def)
  show "unat (ls_backlog_used l + 1) = Suc (unat (ls_backlog_used l))" using b by (simp add: unat_word_ariths u_def)
qed

lemma push_fields:
  assumes "bl_ok l" "ls_backlog_len l \<noteq> ls_backlog_used l"
  shows "backlog_push p len core fg l = (let bp = backlog_index l (unat (ls_backlog_used l)) in
     l\<lparr>ls_cores := (ls_cores l)[bp := core], ls_fgs := (ls_fgs l)[bp := fg],
       ls_slots := (ls_slots l)[bp := \<lparr>bl_buf = take len (pkt_bytes p) @ drop len (bl_buf (ls_slots l ! bp)), bl_len = of_nat len\<rparr>],
       ls_backlog_used := ls_backlog_used l + 1\<rparr>)"
  unfolding backlog_push_def Let_def push_position(1) [OF assms] ..

lemma push_ring:
  assumes "bl_ok l" "ls_backlog_len l \<noteq> ls_backlog_used l" "len \<le> BACKLOG_BUF" "len \<le> length (pkt_bytes p)"
  shows "bl_ok (backlog_push p len core fg l)"
    "bl_entries (backlog_push p len core fg l) = bl_entries l @ [(take len (pkt_bytes p), core, fg)]"
    "bl_peers (backlog_push p len core fg l) = bl_peers l @
       [peer (pkt_of_bytes (take len (pkt_bytes p) @ drop len (bl_buf (ls_slots l ! backlog_index l (unat (ls_backlog_used l))))))]"
proof -
  note f = push_fields [OF assms(1,2), of p len core fg, unfolded Let_def]
  note u = push_position(2,3) [OF assms(1,2)]
  define bp where "bp = backlog_index l (unat (ls_backlog_used l))"
  have lens: "length (ls_slots l) = unat (ls_backlog_len l)" "length (ls_cores l) = unat (ls_backlog_len l)"
    "length (ls_fgs l) = unat (ls_backlog_len l)" using assms(1) by (simp_all add: bl_ok_def)
  have bp: "bp < unat (ls_backlog_len l)" using u(1) by (simp add: bp_def backlog_index_def)
  have buf: "length (bl_buf (ls_slots l ! bp)) = BACKLOG_BUF" using assms(1) bp by (simp add: bl_ok_def)
  have bl: "unat (of_nat len :: u16) = len" using assms(3) by (simp add: unat_of_nat)
  show "bl_ok (backlog_push p len core fg l)"
    unfolding f using assms(1,3,4) u buf bp lens
    by (auto simp: bl_ok_def bp_def [symmetric] set_update_memI dest!: set_update_subset_insert [THEN subsetD])
  have ix: "backlog_index (backlog_push p len core fg l) i = backlog_index l i" for i by (simp add: f backlog_index_def)
  have old: "backlog_index l i \<noteq> bp" if "i < unat (ls_backlog_used l)" for i
    using ring_inj [of "unat (ls_backlog_pos l)" i _ "unat (ls_backlog_used l)"] that u(1) by (auto simp: bp_def backlog_index_def)
  have il: "backlog_index l i < unat (ls_backlog_len l)" for i using u(1) by (simp add: backlog_index_def)
  have used: "unat (ls_backlog_used (backlog_push p len core fg l)) = Suc (unat (ls_backlog_used l))" using u(2) by (simp add: f)
  have "bl_entry (backlog_push p len core fg l) (backlog_index l i) = bl_entry l (backlog_index l i)" if "i < unat (ls_backlog_used l)" for i
    using old [OF that] by (simp add: f bl_entry_def bp_def [symmetric])
  moreover have "bl_entry (backlog_push p len core fg l) bp = (take len (pkt_bytes p), core, fg)"
    using bp lens assms(4) by (simp add: f bl_entry_def bp_def [symmetric] bl)
  ultimately show "bl_entries (backlog_push p len core fg l) = bl_entries l @ [(take len (pkt_bytes p), core, fg)]"
    unfolding bl_entries_def used ix by (simp add: bp_def)
  have "ls_slots (backlog_push p len core fg l) ! backlog_index l i = ls_slots l ! backlog_index l i" if "i < unat (ls_backlog_used l)" for i
    using old [OF that] by (simp add: f bp_def [symmetric])
  moreover have "bl_buf (ls_slots (backlog_push p len core fg l) ! bp) = take len (pkt_bytes p) @ drop len (bl_buf (ls_slots l ! bp))"
    using bp lens by (simp add: f bp_def [symmetric])
  ultimately show "bl_peers (backlog_push p len core fg l) = bl_peers l @
       [peer (pkt_of_bytes (take len (pkt_bytes p) @ drop len (bl_buf (ls_slots l ! backlog_index l (unat (ls_backlog_used l))))))]"
    unfolding bl_peers_def used ix by (simp add: bp_def)
qed

lemma pop_ring:
  assumes "bl_ok l" "ls_backlog_used l \<noteq> 0"
  shows "bl_ok (backlog_pop l)" "bl_entries (backlog_pop l) = tl (bl_entries l)" "bl_peers (backlog_pop l) = tl (bl_peers l)"
proof -
  define n q u where "n = unat (ls_backlog_len l)" and "q = unat (ls_backlog_pos l)" and "u = unat (ls_backlog_used l)"
  have b: "u \<le> n" "n \<le> 2147483648" "0 < n \<Longrightarrow> q < n" "0 < u"
    using assms by (simp_all add: bl_ok_def n_def q_def u_def unat_gt_0)
  have q1: "unat (ls_backlog_pos l + 1) = q + 1" using b by (simp add: unat_word_ariths q_def)
  have qs: "unat (ls_backlog_pos l + 1 - ls_backlog_len l) = q + 1 - n" if "n \<le> q + 1"
    using q1 that by (subst unat_sub) (simp_all add: word_le_nat_alt n_def)
  have pos: "unat (ls_backlog_pos (backlog_pop l)) = (q + 1) mod n"
    using q1 qs b by (auto simp: backlog_pop_def word_le_nat_alt n_def [symmetric] mod_if)
  have used: "unat (ls_backlog_used (backlog_pop l)) = u - 1"
    using unat_minus_one [OF assms(2)] by (simp add: backlog_pop_def u_def)
  have rest: "ls_slots (backlog_pop l) = ls_slots l" "ls_cores (backlog_pop l) = ls_cores l" "ls_fgs (backlog_pop l) = ls_fgs l"
    "ls_backlog_len (backlog_pop l) = ls_backlog_len l" by (simp_all add: backlog_pop_def)
  have o: "length (ls_slots l) = n" "length (ls_cores l) = n" "length (ls_fgs l) = n" "\<forall>b \<in> set (ls_slots l). length (bl_buf b) = BACKLOG_BUF"
    using assms(1) by (simp_all add: bl_ok_def n_def)
  have "u - 1 \<le> n" "0 < n \<longrightarrow> (q + 1) mod n < n" using b(1) by simp_all
  then show "bl_ok (backlog_pop l)" unfolding bl_ok_def rest used pos n_def [symmetric] using o b(2) by blast
  have ix: "backlog_index (backlog_pop l) i = backlog_index l (Suc i)" for i
    unfolding backlog_index_def rest pos by (simp add: n_def [symmetric] q_def [symmetric] mod_add_left_eq)
  have r: "[0..<u] = 0 # map Suc [0..<u - 1]" using b(4) by (simp add: map_Suc_upt upt_conv_Cons)
  show "bl_entries (backlog_pop l) = tl (bl_entries l)"
    unfolding bl_entries_def used u_def [symmetric] r by (simp add: ix bl_entry_def rest comp_def)
  show "bl_peers (backlog_pop l) = tl (bl_peers l)"
    unfolding bl_peers_def used u_def [symmetric] r by (simp add: ix rest comp_def)
qed

text \<open>
  C35: the backlog ring refines a queue of SYNs with their cores and flow groups: unless the ring is full,
  \<open>backlog_push\<close> puts the received bytes at the end, across the end of the ring as well, and \<open>backlog_pop\<close> takes the oldest away;
  both keep the ring well formed.
\<close>

theorem backlog_refines_queue:
  assumes "bl_ok l"
  shows "(ls_backlog_len l \<noteq> ls_backlog_used l \<and> len \<le> BACKLOG_BUF \<and> len \<le> length (pkt_bytes p) \<longrightarrow>
      bl_ok (backlog_push p len core fg l) \<and> bl_entries (backlog_push p len core fg l) = bl_entries l @ [(take len (pkt_bytes p), core, fg)]) \<and>
    (ls_backlog_used l \<noteq> 0 \<longrightarrow> bl_ok (backlog_pop l) \<and> bl_entries (backlog_pop l) = tl (bl_entries l))"
  using push_ring(1,2) [OF assms] pop_ring(1,2) [OF assms] by blast

section \<open>One SYN of each peer\<close>

lemma slice_take: "a + n \<le> len \<Longrightarrow> len \<le> length xs \<Longrightarrow> slice (take len xs @ ys) a n = slice xs a n"
  by (auto simp: slice_def drop_take min_def)

lemma pkt_bytes_peer:
  "slice (pkt_bytes p) 26 4 = be32_bytes (ip_src p)" "slice (pkt_bytes p) 30 4 = be32_bytes (ip_dest p)"
  "slice (pkt_bytes p) 34 2 = be16_bytes (tcp_src p)" "slice (pkt_bytes p) 36 2 = be16_bytes (tcp_dest p)"
  by (simp_all add: slice_def pkt_bytes_def be48_bytes_def be32_bytes_def be16_bytes_def)

lemma peer_stored:
  assumes "PKT_TCP_SZ \<le> len" "len \<le> length (pkt_bytes p)"
  shows "peer (pkt_of_bytes (take len (pkt_bytes p) @ zs)) = peer p"
proof -
  have "slice (take len (pkt_bytes p) @ zs) a n = slice (pkt_bytes p) a n" if "a + n \<le> 38" for a n
    using that assms by (intro slice_take) auto
  then show ?thesis by (simp add: peer_def pkt_of_bytes_def pkt_bytes_peer)
qed

definition listener_wf :: "listener \<Rightarrow> bool" where
  "listener_wf l \<longleftrightarrow> bl_ok l \<and> distinct (bl_peers l) \<and> (\<forall>x \<in> set (bl_entries l). PKT_TCP_SZ \<le> length (fst x))"

definition listeners_wf :: "kst \<Rightarrow> bool" where
  "listeners_wf s \<longleftrightarrow> (\<forall>li l. listeners s li = Some l \<longrightarrow> listener_wf l)"

lemma wf_push:
  assumes "listener_wf l" "ls_backlog_len l \<noteq> ls_backlog_used l" "PKT_TCP_SZ \<le> len" "len \<le> BACKLOG_BUF" "len \<le> length (pkt_bytes p)"
    "\<not> backlog_has l p"
  shows "listener_wf (backlog_push p len core fg l)"
  using push_ring [of l len p core fg] assms peer_stored [OF assms(3,5)] by (simp add: listener_wf_def backlog_has_peer)

lemma wf_pop: "listener_wf l \<Longrightarrow> ls_backlog_used l \<noteq> 0 \<Longrightarrow> listener_wf (backlog_pop l)"
  using pop_ring [of l] list.set_sel(2) [of "bl_entries l"] by (cases "bl_entries l") (auto simp: listener_wf_def distinct_tl)

lemma wf_wait: "listener_wf (l\<lparr>ls_wait := w\<rparr>) = listener_wf l"
  by (simp add: listener_wf_def bl_ok_def bl_peers_def bl_entries_def bl_entry_def backlog_index_def)

lemma wf_upd_listener: "listeners_wf s \<Longrightarrow> (\<And>l. listeners s li = Some l \<Longrightarrow> listener_wf (f l)) \<Longrightarrow> listeners_wf (upd_listener li f s)"
  by (auto simp: listeners_wf_def upd_listener_def)

lemma wf_eq: "listeners s' = listeners s \<Longrightarrow> listeners_wf s' = listeners_wf s"
  by (simp add: listeners_wf_def)

lemma listeners_of_same: "post m (k_same s) \<Longrightarrow> listeners s = L \<Longrightarrow> post m (\<lambda>s'. listeners s' = L)"
  using post_mono [of m "k_same s" "\<lambda>s'. listeners s' = L"] k_same_listeners [of s] by blast

lemma listeners_of_same2: "post m (\<lambda>(s', _). k_same s s') \<Longrightarrow> listeners s = L \<Longrightarrow> post m (\<lambda>(s', _). listeners s' = L)"
  using post_mono [of m "\<lambda>(s', _). k_same s s'" "\<lambda>(s', _). listeners s' = L"] k_same_listeners [of s] by blast

lemma wf_listener_accept:
  assumes "listeners_wf s"
  shows "post (listener_accept e li s) listeners_wf"
proof (cases "listeners s li")
  case None
  then show ?thesis by (simp add: listener_accept_def deref_def)
next
  case (Some l)
  show ?thesis
  proof (cases "ls_wait l = [] \<or> ls_backlog_used l = 0")
    case True
    then show ?thesis by (cases "ls_wait l") (auto simp: listener_accept_def deref_def Some)
  next
    case False
    then obtain c wait where w: "ls_wait l = c # wait" "ls_backlog_used l \<noteq> 0" by (cases "ls_wait l") auto
    have wl: "listener_wf (backlog_pop l)" using assms Some w(2) wf_pop by (auto simp: listeners_wf_def)
    have out: "listeners_wf (upd_listener li backlog_pop s')" if "listeners s' = listeners s" for s'
      by (rule wf_upd_listener [OF iffD2 [OF wf_eq [OF that] assms]]) (use that Some wl in simp)
    have "backlog_pop (l\<lparr>ls_wait := wait\<rparr>) = (backlog_pop l)\<lparr>ls_wait := wait\<rparr>" by (simp add: backlog_pop_def)
    then have acc: "listeners_wf (upd_listener li backlog_pop s')" if "listeners s' = (listeners s)(li \<mapsto> l\<lparr>ls_wait := wait\<rparr>)" for s'
      using that assms wl by (auto simp: listeners_wf_def upd_listener_def wf_wait)
    have q1: "post (conn_cc_init c s') (\<lambda>s'. listeners s' = listeners s)" if "listeners s' = listeners s" for s'
      by (rule listeners_of_same [OF keeps_cc_init that])
    have q2: "post (conn_add_flow e c 1 s') (\<lambda>(s', _). listeners s' = listeners s)" if "listeners s' = listeners s" for s'
      by (rule listeners_of_same2 [OF keeps_add_flow that])
    show ?thesis
      unfolding listener_accept_def Let_def
      by (auto simp: Some w deref_def out intro!: read_skip post_skip [where m = "parse_options _ _"] post_option post_if
          post_seq [OF q1] post_seq2 [OF q2] simp del: post_simps(3)) (erule notE, rule acc, simp add: upd_listener_def tap_write_def Some)
  qed
qed

text \<open>
  C36: every operation on listeners keeps them well formed: the arrays of the backlog have its length, its position and
  its fill are inside, every recorded SYN is at least as long as its headers, and no two of them come from the same peer.
  The incoming segment is assumed to be as long as its headers according to its IP length, which the code does not check:
  otherwise the ports compared later are those of an older SYN in the same slot.
\<close>

theorem listeners_stay_wf:
  assumes "listeners_wf s" "PKT_TCP_SZ \<le> unat (of_nat ETH_HDR_SZ + ip_len p :: u16)" "backlog \<le> 2147483648"
  shows "post (listener_packet e li p os core fg s) listeners_wf \<and> post (tcp_accept e ctx op la db s) (\<lambda>(s', _). listeners_wf s') \<and>
    post (tcp_listen ctx op port backlog b1 b2 b3 s) (\<lambda>(s', _). listeners_wf s')"
proof (intro conjI)
  let ?len = "unat (of_nat ETH_HDR_SZ + ip_len p :: u16)"
  show "post (listener_packet e li p os core fg s) listeners_wf"
    unfolding listener_packet_def Let_def
  proof (intro post_get post_if)
    fix l assume l: "listeners s li = Some l" "ls_backlog_len l \<noteq> ls_backlog_used l" "\<not> ?len > BACKLOG_BUF" "\<not> backlog_has l p" "\<not> ?len > length (pkt_bytes p)"
    have "listener_wf (backlog_push p ?len core fg l)"
      by (rule wf_push) (use l assms in \<open>auto simp: listeners_wf_def\<close>)
    then have w: "listeners_wf (upd_listener li (backlog_push p ?len core fg) s)"
      by (intro wf_upd_listener [OF assms(1)]) (use l(1) in auto)
    have "post (appif_listen_newconn l (ip_src p) (tcp_src p) (upd_listener li (backlog_push p ?len core fg) s)) listeners_wf"
      by (rule post_mono [OF listeners_of_same [OF keeps_newconn refl]]) (rule iffD2 [OF wf_eq w])
    then show "post (bind_res (appif_listen_newconn l (ip_src p) (tcp_src p) (upd_listener li (backlog_push p ?len core fg) s)) (\<lambda>s.
          if ls_wait l \<noteq> [] then listener_accept e li s else Inr s)) listeners_wf"
      by (rule post_seq) (use wf_listener_accept in auto)
  next
    show "post (bind_res (send_reset e p os s) (\<lambda>(s, _). Inr s)) listeners_wf"
      by (rule post_seq2 [OF listeners_of_same2 [OF keeps_send_reset refl]]) (simp add: wf_eq [of _ s] assms(1))
  qed (simp_all add: assms(1))
  obtain r s1 where a: "conn_alloc s = (r, s1)" by (cases "conn_alloc s")
  have "listeners s1 = listeners s"
    using a by (auto simp: conn_alloc_def k_packetmem_alloc_def k_packetmem_free_def malloc_def split: option.splits prod.splits if_splits)
  then have w1: "listeners_wf s1" by (rule iffD2 [OF wf_eq assms(1)])
  then have w2: "listeners_wf (upd_listener i (\<lambda>l. l\<lparr>ls_wait := c # ls_wait l\<rparr>) (upd_conn c f s1))" for i c f
    by (intro wf_upd_listener) (auto simp: wf_wait listeners_wf_def)
  show "post (tcp_accept e ctx op la db s) (\<lambda>(s', _). listeners_wf s')"
    unfolding tcp_accept_def a prod.case Let_def
    by (intro post_option post_get post_seq [where P = listeners_wf] post_if wf_listener_accept) (simp_all add: w1 w2)
  obtain l s2 where m1: "malloc s = (l, s2)" by (cases "malloc s")
  obtain m s3 where m2: "malloc s2 = (m, s3)" by (cases "malloc s2")
  have l3: "listeners s3 = listeners s" using m1 m2 by (auto simp: malloc_def)
  have nw: "listener_wf \<lparr>ls_opaque = op, ls_ctx = ctx, ls_backlog_len = backlog, ls_backlog_pos = 0, ls_backlog_used = 0,
      ls_slots = replicate (unat backlog) \<lparr>bl_buf = replicate BACKLOG_BUF 0, bl_len = 0\<rparr>, ls_cores = replicate (unat backlog) 0,
      ls_fgs = replicate (unat backlog) 0, ls_wait = [], ls_port = port, ls_flags = fl\<rparr>" for fl
    using assms(3) by (simp add: listener_wf_def bl_ok_def bl_peers_def bl_entries_def word_le_nat_alt)
  show "post (tcp_listen ctx op port backlog b1 b2 b3 s) (\<lambda>(s', _). listeners_wf s')"
    unfolding tcp_listen_def m1 m2 Let_def snd_conv prod.case using assms(1) l3 nw
    by (auto split: port.split option.split simp: listeners_wf_def simp del: post_simps(3) intro!: post_skip post_if)
qed

section \<open>Examples\<close>

text \<open>A ring of two slots whose second slot is used, and a SYN.\<close>

definition ex_listener :: listener where
  "ex_listener = \<lparr>ls_opaque = 5, ls_ctx = 9, ls_backlog_len = 2, ls_backlog_pos = 1, ls_backlog_used = 1,
     ls_slots = replicate 2 \<lparr>bl_buf = replicate BACKLOG_BUF 0, bl_len = 54\<rparr>, ls_cores = [0, 0], ls_fgs = [0, 0], ls_wait = [],
     ls_port = 80, ls_flags = 0\<rparr>"

definition ex_syn :: pkt_tcp where
  "ex_syn = control_frame ex_kenv 7 9 2 1 80 50000 1000 0 TCP_SYN None 0"

lemma ex_syn_simps: "ip_len ex_syn = 40" "pbody ex_syn = []"
  by (simp_all add: ex_syn_def control_frame_def control_opts_def Let_def)

lemma ex_listener_ok: "bl_ok ex_listener" "listener_wf ex_listener"
  by (simp_all add: bl_ok_def listener_wf_def ex_listener_def bl_peers_def bl_entries_def bl_entry_def backlog_index_def)

lemma ex_syn_length: "length (pkt_bytes ex_syn) = 54"
  by (simp add: pkt_bytes_def ex_syn_simps be48_bytes_def be32_bytes_def be16_bytes_def)

theorem backlog_refines_queue_witness:
  "bl_entries (backlog_push ex_syn 54 3 7 ex_listener) = [(replicate 54 0, 0, 0), (pkt_bytes ex_syn, 3, 7)] \<and>
   bl_entries (backlog_pop ex_listener) = []"
proof -
  have e: "bl_entries ex_listener = [(replicate 54 0, 0, 0)]"
    by (simp add: bl_entries_def bl_entry_def backlog_index_def ex_listener_def nth_Cons' take_replicate)
  show ?thesis
    using backlog_refines_queue [OF ex_listener_ok(1), of 54 ex_syn 3 7] by (simp add: ex_syn_length e) (simp add: ex_listener_def)
qed

theorem listeners_stay_wf_witness:
  "post (listener_packet ex_kenv 7 ex_syn \<lparr>opt_mss = None, opt_ts = None\<rparr> 3 7 (ex_arp\<lparr>listeners := [7 \<mapsto> ex_listener]\<rparr>)) listeners_wf \<and>
   post (tcp_accept ex_kenv 9 77 (Some 7) 1 (ex_arp\<lparr>listeners := [7 \<mapsto> ex_listener]\<rparr>)) (\<lambda>(s', _). listeners_wf s') \<and>
   post (tcp_listen 9 77 80 16 False False False (ex_arp\<lparr>listeners := [7 \<mapsto> ex_listener]\<rparr>)) (\<lambda>(s', _). listeners_wf s')"
  using listeners_stay_wf [of "ex_arp\<lparr>listeners := [7 \<mapsto> ex_listener]\<rparr>" ex_syn 16 ex_kenv 7 "\<lparr>opt_mss = None, opt_ts = None\<rparr>" 3 7 9 77
      "Some 7" 1 80 False False False]
  by (simp add: listeners_wf_def ex_listener_ok ex_syn_simps)

end
